(* ===== verification/Prelude.thy ===== *)
theory Prelude
  imports Main "HOL-Library.Word"
begin

text \<open>
  Shared ground of the development: the byte type, the effects of the C program as explicit
  values, and the generic lemmas every component uses.

  The program writes lines to standard output and may stop early: \<open>fatal\<close> prints a message
  and exits, the hash code calls \<open>abort\<close>, and an access outside an object is undefined.
  A computation is therefore a pair of the lines printed so far and either the reason it
  stopped or its value. Lines printed before a stop stay printed, as they do in C.

  A pointer is modelled by the bytes from where it points to the end of the object it points
  into; \<open>p + n\<close> is \<open>drop n p\<close>, and reading \<open>n\<close> bytes through \<open>p\<close> is \<open>load p n\<close>, which
  stops with \<open>Out_of_bounds\<close> if the object does not hold that many.
\<close>

unbundle bit_operations_syntax

section \<open>Types\<close>

type_synonym byte = "8 word"
type_synonym bytes = "byte list"

datatype stop = Fatal string | Abort | Out_of_bounds

text \<open>A line of standard output: \<open>field\<close> prints a padded name and a value, the encoder
  prints bare lines.\<close>

datatype line = Field string string | Bare string

type_synonym 'a prog = "line list \<times> (stop + 'a)"

named_theorems prog_simps \<open>running programs\<close>
named_theorems len_simps \<open>lengths of byte strings\<close>

section \<open>Programs\<close>

definition ret :: "'a \<Rightarrow> 'a prog" where
  "ret a = ([], Inr a)"

definition halt :: "stop \<Rightarrow> 'a prog" where
  "halt s = ([], Inl s)"

definition fatal :: "string \<Rightarrow> 'a prog" where
  "fatal msg = halt (Fatal msg)"

definition abort :: "'a prog" where
  "abort = halt Abort"

definition print :: "line list \<Rightarrow> unit prog" where
  "print ls = (ls, Inr ())"

definition andthen :: "'a prog \<Rightarrow> ('a \<Rightarrow> 'b prog) \<Rightarrow> 'b prog" where
  "andthen m f = (case m of (out, r) \<Rightarrow>
     (case r of Inl s \<Rightarrow> (out, Inl s)
      | Inr a \<Rightarrow> (case f a of (out', r') \<Rightarrow> (out @ out', r'))))"

primrec seq :: "unit prog list \<Rightarrow> unit prog" where
  "seq [] = ret ()"
| "seq (m # ms) = andthen m (\<lambda>_. seq ms)"

definition load :: "bytes \<Rightarrow> nat \<Rightarrow> bytes prog" where
  "load p n = (if n \<le> length p then ret (take n p) else halt Out_of_bounds)"

definition load_byte :: "bytes \<Rightarrow> nat \<Rightarrow> byte prog" where
  "load_byte p i = (if i < length p then ret (p ! i) else halt Out_of_bounds)"

text \<open>Appending to a local buffer of \<open>cap\<close> bytes that already holds \<open>out\<close>: the
  \<open>memcpy (out + n, p, k); n += k\<close> idiom.\<close>

definition store :: "nat \<Rightarrow> bytes \<Rightarrow> bytes \<Rightarrow> bytes prog" where
  "store cap out src = (if length out + length src \<le> cap then ret (out @ src) else halt Out_of_bounds)"

definition append_from :: "nat \<Rightarrow> bytes \<Rightarrow> bytes \<Rightarrow> nat \<Rightarrow> bytes prog" where
  "append_from cap out p k = andthen (load p k) (\<lambda>src. store cap out src)"

text \<open>What a caller sees: the lines, and whether the program ran to its end.\<close>

definition returns :: "'a prog \<Rightarrow> bool" where
  "returns m \<longleftrightarrow> (\<exists>a. snd m = Inr a)"

definition memory_safe :: "'a prog \<Rightarrow> bool" where
  "memory_safe m \<longleftrightarrow> snd m \<noteq> Inl Out_of_bounds"

section \<open>Laws of programs\<close>

lemma andthen_ret [simp, prog_simps]: "andthen (ret a) f = f a"
  by (simp add: andthen_def ret_def)

lemma andthen_ret_right [simp]: "andthen m ret = m"
  by (auto simp: andthen_def ret_def split: prod.splits sum.splits)

lemma andthen_halt [simp, prog_simps]: "andthen (halt s) f = halt s"
  by (simp add: andthen_def halt_def)

lemma andthen_fatal [simp, prog_simps]: "andthen (fatal msg) f = fatal msg"
  by (simp add: fatal_def)

lemma andthen_abort [simp, prog_simps]: "andthen abort f = abort"
  by (simp add: abort_def)

lemma andthen_cong [fundef_cong]:
  "m = m' \<Longrightarrow> (\<And>a. snd m' = Inr a \<Longrightarrow> f a = g a) \<Longrightarrow> andthen m f = andthen m' g"
  by (auto simp: andthen_def split: prod.splits sum.splits)

lemma andthen_assoc: "andthen (andthen m f) g = andthen m (\<lambda>a. andthen (f a) g)"
  by (auto simp: andthen_def split: prod.splits sum.splits)

lemma andthen_print [prog_simps]:
  "andthen (print ls) f = (ls @ fst (f ()), snd (f ()))"
  by (simp add: andthen_def print_def split: prod.splits)

lemma andthen_print_print [simp, prog_simps]:
  "andthen (print ls) (\<lambda>_. print ls') = print (ls @ ls')"
  by (simp add: andthen_def print_def)

lemma andthen_print_assoc [simp, prog_simps]:
  "andthen (print ls) (\<lambda>_. andthen (print ls') f) = andthen (print (ls @ ls')) f"
  by (simp add: andthen_def print_def split: prod.splits)

lemma print_Nil: "print [] = ret ()"
  by (simp add: print_def ret_def)

lemma andthen_print_Nil [simp]: "andthen (print []) f = f ()"
  by (simp add: print_Nil)

lemma andthen_unit_ret [simp]: "andthen m (\<lambda>_. ret ()) = m"
  by (auto simp: andthen_def ret_def split: prod.splits sum.splits)

lemma andthen_if: "andthen (if c then m else m') f = (if c then andthen m f else andthen m' f)"
  by simp

lemma seq_append: "seq (ms @ ms') = andthen (seq ms) (\<lambda>_. seq ms')"
  by (induction ms) (simp_all add: andthen_assoc)

lemma seq_map_print: "seq (map print lss) = print (concat lss)"
  by (induction lss) (simp_all add: print_Nil)

section \<open>Loads and stores\<close>

lemma load_ok [simp, prog_simps]: "n \<le> length p \<Longrightarrow> load p n = ret (take n p)"
  by (simp add: load_def)

lemma load_byte_ok [simp, prog_simps]: "i < length p \<Longrightarrow> load_byte p i = ret (p ! i)"
  by (simp add: load_byte_def)

lemma store_ok [simp, prog_simps]:
  "length out + length src \<le> cap \<Longrightarrow> store cap out src = ret (out @ src)"
  by (simp add: store_def)

lemma append_from_ok [simp, prog_simps]:
  "k \<le> length p \<Longrightarrow> length out + k \<le> cap \<Longrightarrow> append_from cap out p k = ret (out @ take k p)"
  by (simp add: append_from_def)

section \<open>Outcomes\<close>

lemma snd_ret [simp]: "snd (ret a) = Inr a"
  by (simp add: ret_def)

lemma snd_print [simp]: "snd (print ls) = Inr ()"
  by (simp add: print_def)

lemma fst_print [simp]: "fst (print ls) = ls"
  by (simp add: print_def)

lemma returns_ret [simp, intro]: "returns (ret a)"
  by (simp add: returns_def)

lemma returns_print [simp, intro]: "returns (print ls)"
  by (simp add: returns_def)

lemma returns_memory_safe: "returns m \<Longrightarrow> memory_safe m"
  by (auto simp: returns_def memory_safe_def)

lemma memory_safe_ret [simp, intro]: "memory_safe (ret a)"
  by (simp add: memory_safe_def)

lemma memory_safe_print [simp, intro]: "memory_safe (print ls)"
  by (simp add: memory_safe_def)

lemma memory_safe_fatal [simp, intro]: "memory_safe (fatal msg)"
  by (simp add: memory_safe_def fatal_def halt_def)

lemma memory_safe_abort [simp, intro]: "memory_safe abort"
  by (simp add: memory_safe_def abort_def halt_def)

lemma memory_safe_andthen:
  assumes "memory_safe m" and "\<And>a. snd m = Inr a \<Longrightarrow> memory_safe (f a)"
  shows "memory_safe (andthen m f)"
  using assms by (auto simp: memory_safe_def andthen_def split: prod.splits sum.splits)

section \<open>Lists\<close>

lemma take_take_min [simp]: "n \<le> m \<Longrightarrow> take n (take m xs) = take n xs"
  by (simp add: min_def)

lemma take_append_exact [simp]: "n = length xs \<Longrightarrow> take n (xs @ ys) = xs"
  by simp

lemma drop_append_exact [simp]: "n = length xs \<Longrightarrow> drop n (xs @ ys) = ys"
  by simp

lemma take_append_le [simp]: "n \<le> length xs \<Longrightarrow> take n (xs @ ys) = take n xs"
  by simp

lemma take_drop_split: "i \<le> j \<Longrightarrow> take i xs @ take (j - i) (drop i xs) = take j xs"
  by (metis le_add_diff_inverse take_add)

lemma unat_byte_less [simp]: "unat (b :: byte) < 256"
  using unsigned_less [of b] by simp

lemma push_bit_or: "(b::nat) < 2 ^ n \<Longrightarrow> push_bit n a OR b = 2 ^ n * a + b"
proof -
  assume "b < 2 ^ n"
  then have b: "take_bit n b = b" by (simp add: take_bit_nat_eq_self)
  have "push_bit n a OR take_bit n b = push_bit n a + take_bit n b"
    by (rule disjunctive_add [symmetric]) (auto simp: bit_push_bit_iff bit_take_bit_iff)
  then show ?thesis unfolding b by (simp add: push_bit_eq_mult)
qed

text \<open>Short ranges, written out.\<close>

lemma upt_4: "[0..<4] = [0, 1, 2, 3 :: nat]"
  by (simp add: upt_rec)

lemma upt_16: "[0..<16] = [0, 1, 2, 3, 4, 5, 6, 7, 8, 9, 10, 11, 12, 13, 14, 15 :: nat]"
  by (simp add: upt_rec)

fun chunks :: "nat \<Rightarrow> 'a list \<Rightarrow> 'a list list" where
  "chunks n xs = (if xs = [] \<or> n = 0 then [] else take n xs # chunks n (drop n xs))"

declare chunks.simps [simp del]

lemma chunks_Nil [simp]: "chunks n [] = []"
  by (simp add: chunks.simps)

lemma chunks_step: "0 < n \<Longrightarrow> n \<le> length xs \<Longrightarrow> chunks n xs = take n xs # chunks n (drop n xs)"
  by (subst chunks.simps) auto

lemma chunks_exact: "0 < n \<Longrightarrow> length xs = n \<Longrightarrow> chunks n xs = [xs]"
  by (simp add: chunks_step)

lemma concat_chunks [simp]: "0 < n \<Longrightarrow> concat (chunks n xs) = xs"
  by (induction n xs rule: chunks.induct) (subst chunks.simps, simp)

lemma length_concat_map_const:
  "(\<And>x. x \<in> set xs \<Longrightarrow> length (f x) = k) \<Longrightarrow> length (concat (map f xs)) = k * length xs"
  by (induction xs) simp_all

lemma chunks_lengths: "0 < n \<Longrightarrow> n dvd length xs \<Longrightarrow> \<forall>b \<in> set (chunks n xs). length b = n"
proof (induction n xs rule: chunks.induct)
  case (1 n xs)
  show ?case
  proof (cases "xs = []")
    case True
    then show ?thesis by simp
  next
    case False
    then have le: "n \<le> length xs"
      using "1.prems" by (simp add: dvd_imp_le)
    then have "n dvd length (drop n xs)"
      using "1.prems" by simp
    then have rest: "\<forall>b \<in> set (chunks n (drop n xs)). length b = n"
      using "1.IH" "1.prems" False by blast
    have "set (chunks n xs) = insert (take n xs) (set (chunks n (drop n xs)))"
      unfolding chunks_step [OF "1.prems"(1) le] by (rule list.set(2))
    with rest le show ?thesis by (metis insert_iff length_take min.absorb2)
  qed
qed

lemma chunks_append: "0 < n \<Longrightarrow> n dvd length xs \<Longrightarrow> chunks n (xs @ ys) = chunks n xs @ chunks n ys"
proof (induction n xs rule: chunks.induct)
  case (1 n xs)
  show ?case
  proof (cases "xs = []")
    case False
    then have l: "n \<le> length xs" using 1 by (simp add: dvd_imp_le)
    moreover from l have "n dvd length (drop n xs)" using 1 by (simp add: dvd_diff_nat)
    ultimately show ?thesis using 1 False by (simp add: chunks_step)
  qed simp
qed

lemma chunks_count: "0 < n \<Longrightarrow> n dvd length xs \<Longrightarrow> n * length (chunks n xs) = length xs"
proof -
  assume a: "0 < n" "n dvd length xs"
  then have "length (concat (map id (chunks n xs))) = n * length (chunks n xs)"
    using chunks_lengths [of n xs] by (intro length_concat_map_const) simp
  then show ?thesis using a by simp
qed

text \<open>Splitting at every occurrence of a separator; there is always a first part.\<close>

fun split_on :: "'a \<Rightarrow> 'a list \<Rightarrow> 'a list list" where
  "split_on c [] = [[]]"
| "split_on c (x # xs) =
    (if x = c then [] # split_on c xs
     else (case split_on c xs of [] \<Rightarrow> [[x]] | y # ys \<Rightarrow> (x # y) # ys))"

lemma split_on_nonempty [simp]: "split_on c xs \<noteq> []"
  by (induction c xs rule: split_on.induct) (auto split: list.splits)

lemma split_on_parts: "\<forall>y \<in> set (split_on c xs). c \<notin> set y"
  by (induction c xs rule: split_on.induct) (auto split: list.splits)

lemma concat_split_on: "c # concat (map (\<lambda>y. y @ [c]) (split_on c xs)) = c # xs @ [c]"
  by (induction c xs rule: split_on.induct) (auto split: list.splits)

lemma concat_map_singleton: "concat (map (\<lambda>x. [f x]) xs) = map f xs"
  by (induction xs) simp_all

section \<open>Layouts and their decoders\<close>

text \<open>The contract between a byte layout and the decoder that reads it: the decoder gives back
  what was laid out, and accepts nothing else.\<close>

locale layout =
  fixes enc :: "'a \<Rightarrow> bytes" and dec :: "bytes \<Rightarrow> 'e + 'a" and wf :: "'a \<Rightarrow> bool"
  assumes dec_enc: "wf x \<Longrightarrow> dec (enc x) = Inr x"
    and enc_dec: "dec bs = Inr x \<Longrightarrow> wf x \<and> enc x = bs"
begin

lemma dec_iff: "dec bs = Inr x \<longleftrightarrow> wf x \<and> bs = enc x"
  using dec_enc enc_dec by blast

lemma enc_inj: "wf x \<Longrightarrow> wf y \<Longrightarrow> enc x = enc y \<Longrightarrow> x = y"
  by (metis dec_enc sum.inject(2))

lemma accepts_iff: "(\<exists>x. dec bs = Inr x) \<longleftrightarrow> (\<exists>x. wf x \<and> bs = enc x)"
  by (simp add: dec_iff)

lemma dec_inj: "dec bs = Inr x \<Longrightarrow> dec bs' = Inr x \<Longrightarrow> bs = bs'"
  by (simp add: dec_iff)

end

section \<open>Little-endian numbers\<close>

text \<open>A byte string as a little-endian number.\<close>

definition le_value :: "bytes \<Rightarrow> nat" where
  "le_value bs = foldr (\<lambda>b v. unat b + 256 * v) bs 0"

lemma le_value_Nil [simp]: "le_value [] = 0"
  by (simp add: le_value_def)

lemma le_value_Cons [simp]: "le_value (b # bs) = unat b + 256 * le_value bs"
  by (simp add: le_value_def)

lemma le_value_append: "le_value (as @ bs) = le_value as + 256 ^ length as * le_value bs"
  by (induction as) (simp_all add: algebra_simps)

lemma le_value_bound: "le_value bs < 256 ^ length bs"
proof (induction bs)
  case Nil
  then show ?case by simp
next
  case (Cons b bs)
  have "unat b < 256" by simp
  with Cons show ?case by (simp, linarith)
qed

lemma le_value_zeros [simp]: "le_value (replicate n 0) = 0"
  by (induction n) simp_all

text \<open>The bytes of a number.\<close>

primrec le_bytes :: "nat \<Rightarrow> nat \<Rightarrow> bytes" where
  "le_bytes 0 x = []"
| "le_bytes (Suc n) x = word_of_nat x # le_bytes n (x div 256)"

lemma le_bytes_value: "le_bytes (length bs) (le_value bs) = bs"
proof (induction bs)
  case (Cons b bs)
  have "word_of_nat (unat b + 256 * le_value bs) = b"
    by (rule word_unat_eq_iff [THEN iffD2]) (simp add: unat_of_nat del: of_nat_add of_nat_mult)
  moreover have "(unat b + 256 * le_value bs) div 256 = le_value bs" using unat_byte_less [of b] by simp
  ultimately show ?case using Cons by simp
qed simp

lemma le_bytes_eq: "length bs = n \<Longrightarrow> le_value bs = x \<Longrightarrow> bs = le_bytes n x"
  using le_bytes_value [of bs] by simp

lemma le_bytes_numeral: "le_bytes (numeral n) x = word_of_nat x # le_bytes (pred_numeral n) (x div 256)"
  by (subst numeral_eq_Suc) simp

lemma le_bytes_length [simp]: "length (le_bytes n x) = n"
  by (induction n arbitrary: x) simp_all

lemma le_value_le_bytes: "le_value (le_bytes n x) = x mod 256 ^ n"
proof (induction n arbitrary: x)
  case (Suc n)
  have "x mod (256 * 256 ^ n) = x mod 256 + 256 * (x div 256 mod 256 ^ n)" by (simp add: mod_mult2_eq)
  then show ?case using Suc by (simp add: unat_of_nat)
qed simp

end
