(* ===== verification/Text_Format.thy ===== *)
theory Text_Format
  imports Prelude
begin

text \<open>
  How bytes and numbers are written and read as text: the conversions of \<open>printf\<close> that
  cmd/dump.c uses (\<open>%zu\<close>, \<open>%u\<close>, \<open>%02x\<close>, \<open>%-18s\<close>), its printing functions \<open>field\<close> and
  \<open>field_hex\<close>, its hex reader \<open>unhex\<close>, and \<open>strtoul\<close> as \<open>put_hops\<close> calls it. The lemmas are
  the inverses: reading back what was printed.
\<close>

section \<open>Decimal and hexadecimal digits\<close>

definition digit :: "nat \<Rightarrow> char" where
  "digit n = (if n < 10 then char_of (48 + n) else char_of (87 + n))"

fun dec :: "nat \<Rightarrow> string" where
  "dec n = (if n < 10 then [digit n] else dec (n div 10) @ [digit (n mod 10)])"

fun hex_nat :: "nat \<Rightarrow> string" where
  "hex_nat n = (if n < 16 then [digit n] else hex_nat (n div 16) @ [digit (n mod 16)])"

declare dec.simps [simp del] hex_nat.simps [simp del]

text \<open>\<open>%02x\<close>: at least two digits.\<close>

definition hex02 :: "nat \<Rightarrow> string" where
  "hex02 n = (if n < 16 then ''0'' @ hex_nat n else hex_nat n)"

definition hex_byte :: "byte \<Rightarrow> string" where
  "hex_byte b = [digit (unat b div 16), digit (unat b mod 16)]"

definition hex_bytes :: "bytes \<Rightarrow> string" where
  "hex_bytes bs = concat (map hex_byte bs)"

text \<open>The text of a field that holds a byte string: the empty one is a dash.\<close>

definition hex_value :: "bytes \<Rightarrow> string" where
  "hex_value bs = (if bs = [] then ''-'' else hex_bytes bs)"

section \<open>Printing fields\<close>

definition FIELDW :: nat where
  "FIELDW = 18"

definition field :: "string \<Rightarrow> string \<Rightarrow> unit prog" where
  "field name val = print [Field name val]"

definition field_hex :: "string \<Rightarrow> bytes \<Rightarrow> nat \<Rightarrow> unit prog" where
  "field_hex name p n =
     (if n = 0 then field name ''-''
      else andthen (load p n) (\<lambda>bs. print [Field name (hex_bytes bs)]))"

text \<open>The bytes on standard output: \<open>%-*s\<close> pads the name to \<open>FIELDW\<close> columns, a blank
  and the value follow.\<close>

definition newline :: char where
  "newline = CHR 0x0A"

definition blank :: char where
  "blank = CHR '' ''"

definition pad :: "nat \<Rightarrow> string \<Rightarrow> string" where
  "pad w s = s @ replicate (w - length s) blank"

fun render_line :: "line \<Rightarrow> string" where
  "render_line (Field name val) = pad FIELDW name @ [blank] @ val @ [newline]"
| "render_line (Bare s) = s @ [newline]"

definition render :: "line list \<Rightarrow> string" where
  "render ls = concat (map render_line ls)"

section \<open>Reading hex and numbers\<close>

definition unhex :: "char \<Rightarrow> int" where
  "unhex c = (let v = int (of_char c) in
     if 48 \<le> v \<and> v \<le> 57 then v - 48
     else if 97 \<le> v \<and> v \<le> 102 then v - 97 + 10
     else - 1)"

definition nibbles :: "int \<Rightarrow> int \<Rightarrow> byte" where
  "nibbles hi lo = word_of_int (push_bit 4 hi OR lo)"

text \<open>\<open>strtoul (v, &end, 10)\<close>: blanks, an optional sign, digits. The value wraps to
  \<open>ULONG_MAX\<close> on overflow, a minus sign negates it modulo \<open>2 ^ 64\<close>, and without any digit
  the end pointer is the start of the string.\<close>

definition is_space :: "char \<Rightarrow> bool" where
  "is_space c \<longleftrightarrow> (let v = (of_char c :: nat) in v = 32 \<or> 9 \<le> v \<and> v \<le> 13)"

definition is_digit :: "char \<Rightarrow> bool" where
  "is_digit c \<longleftrightarrow> (let v = (of_char c :: nat) in 48 \<le> v \<and> v \<le> 57)"

definition digits_value :: "string \<Rightarrow> nat" where
  "digits_value s = foldl (\<lambda>a c. 10 * a + (of_char c - 48)) 0 s"

definition ULONG_MAX :: nat where
  "ULONG_MAX = 2 ^ 64 - 1"

definition strtoul :: "string \<Rightarrow> nat \<times> string" where
  "strtoul s =
    (let t = dropWhile is_space s;
         neg = (t \<noteq> [] \<and> hd t = CHR ''-'');
         u = (if t \<noteq> [] \<and> (hd t = CHR ''-'' \<or> hd t = CHR ''+'') then tl t else t);
         ds = takeWhile is_digit u;
         n = digits_value ds
     in if ds = [] then (0, s)
        else (if n > ULONG_MAX then ULONG_MAX
              else if neg then (2 ^ 64 - n) mod 2 ^ 64 else n, dropWhile is_digit u))"

section \<open>Digits read back\<close>

lemma of_char_digit: "n < 16 \<Longrightarrow> of_char (digit n) = (if n < 10 then 48 + n else 87 + n)"
  by (simp add: digit_def)

lemma unhex_digit [simp]: "n < 16 \<Longrightarrow> unhex (digit n) = int n"
  by (auto simp: unhex_def Let_def of_char_digit)

lemma nibbles_eq: "l < 16 \<Longrightarrow> nibbles (int h) (int l) = of_nat (16 * h + l)"
proof -
  assume l: "l < 16"
  then have "take_bit 4 (int l) = int l"
    by (simp add: take_bit_eq_mod)
  then have "push_bit 4 (int h) OR int l = concat_bit 4 (int l) (int h)"
    by (simp add: concat_bit_def or.commute)
  also have "\<dots> = int l + 16 * int h"
    using l by (simp add: concat_bit_eq take_bit_eq_mod push_bit_eq_mult)
  finally show ?thesis
    by (simp add: nibbles_def add.commute)
qed

lemma nibbles_unat: "nibbles (int (unat b div 16)) (int (unat b mod 16)) = b"
  by (subst nibbles_eq) simp_all

lemma digit_inj: "m < 16 \<Longrightarrow> n < 16 \<Longrightarrow> digit m = digit n \<longleftrightarrow> m = n"
  by (metis nat_int unhex_digit)

lemma hex_byte_length [simp]: "length (hex_byte b) = 2"
  by (simp add: hex_byte_def)

lemma hex_bytes_length [simp, len_simps]: "length (hex_bytes bs) = 2 * length bs"
  by (induction bs) (simp_all add: hex_bytes_def)

lemma hex_bytes_Nil [simp]: "hex_bytes [] = []"
  by (simp add: hex_bytes_def)

lemma hex_bytes_Cons: "hex_bytes (b # bs) = hex_byte b @ hex_bytes bs"
  by (simp add: hex_bytes_def)

lemma hex_bytes_append: "hex_bytes (as @ bs) = hex_bytes as @ hex_bytes bs"
  by (simp add: hex_bytes_def)

lemma hex_bytes_eq_Nil [simp]: "hex_bytes bs = [] \<longleftrightarrow> bs = []"
  by (cases bs) (simp_all add: hex_bytes_Cons hex_byte_def)

lemma nat_mod_16_div [simp]: "unat (b :: byte) div 16 < 16"
  by (rule less_mult_imp_div_less) simp

section \<open>Printing, as lines\<close>

lemma field_hex_ok [simp, prog_simps]:
  "n \<le> length p \<Longrightarrow> field_hex name p n = print [Field name (hex_value (take n p))]"
  by (cases "n = 0") (auto simp: field_hex_def field_def hex_value_def)

lemma memory_safe_field [simp, intro]: "memory_safe (field name val)"
  by (simp add: field_def)

section \<open>Decimal text\<close>

lemma is_digit_digit [simp]: "n < 10 \<Longrightarrow> is_digit (digit n)"
  by (simp add: is_digit_def of_char_digit Let_def)

lemma dec_digits: "set (dec n) \<subseteq> {c. is_digit c}"
proof (induction n rule: dec.induct)
  case (1 n)
  then show ?case by (subst dec.simps) auto
qed

lemma dec_nonempty [simp]: "dec n \<noteq> []"
  by (subst dec.simps) simp

lemma digits_value_dec [simp]: "digits_value (dec n) = n"
proof (induction n rule: dec.induct)
  case (1 n)
  then show ?case
    by (subst dec.simps) (auto simp: digits_value_def of_char_digit)
qed

lemma strtoul_dec [simp]:
  assumes "n \<le> ULONG_MAX"
  shows "strtoul (dec n) = (n, [])"
proof -
  obtain c cs where d: "dec n = c # cs"
    by (cases "dec n") auto
  have all: "\<forall>x \<in> set (dec n). is_digit x"
    using dec_digits by auto
  then have c: "is_digit c" using d by simp
  then have "\<not> is_space c" and "c \<noteq> CHR ''-''" and "c \<noteq> CHR ''+''"
    by (auto simp: is_digit_def is_space_def Let_def)
  moreover have "takeWhile is_digit (dec n) = dec n" "dropWhile is_digit (dec n) = []"
    using all by (auto simp: takeWhile_eq_all_conv)
  ultimately show ?thesis
    using assms d digits_value_dec [of n] by (simp add: strtoul_def Let_def)
qed

end
