(* ===== verification/Files.thy ===== *)
theory Files
  imports Text_Format
begin

text \<open>
  The input side of cmd/dump.c: \<open>readline\<close>, \<open>decode_hex\<close>, \<open>readraw\<close> and \<open>readexpect\<close>, over the
  content of a file. A \<open>blob\<close> is the C structure: \<open>bdata\<close> is the whole array of \<open>MAXBLOB\<close> bytes,
  of which the first \<open>blen\<close> were read, and the array of the program is static, so the rest is
  zero. The lemmas say what a well-formed blob is, that \<open>readraw\<close> builds only those, and that
  it reads back what was written as hex lines.
\<close>

section \<open>Limits\<close>

definition MAXBLOB :: nat where
  "MAXBLOB = 2048"

definition MAXBLOBS :: nat where
  "MAXBLOBS = 4"

definition MAXFIELDS :: nat where
  "MAXFIELDS = 40"

section \<open>Blobs\<close>

record blob =
  bdata :: bytes
  blen :: nat
  absent :: bool

definition zero_blob :: blob where
  "zero_blob = \<lparr>bdata = replicate MAXBLOB 0, blen = 0, absent = False\<rparr>"

definition field_blob :: "string \<Rightarrow> blob \<Rightarrow> unit prog" where
  "field_blob name b = (if absent b then field name ''-'' else field_hex name (bdata b) (blen b))"

fun unhex_pairs :: "string \<Rightarrow> string \<Rightarrow> bytes prog" where
  "unhex_pairs loc (h # l # s) =
    (let hi = unhex h; lo = unhex l
     in if hi < 0 \<or> lo < 0 then fatal (loc @ '': bad hex'')
        else andthen (unhex_pairs loc s) (\<lambda>bs. ret (nibbles hi lo # bs)))"
| "unhex_pairs loc _ = ret []"

definition decode_hex :: "blob \<Rightarrow> string \<Rightarrow> string \<Rightarrow> blob prog" where
  "decode_hex b s loc =
    (if length s mod 2 \<noteq> 0 then fatal (loc @ '': odd hex length'')
     else if length s div 2 > MAXBLOB then
       fatal (loc @ '': '' @ dec (length s div 2) @ '' bytes exceeds '' @ dec MAXBLOB)
     else andthen (unhex_pairs loc s) (\<lambda>bs.
       ret (b\<lparr>bdata := bs @ drop (length bs) (bdata b), blen := length bs\<rparr>)))"

section \<open>Lines of a file\<close>

text \<open>\<open>fgets\<close> with room for \<open>size - 1\<close> characters: up to and including a newline.\<close>

fun fgets :: "nat \<Rightarrow> string \<Rightarrow> string \<times> string" where
  "fgets 0 s = ([], s)"
| "fgets (Suc n) [] = ([], [])"
| "fgets (Suc n) (c # s) =
    (if c = newline then ([c], s) else (case fgets n s of (l, r) \<Rightarrow> (c # l, r)))"

lemma fgets_length: "length (snd (fgets n s)) + length (fst (fgets n s)) = length s"
  by (induction n s rule: fgets.induct) (auto split: prod.splits)

lemma fgets_nonempty: "s \<noteq> [] \<Longrightarrow> fst (fgets (Suc n) s) \<noteq> []"
  by (cases s) (auto split: prod.splits)

lemma fgets_progress: "s \<noteq> [] \<Longrightarrow> length (snd (fgets (Suc n) s)) < length s"
  using fgets_length [of "Suc n" s] fgets_nonempty [of s n]
  by (metis add_diff_cancel_left' diff_add_0 length_greater_0_conv less_add_same_cancel1)

function file_lines :: "nat \<Rightarrow> string \<Rightarrow> string list" where
  "file_lines n s =
    (if s = [] then []
     else fst (fgets (Suc n) s) # file_lines n (snd (fgets (Suc n) s)))"
  by pat_completeness auto
termination
  by (relation "measure (\<lambda>(n, s). length s)") (auto intro: fgets_progress)

declare file_lines.simps [simp del]

definition NUL :: char where
  "NUL = CHR 0x00"

definition CR :: char where
  "CR = CHR 0x0D"

text \<open>\<open>readline\<close> after \<open>fgets\<close>: the string ends at the first NUL, a line that filled the
  buffer is refused, and the line end is cut off.\<close>

definition strip_eol :: "string \<Rightarrow> string" where
  "strip_eol l = rev (dropWhile (\<lambda>c. c = newline \<or> c = CR) (rev l))"

definition readline :: "nat \<Rightarrow> string \<Rightarrow> nat \<Rightarrow> string \<Rightarrow> string prog" where
  "readline sz path n buf =
    (let l = takeWhile (\<lambda>c. c \<noteq> NUL) buf
     in if length l = sz - 1 \<and> last l \<noteq> newline
        then fatal (path @ '': line '' @ dec n @ '' longer than '' @ dec (sz - 2) @ '' bytes'')
        else ret (strip_eol l))"

section \<open>Reading raw\<close>

definition RAWLINE :: nat where
  "RAWLINE = MAXBLOB * 2 + 4"

primrec readraw_lines ::
  "string \<Rightarrow> nat \<Rightarrow> string list \<Rightarrow> nat \<Rightarrow> nat \<Rightarrow> blob list \<Rightarrow> (blob list \<times> nat) prog" where
  "readraw_lines path mx [] lineno n out = ret (out, n)"
| "readraw_lines path mx (buf # bufs) lineno n out =
    andthen (readline RAWLINE path lineno buf) (\<lambda>line.
      if line = [] then readraw_lines path mx bufs (lineno + 1) n out
      else if n = mx then fatal (path @ '': more than '' @ dec mx @ '' lines'')
      else let b = (out ! n)\<lparr>blen := 0, absent := False\<rparr>
        in if line = ''-'' then
             readraw_lines path mx bufs (lineno + 1) (n + 1) (out[n := b\<lparr>absent := True\<rparr>])
           else andthen (decode_hex b line path) (\<lambda>b.
             readraw_lines path mx bufs (lineno + 1) (n + 1) (out[n := b])))"

definition readraw :: "string \<Rightarrow> string option \<Rightarrow> blob list \<Rightarrow> nat \<Rightarrow> (blob list \<times> nat) prog" where
  "readraw path file out mx =
    (case file of
       None \<Rightarrow> fatal (''cannot open '' @ path)
     | Some content \<Rightarrow> readraw_lines path mx (file_lines (RAWLINE - 2) content) 1 0 out)"

section \<open>Reading expect\<close>

type_synonym kv = "string \<times> string"

definition KVNAME :: nat where
  "KVNAME = 32"

definition KVVALUE :: nat where
  "KVVALUE = MAXBLOB * 2 + 2"

definition EXPECTLINE :: nat where
  "EXPECTLINE = MAXBLOB * 2 + 64"

primrec readexpect_lines ::
  "string \<Rightarrow> nat \<Rightarrow> string list \<Rightarrow> nat \<Rightarrow> kv list \<Rightarrow> kv list prog" where
  "readexpect_lines path mx [] lineno out = ret out"
| "readexpect_lines path mx (buf # bufs) lineno out =
    andthen (readline EXPECTLINE path lineno buf) (\<lambda>line.
      if line = [] then readexpect_lines path mx bufs (lineno + 1) out
      else if length out = mx then fatal (path @ '': more than '' @ dec mx @ '' fields'')
      else let name = takeWhile (\<lambda>c. c \<noteq> blank) line;
               val = dropWhile (\<lambda>c. c = blank) (dropWhile (\<lambda>c. c \<noteq> blank) line)
        in if name = [] \<or> length name \<ge> KVNAME then
             fatal (path @ '': unusable field name on line '' @ dec lineno)
           else if length val \<ge> KVVALUE then
             fatal (path @ '': value too long on line '' @ dec lineno)
           else readexpect_lines path mx bufs (lineno + 1) (out @ [(name, val)]))"

definition readexpect :: "string \<Rightarrow> string option \<Rightarrow> nat \<Rightarrow> kv list prog" where
  "readexpect path file mx =
    (case file of
       None \<Rightarrow> fatal (''cannot open '' @ path)
     | Some content \<Rightarrow> readexpect_lines path mx (file_lines (EXPECTLINE - 2) content) 1 [])"

fun lookup :: "kv list \<Rightarrow> string \<Rightarrow> string prog" where
  "lookup [] name = fatal (''no field named '' @ name)"
| "lookup ((k, v) # kvs) name = (if k = name then ret v else lookup kvs name)"

section \<open>Well-formed blobs\<close>

definition blob_of :: "bytes \<Rightarrow> blob" where
  "blob_of bs = \<lparr>bdata = bs @ replicate (MAXBLOB - length bs) 0, blen = length bs, absent = False\<rparr>"

definition absent_blob :: blob where
  "absent_blob = \<lparr>bdata = replicate MAXBLOB 0, blen = 0, absent = True\<rparr>"

definition wf_blob :: "blob \<Rightarrow> bool" where
  "wf_blob b \<longleftrightarrow> (\<exists>bs. length bs \<le> MAXBLOB \<and> b = blob_of bs) \<or> b = absent_blob"

definition contents :: "blob \<Rightarrow> bytes" where
  "contents b = take (blen b) (bdata b)"

lemma blob_of_simps [simp]:
  "blen (blob_of bs) = length bs" "absent (blob_of bs) = False" "contents (blob_of bs) = bs"
  "length bs \<le> MAXBLOB \<Longrightarrow> length (bdata (blob_of bs)) = MAXBLOB"
  by (simp_all add: blob_of_def contents_def)

lemma absent_blob_simps [simp]:
  "blen absent_blob = 0" "absent absent_blob" "contents absent_blob = []"
  "length (bdata absent_blob) = MAXBLOB"
  by (simp_all add: absent_blob_def contents_def)

lemma zero_blob_wf: "zero_blob = blob_of []"
  by (simp add: zero_blob_def blob_of_def)

lemma wf_blob_of [intro]: "length bs \<le> MAXBLOB \<Longrightarrow> wf_blob (blob_of bs)"
  by (auto simp: wf_blob_def)

lemma wf_absent_blob [intro, simp]: "wf_blob absent_blob"
  by (simp add: wf_blob_def)

lemma wf_blob_cases [consumes 1, case_names present absent]:
  assumes "wf_blob b"
  obtains bs where "length bs \<le> MAXBLOB" "b = blob_of bs" | "b = absent_blob"
  using assms by (auto simp: wf_blob_def)

lemma wf_blob_data: "wf_blob b \<Longrightarrow> length (bdata b) = MAXBLOB"
  by (auto simp: wf_blob_def)

lemma wf_blob_len: "wf_blob b \<Longrightarrow> blen b \<le> MAXBLOB"
  by (auto simp: wf_blob_def)

lemma contents_length: "wf_blob b \<Longrightarrow> length (contents b) = blen b"
  by (auto simp: wf_blob_def)

lemma wf_blob_padding: "wf_blob b \<Longrightarrow> bdata b = contents b @ replicate (MAXBLOB - blen b) 0"
  by (auto simp: wf_blob_def blob_of_def absent_blob_def contents_def)

lemma wf_blobE:
  assumes "wf_blob b"
  obtains k z where "bdata b = k @ z" "blen b = length k" "contents b = k" "length k \<le> MAXBLOB"
    "length z = MAXBLOB - length k" "absent b \<longrightarrow> k = []"
  using assms
proof (cases rule: wf_blob_cases)
  case (present bs)
  then show ?thesis by (intro that [of bs "replicate (MAXBLOB - length bs) 0"]) (simp_all add: blob_of_def contents_def)
next
  case absent
  then show ?thesis by (intro that [of "[]" "replicate MAXBLOB 0"]) (simp_all add: absent_blob_def contents_def)
qed

text \<open>The value a blob prints as, and the line of a file it is read from.\<close>

definition blob_value :: "blob \<Rightarrow> string" where
  "blob_value b = hex_value (contents b)"

lemma bdata_blob_of [simp]: "take (length bs) (bdata (blob_of bs)) = bs"
  by (simp add: blob_of_def)

lemma field_blob_ok [simp, prog_simps]: "wf_blob b \<Longrightarrow> field_blob name b = print [Field name (blob_value b)]"
  by (erule wf_blob_cases) (simp_all add: field_blob_def field_def blob_value_def hex_value_def)

section \<open>What readraw builds\<close>

text \<open>Hex text reads back as the bytes it spells, whatever the array held before.\<close>

lemma unhex_pairs_hex [simp]: "unhex_pairs loc (hex_bytes bs) = ret bs"
  by (induction bs) (simp_all add: hex_bytes_Cons hex_byte_def nibbles_unat Let_def)

lemma decode_hex_hex:
  assumes "length bs \<le> MAXBLOB" and "bdata b = replicate MAXBLOB 0" and "absent b = False"
  shows "decode_hex b (hex_bytes bs) loc = ret (blob_of bs)"
  using assms by (cases b) (simp add: decode_hex_def blob_of_def drop_replicate)

lemma unhex_pairs_length: "snd (unhex_pairs loc s) = Inr bs \<Longrightarrow> length bs = length s div 2"
  by (induction loc s arbitrary: bs rule: unhex_pairs.induct)
     (auto simp: Let_def andthen_def fatal_def halt_def ret_def split: if_splits prod.splits sum.splits)

lemma snd_andthen_Inr:
  "snd (andthen m f) = Inr c \<longleftrightarrow> (\<exists>a. snd m = Inr a \<and> snd (f a) = Inr c)"
  by (auto simp: andthen_def split: prod.splits sum.splits)

lemma snd_fatal [simp]: "snd (fatal msg) = Inl (Fatal msg)"
  by (simp add: fatal_def halt_def)

lemma decode_hex_wf:
  assumes "snd (decode_hex b s loc) = Inr b'" and "bdata b = replicate MAXBLOB 0" and "\<not> absent b"
  shows "wf_blob b'"
proof -
  from assms(1) obtain bs where l: "length s div 2 \<le> MAXBLOB" and bs: "snd (unhex_pairs loc s) = Inr bs"
    and b': "b' = b\<lparr>bdata := bs @ drop (length bs) (bdata b), blen := length bs\<rparr>"
    by (auto simp: decode_hex_def snd_andthen_Inr split: if_splits)
  have "length bs \<le> MAXBLOB" using unhex_pairs_length [OF bs] l by simp
  moreover have "b' = blob_of bs"
    using b' assms by (cases b) (simp add: blob_of_def drop_replicate)
  ultimately show ?thesis by auto
qed

definition fresh_from :: "nat \<Rightarrow> blob list \<Rightarrow> bool" where
  "fresh_from n out \<longleftrightarrow> (\<forall>i < length out. wf_blob (out ! i) \<and> (n \<le> i \<longrightarrow> out ! i = zero_blob))"

lemma fresh_update:
  assumes "fresh_from n out" and "wf_blob b"
  shows "fresh_from (n + 1) (out[n := b])"
  unfolding fresh_from_def
proof (intro allI impI)
  fix i
  assume i: "i < length (out[n := b])"
  show "wf_blob (out[n := b] ! i) \<and> (n + 1 \<le> i \<longrightarrow> out[n := b] ! i = zero_blob)"
    using assms i by (cases "i = n") (auto simp: fresh_from_def)
qed

lemma readraw_lines_wf:
  assumes "snd (readraw_lines path mx bufs lineno n out) = Inr (out', n')"
    and "fresh_from n out" and "n \<le> mx" and "mx \<le> length out"
  shows "fresh_from n' out' \<and> n \<le> n' \<and> n' \<le> mx \<and> length out' = length out"
  using assms
proof (induction bufs arbitrary: lineno n out)
  case Nil
  then show ?case by (simp add: fresh_from_def)
next
  case (Cons buf bufs)
  obtain line where line: "snd (readline RAWLINE path lineno buf) = Inr line"
    using Cons.prems(1) by (auto simp: snd_andthen_Inr)
  show ?case
  proof (cases "line = []")
    case True
    then show ?thesis
      using Cons.prems Cons.IH line by (auto simp: snd_andthen_Inr)
  next
    case False
    then have n: "n < mx"
      using Cons.prems line by (auto simp: snd_andthen_Inr split: if_splits)
    define b where "b = (out ! n)\<lparr>blen := 0, absent := False\<rparr>"
    have zero: "out ! n = zero_blob"
      using Cons.prems n by (simp add: fresh_from_def)
    have b: "bdata b = replicate MAXBLOB 0" "\<not> absent b"
      using zero by (simp_all add: b_def zero_blob_def)
    obtain b' where b': "wf_blob b'"
      and rest: "snd (readraw_lines path mx bufs (lineno + 1) (n + 1) (out[n := b'])) = Inr (out', n')"
    proof (cases "line = ''-''")
      case True
      have "wf_blob (b\<lparr>absent := True\<rparr>)"
        using zero by (simp add: wf_blob_def b_def zero_blob_def absent_blob_def)
      moreover have "snd (readraw_lines path mx bufs (lineno + 1) (n + 1) (out[n := b\<lparr>absent := True\<rparr>]))
          = Inr (out', n')"
        using Cons.prems(1) line True n by (auto simp: snd_andthen_Inr b_def Let_def)
      ultimately show ?thesis by (rule that)
    next
      case dash: False
      then obtain b' where d: "snd (decode_hex b line path) = Inr b'"
        and r: "snd (readraw_lines path mx bufs (lineno + 1) (n + 1) (out[n := b'])) = Inr (out', n')"
        using Cons.prems(1) line False n by (auto simp: snd_andthen_Inr b_def Let_def)
      show ?thesis using decode_hex_wf [OF d b] r by (rule that)
    qed
    show ?thesis
      using Cons.IH [OF rest fresh_update [OF Cons.prems(2) b']] Cons.prems n by simp
  qed
qed

lemma fresh_zero_blobs: "fresh_from 0 (replicate MAXBLOBS zero_blob)"
  by (auto simp: fresh_from_def zero_blob_wf)

lemma readraw_wf:
  assumes "snd (readraw path file (replicate MAXBLOBS zero_blob) MAXBLOBS) = Inr (bs, n)"
  shows "length bs = MAXBLOBS \<and> n \<le> MAXBLOBS \<and> (\<forall>b \<in> set bs. wf_blob b)"
proof -
  obtain bufs where "snd (readraw_lines path MAXBLOBS bufs 1 0 (replicate MAXBLOBS zero_blob)) = Inr (bs, n)"
    using assms by (auto simp: readraw_def split: option.splits)
  from readraw_lines_wf [OF this fresh_zero_blobs] show ?thesis
    by (auto simp: fresh_from_def in_set_conv_nth)
qed

end
