(* ===== verification/Sha256.thy ===== *)
theory Sha256
  imports Prelude
begin

text \<open>
  cmd/sha256.c: SHA-256 as the file computes it. \<open>sha256_block\<close> is \<open>block\<close>, the state is the
  list of eight words \<open>h\<close>, the message schedule is the array \<open>w\<close> grown one word at a time, and
  \<open>sha256\<close> runs the whole blocks of the message in place and then the one or two blocks it
  builds in \<open>tail\<close>. The second half states FIPS 180-4: pad the whole message first, cut it
  into blocks, fold the compression function over them. \<open>sha256_padded\<close> says the two agree
  on every input.
\<close>

type_synonym word32 = "32 word"

section \<open>The code\<close>

definition sha256_K :: "word32 list" where
  "sha256_K = concat
   [[0x428a2f98, 0x71374491, 0xb5c0fbcf, 0xe9b5dba5],
    [0x3956c25b, 0x59f111f1, 0x923f82a4, 0xab1c5ed5],
    [0xd807aa98, 0x12835b01, 0x243185be, 0x550c7dc3],
    [0x72be5d74, 0x80deb1fe, 0x9bdc06a7, 0xc19bf174],
    [0xe49b69c1, 0xefbe4786, 0x0fc19dc6, 0x240ca1cc],
    [0x2de92c6f, 0x4a7484aa, 0x5cb0a9dc, 0x76f988da],
    [0x983e5152, 0xa831c66d, 0xb00327c8, 0xbf597fc7],
    [0xc6e00bf3, 0xd5a79147, 0x06ca6351, 0x14292967],
    [0x27b70a85, 0x2e1b2138, 0x4d2c6dfc, 0x53380d13],
    [0x650a7354, 0x766a0abb, 0x81c2c92e, 0x92722c85],
    [0xa2bfe8a1, 0xa81a664b, 0xc24b8b70, 0xc76c51a3],
    [0xd192e819, 0xd6990624, 0xf40e3585, 0x106aa070],
    [0x19a4c116, 0x1e376c08, 0x2748774c, 0x34b0bcb5],
    [0x391c0cb3, 0x4ed8aa4a, 0x5b9cca4f, 0x682e6ff3],
    [0x748f82ee, 0x78a5636f, 0x84c87814, 0x8cc70208],
    [0x90befffa, 0xa4506ceb, 0xbef9a3f7, 0xc67178f2]]"

definition ror32 :: "word32 \<Rightarrow> nat \<Rightarrow> word32" where
  "ror32 x n = drop_bit n x OR push_bit (32 - n) x"

definition be32 :: "byte \<Rightarrow> byte \<Rightarrow> byte \<Rightarrow> byte \<Rightarrow> word32" where
  "be32 b0 b1 b2 b3 =
     push_bit 24 (ucast b0) OR push_bit 16 (ucast b1) OR push_bit 8 (ucast b2) OR ucast b3"

text \<open>The words \<open>w[0..15]\<close> of a block, and the loop that appends \<open>w[16..63]\<close>.\<close>

fun words_be :: "bytes \<Rightarrow> word32 list" where
  "words_be (b0 # b1 # b2 # b3 # bs) = be32 b0 b1 b2 b3 # words_be bs"
| "words_be _ = []"

definition schedule_word :: "word32 list \<Rightarrow> word32" where
  "schedule_word w =
    (let i = length w;
         s0 = ror32 (w ! (i - 15)) 7 XOR ror32 (w ! (i - 15)) 18 XOR drop_bit 3 (w ! (i - 15));
         s1 = ror32 (w ! (i - 2)) 17 XOR ror32 (w ! (i - 2)) 19 XOR drop_bit 10 (w ! (i - 2))
     in w ! (i - 16) + s0 + w ! (i - 7) + s1)"

primrec expand_schedule :: "nat \<Rightarrow> word32 list \<Rightarrow> word32 list" where
  "expand_schedule 0 w = w"
| "expand_schedule (Suc n) w = expand_schedule n (w @ [schedule_word w])"

fun sha256_round :: "word32 list \<Rightarrow> word32 \<times> word32 \<Rightarrow> word32 list" where
  "sha256_round [a, b, c, d, e, f, g, hh] (k, w) =
    (let S1 = ror32 e 6 XOR ror32 e 11 XOR ror32 e 25;
         ch = (e AND f) XOR (NOT e AND g);
         S0 = ror32 a 2 XOR ror32 a 13 XOR ror32 a 22;
         mj = (a AND b) XOR (a AND c) XOR (b AND c);
         t1 = hh + S1 + ch + k + w;
         t2 = S0 + mj
     in [t1 + t2, a, b, c, d + t1, e, f, g])"
| "sha256_round s _ = s"

definition sha256_block :: "word32 list \<Rightarrow> bytes \<Rightarrow> word32 list" where
  "sha256_block h p =
    (let w = expand_schedule 48 (words_be p)
     in map2 (+) h (foldl sha256_round h (zip sha256_K w)))"

definition sha256_init :: "word32 list" where
  "sha256_init =
  [0x6a09e667, 0xbb67ae85, 0x3c6ef372, 0xa54ff53a,
   0x510e527f, 0x9b05688c, 0x1f83d9ab, 0x5be0cd19]"

text \<open>The loop over the whole blocks: the state after it and the bytes left over.\<close>

function sha256_blocks :: "word32 list \<Rightarrow> bytes \<Rightarrow> word32 list \<times> bytes" where
  "sha256_blocks h data =
    (if 64 \<le> length data then sha256_blocks (sha256_block h (take 64 data)) (drop 64 data)
     else (h, data))"
  by pat_completeness auto
termination
  by (relation "measure (\<lambda>(h, data). length data)") auto

declare sha256_blocks.simps [simp del]

definition len_be64 :: "nat \<Rightarrow> bytes" where
  "len_be64 n =
    (let bits = of_nat n * 8 :: 64 word
     in map (\<lambda>i. ucast (drop_bit (8 * (7 - i)) bits)) [0..<8])"

definition word_bytes_be :: "word32 \<Rightarrow> bytes" where
  "word_bytes_be x =
     [ucast (drop_bit 24 x), ucast (drop_bit 16 x), ucast (drop_bit 8 x), ucast x]"

definition sha256 :: "bytes \<Rightarrow> bytes" where
  "sha256 data =
    (let (h, rest) = sha256_blocks sha256_init data;
         pad = (if length rest < 56 then 64 else 128);
         tail = rest @ [0x80] @ replicate (pad - length rest - 9) 0 @ len_be64 (length data);
         h1 = sha256_block h (take 64 tail);
         h2 = (if pad = 128 then sha256_block h1 (drop 64 tail) else h1)
     in concat (map word_bytes_be h2))"

section \<open>Padding first\<close>

text \<open>FIPS 180-4, section 5.1.1: a one bit, then the fewest zero bits that leave 64 bits of
  the last block for the length.\<close>

definition fips_zeros :: "nat \<Rightarrow> nat" where
  "fips_zeros n = (119 - n mod 64) mod 64"

definition fips_pad :: "bytes \<Rightarrow> bytes" where
  "fips_pad m = m @ [0x80] @ replicate (fips_zeros (length m)) 0 @ len_be64 (length m)"

definition padded_sha256 :: "bytes \<Rightarrow> bytes" where
  "padded_sha256 m =
     concat (map word_bytes_be (foldl sha256_block sha256_init (chunks 64 (fips_pad m))))"

lemma length_len_be64 [simp]: "length (len_be64 n) = 8"
  by (simp add: len_be64_def Let_def)

lemma fips_pad_length: "length (fips_pad m) mod 64 = 0"
proof -
  have "(n + 9 + fips_zeros n) mod 64 = 0" for n
  proof -
    have "(n mod 64 + 9 + (119 - n mod 64)) mod 64 = 0"
      using mod_less_divisor [of 64 n] by simp
    then show ?thesis
      unfolding fips_zeros_def by (metis mod_add_left_eq mod_add_right_eq add.assoc)
  qed
  from this [of "length m"] show ?thesis by (simp add: fips_pad_def ac_simps)
qed

lemma sha256_blocks_fold:
  "foldl sha256_block h (chunks 64 (data @ t)) =
     (let (h', rest) = sha256_blocks h data in foldl sha256_block h' (chunks 64 (rest @ t)))"
proof (induction h data rule: sha256_blocks.induct)
  case (1 h data)
  show ?case
  proof (cases "64 \<le> length data")
    case True
    then have "chunks 64 (data @ t) = take 64 data # chunks 64 (drop 64 data @ t)"
      by (simp add: chunks_step)
    moreover have "sha256_blocks h data = sha256_blocks (sha256_block h (take 64 data)) (drop 64 data)"
      using True by (simp add: sha256_blocks.simps [of h data])
    ultimately show ?thesis
      using "1.IH" True by simp
  next
    case False
    then show ?thesis by (simp add: sha256_blocks.simps [of h data])
  qed
qed

lemma sha256_blocks_rest:
  "snd (sha256_blocks h data) = drop (length data - length data mod 64) data"
proof (induction h data rule: sha256_blocks.induct)
  case (1 h data)
  show ?case
  proof (cases "64 \<le> length data")
    case True
    then have "length (drop 64 data) - length (drop 64 data) mod 64 + 64
        = length data - length data mod 64"
      using mod_less_eq_dividend [of "length data - 64" 64] by (simp add: le_mod_geq)
    then show ?thesis
      using "1.IH" True by (simp add: sha256_blocks.simps [of h data])
  next
    case False
    then show ?thesis by (simp add: sha256_blocks.simps [of h data])
  qed
qed

lemma sha256_blocks_rest_length: "length (snd (sha256_blocks h data)) = length data mod 64"
  by (simp add: sha256_blocks_rest)

lemma sha256_padded: "sha256 m = padded_sha256 m"
proof -
  obtain h rest where b: "sha256_blocks sha256_init m = (h, rest)"
    by (cases "sha256_blocks sha256_init m")
  have len: "length rest = length m mod 64"
    using sha256_blocks_rest_length [of sha256_init m] b by simp
  define t where "t = [0x80 :: byte] @ replicate (fips_zeros (length m)) 0 @ len_be64 (length m)"
  have fold: "foldl sha256_block sha256_init (chunks 64 (fips_pad m))
      = foldl sha256_block h (chunks 64 (rest @ t))"
    using sha256_blocks_fold [of sha256_init m t] b by (simp add: fips_pad_def t_def)
  show ?thesis
  proof (cases "length rest < 56")
    case True
    then have z: "fips_zeros (length m) = 64 - length rest - 9"
      unfolding len [symmetric] fips_zeros_def by (simp add: le_mod_geq)
    then have "length (rest @ t) = 64"
      using True by (simp add: t_def)
    then have "chunks 64 (rest @ t) = [rest @ t]"
      by (simp add: chunks_exact)
    then show ?thesis
      using b fold z True by (simp add: sha256_def padded_sha256_def t_def Let_def)
  next
    case False
    moreover have lt: "length rest < 64" using len by simp
    ultimately have z: "fips_zeros (length m) = 128 - length rest - 9"
      unfolding len [symmetric] fips_zeros_def by simp
    then have l: "length (rest @ t) = 128"
      using lt by (simp add: t_def)
    then have "chunks 64 (rest @ t) = [take 64 (rest @ t), drop 64 (rest @ t)]"
      by (simp add: chunks_step chunks_exact del: append_take_drop_id take_append drop_append)
    then show ?thesis
      using b fold z False by (simp add: sha256_def padded_sha256_def t_def Let_def
          del: take_append drop_append)
  qed
qed

section \<open>The compression function of the standard\<close>

text \<open>FIPS 180-4, sections 4.1.2, 5.2.1 and 6.2.2, with its names: the functions over words with
  the rotation of the word library, the message words as numbers read from four bytes, the schedule
  as a recurrence, and the working variables as a tuple.\<close>

definition Ch :: "word32 \<Rightarrow> word32 \<Rightarrow> word32 \<Rightarrow> word32" where
  "Ch x y z = (x AND y) XOR (NOT x AND z)"

definition Maj :: "word32 \<Rightarrow> word32 \<Rightarrow> word32 \<Rightarrow> word32" where
  "Maj x y z = (x AND y) XOR (x AND z) XOR (y AND z)"

definition big_sigma :: "nat \<Rightarrow> nat \<Rightarrow> nat \<Rightarrow> word32 \<Rightarrow> word32" where
  "big_sigma i j k x = word_rotr i x XOR word_rotr j x XOR word_rotr k x"

definition small_sigma :: "nat \<Rightarrow> nat \<Rightarrow> nat \<Rightarrow> word32 \<Rightarrow> word32" where
  "small_sigma i j k x = word_rotr i x XOR word_rotr j x XOR drop_bit k x"

definition fips_M :: "bytes \<Rightarrow> nat \<Rightarrow> word32" where
  "fips_M p t = word_of_nat (2 ^ 24 * unat (p ! (4 * t)) + 2 ^ 16 * unat (p ! (4 * t + 1)) +
     2 ^ 8 * unat (p ! (4 * t + 2)) + unat (p ! (4 * t + 3)))"

fun fips_W :: "bytes \<Rightarrow> nat \<Rightarrow> word32" where
  "fips_W p t = (if t < 16 then fips_M p t
     else small_sigma 17 19 10 (fips_W p (t - 2)) + fips_W p (t - 7) +
          small_sigma 7 18 3 (fips_W p (t - 15)) + fips_W p (t - 16))"

declare fips_W.simps [simp del]

type_synonym vars = "word32 \<times> word32 \<times> word32 \<times> word32 \<times> word32 \<times> word32 \<times> word32 \<times> word32"

fun fips_step :: "word32 \<Rightarrow> word32 \<Rightarrow> vars \<Rightarrow> vars" where
  "fips_step K W (a, b, c, d, e, f, g, h) =
    (let T1 = h + big_sigma 6 11 25 e + Ch e f g + K + W; T2 = big_sigma 2 13 22 a + Maj a b c
     in (T1 + T2, a, b, c, d + T1, e, f, g))"

primrec fips_steps :: "bytes \<Rightarrow> vars \<Rightarrow> nat \<Rightarrow> vars" where
  "fips_steps p v 0 = v"
| "fips_steps p v (Suc t) = fips_step (sha256_K ! t) (fips_W p t) (fips_steps p v t)"

fun fips_compress :: "vars \<Rightarrow> bytes \<Rightarrow> vars" where
  "fips_compress (h0, h1, h2, h3, h4, h5, h6, h7) p =
    (let (a, b, c, d, e, f, g, h) = fips_steps p (h0, h1, h2, h3, h4, h5, h6, h7) 64
     in (h0 + a, h1 + b, h2 + c, h3 + d, h4 + e, h5 + f, h6 + g, h7 + h))"

fun var_list :: "vars \<Rightarrow> word32 list" where
  "var_list (a, b, c, d, e, f, g, h) = [a, b, c, d, e, f, g, h]"

lemma ror32_rotr:
  assumes "0 < n" and "n < 32"
  shows "ror32 x n = word_rotr n x"
proof (rule bit_word_eqI)
  fix k
  assume "k < LENGTH(32)"
  then have k: "k < 32" by simp
  have high: "\<not> bit x (n + k)" if "32 \<le> n + k" using that bit_imp_le_length [of x "n + k"] by auto
  show "bit (ror32 x n) k = bit (word_rotr n x) k"
  proof (cases "k + n < 32")
    case True
    moreover from True have "\<not> 32 - n \<le> k" by linarith
    ultimately show ?thesis
      using k by (simp add: ror32_def bit_or_iff bit_drop_bit_eq bit_push_bit_iff bit_word_rotr_iff add.commute)
  next
    case False
    then have "(k + n) mod 32 = k - (32 - n)" "32 - n \<le> k" using k assms by (simp_all add: le_mod_geq)
    then show ?thesis
      using False k assms high
      by (simp add: ror32_def bit_or_iff bit_drop_bit_eq bit_push_bit_iff bit_word_rotr_iff add.commute)
  qed
qed

lemma or_add: "(\<And>n. bit a n \<Longrightarrow> \<not> bit b n) \<Longrightarrow> a OR b = a + b" for a b :: word32
  by (subst disjunctive_add) auto

lemma push_ucast_bit: "bit (push_bit m (ucast (b :: byte) :: word32)) n \<Longrightarrow> m \<le> n \<and> n < m + 8"
  by (auto simp: bit_push_bit_iff bit_ucast_iff dest: bit_imp_le_length)

lemma be32_number:
  "be32 a b c d = word_of_nat (2 ^ 24 * unat a + 2 ^ 16 * unat b + 2 ^ 8 * unat c + unat d)"
proof -
  have d: "bit (ucast d :: word32) k \<Longrightarrow> k < 8" for k
    using push_ucast_bit [of 0 d k] by simp
  let ?c = "push_bit 8 (ucast c) OR ucast d :: word32"
  have 1: "?c = push_bit 8 (ucast c) + ucast d"
    by (rule or_add) (fastforce dest: push_ucast_bit d)
  have 2: "push_bit 16 (ucast b) OR ?c = push_bit 16 (ucast b) + ?c"
    by (rule or_add) (fastforce simp: bit_or_iff dest: push_ucast_bit d)
  have 3: "push_bit 24 (ucast a) OR push_bit 16 (ucast b) OR ?c = push_bit 24 (ucast a) + (push_bit 16 (ucast b) OR ?c)"
    by (rule or_add) (fastforce simp: bit_or_iff dest: push_ucast_bit d)
  show ?thesis
    unfolding be32_def 3 unfolding 2 unfolding 1 by (simp add: push_bit_eq_mult)
qed

lemma words_be_nth: "length p = 4 * n \<Longrightarrow> words_be p = map (fips_M p) [0..<n]"
proof (induction p arbitrary: n rule: words_be.induct)
  case (1 b0 b1 b2 b3 bs)
  then obtain m where m: "n = Suc m" "length bs = 4 * m" by (cases n) auto
  have "fips_M (b0 # b1 # b2 # b3 # bs) (Suc i) = fips_M bs i" for i
    by (simp add: fips_M_def add.commute)
  moreover have "fips_M (b0 # b1 # b2 # b3 # bs) 0 = be32 b0 b1 b2 b3"
    by (simp add: fips_M_def be32_number)
  ultimately show ?case
    using "1.IH" [OF m(2)] by (simp add: m(1) map_upt_Suc del: upt_Suc)
qed auto

lemma schedule_W:
  assumes "16 \<le> m"
  shows "schedule_word (map (fips_W p) [0..<m]) = fips_W p m"
  using assms by (subst fips_W.simps) (simp add: schedule_word_def small_sigma_def ror32_rotr Let_def ac_simps)

lemma expand_W: "16 \<le> m \<Longrightarrow> expand_schedule n (map (fips_W p) [0..<m]) = map (fips_W p) [0..<m + n]"
proof (induction n arbitrary: m)
  case (Suc n)
  then show ?case using Suc.IH [of "Suc m"] schedule_W [of m p] by simp
qed simp

lemma round_step: "sha256_round (var_list v) (K, W) = var_list (fips_step K W v)"
  by (cases v rule: var_list.cases) (simp add: big_sigma_def Ch_def Maj_def ror32_rotr Let_def)

lemma rounds_steps: "foldl sha256_round (var_list v) (map (\<lambda>t. (sha256_K ! t, fips_W p t)) [0..<n]) = var_list (fips_steps p v n)"
  by (induction n) (simp_all add: round_step)

lemma block_compress:
  assumes "length p = 64"
  shows "sha256_block (var_list v) p = var_list (fips_compress v p)"
proof -
  have "words_be p = map (fips_W p) [0..<16]"
    using words_be_nth [of p 16] assms by (simp add: fips_W.simps)
  then have w: "expand_schedule 48 (words_be p) = map (fips_W p) [0..<64]"
    using expand_W [of 16 48 p] by simp
  have k: "length sha256_K = 64" by (simp add: sha256_K_def)
  have "zip sha256_K (map (fips_W p) [0..<64]) = map (\<lambda>t. (sha256_K ! t, fips_W p t)) [0..<64]"
    by (rule nth_equalityI) (simp_all add: k)
  then show ?thesis
    using rounds_steps [of v p 64] by (cases v rule: var_list.cases) (simp add: sha256_block_def w Let_def split: prod.splits)
qed

section \<open>The standard\<close>

definition fips_length :: "nat \<Rightarrow> bytes" where
  "fips_length n = map (\<lambda>i. word_of_nat (8 * n div 2 ^ (8 * (7 - i)))) [0..<8]"

definition fips_message :: "bytes \<Rightarrow> bytes" where
  "fips_message m = m @ [0x80] @ replicate (fips_zeros (length m)) 0 @ fips_length (length m)"

definition fips_digest :: "word32 list \<Rightarrow> bytes" where
  "fips_digest hs = concat (map (\<lambda>x. map (\<lambda>i. word_of_nat (unat x div 2 ^ (8 * (3 - i)))) [0..<4]) hs)"

definition fips_sha256 :: "bytes \<Rightarrow> bytes" where
  "fips_sha256 m =
    fips_digest (var_list (foldl fips_compress
      (0x6a09e667, 0xbb67ae85, 0x3c6ef372, 0xa54ff53a, 0x510e527f, 0x9b05688c, 0x1f83d9ab, 0x5be0cd19)
      (chunks 64 (fips_message m))))"

lemma of_nat_byte: "ucast (drop_bit k w) = (word_of_nat (unat w div 2 ^ k) :: byte)" for w :: "'a::len word"
proof (rule bit_word_eqI)
  fix j
  assume "j < LENGTH(8)"
  moreover have "bit (unat w) (k + j) = bit w (k + j)"
    using bit_imp_le_length [of w "k + j"] by (auto simp: bit_unsigned_iff)
  ultimately show "bit (ucast (drop_bit k w) :: byte) j = bit (word_of_nat (unat w div 2 ^ k) :: byte) j"
    by (simp add: bit_ucast_iff bit_drop_bit_eq bit_of_nat_iff flip: drop_bit_eq_div)
qed

lemma len_be64_fips: "len_be64 n = fips_length n"
proof -
  have "ucast (drop_bit k (of_nat n * 8 :: 64 word)) = (word_of_nat (8 * n div 2 ^ k) :: byte)" if "k + 8 \<le> 64" for k
  proof (rule bit_word_eqI)
    fix j
    assume "j < LENGTH(8)"
    then have "k + j < 64" using that by simp
    moreover have "of_nat n * 8 = (of_nat (8 * n) :: 64 word)" by simp
    ultimately show "bit (ucast (drop_bit k (of_nat n * 8 :: 64 word)) :: byte) j = bit (word_of_nat (8 * n div 2 ^ k) :: byte) j"
      using \<open>j < LENGTH(8)\<close>
      by (simp add: bit_ucast_iff bit_drop_bit_eq bit_of_nat_iff flip: drop_bit_eq_div del: of_nat_mult)
  qed
  then show ?thesis by (simp add: len_be64_def fips_length_def Let_def)
qed

lemma digest_fips: "concat (map word_bytes_be hs) = fips_digest hs"
proof -
  have "word_bytes_be x = map (\<lambda>i. word_of_nat (unat x div 2 ^ (8 * (3 - i)))) [0..<4]" for x
    using of_nat_byte [of 0 x] by (simp add: word_bytes_be_def of_nat_byte upt_rec)
  then have "word_bytes_be = (\<lambda>x. map (\<lambda>i. word_of_nat (unat x div 2 ^ (8 * (3 - i)))) [0..<4])" by (rule ext)
  then show ?thesis by (simp only: fips_digest_def)
qed

lemma fold_compress:
  "\<forall>p \<in> set ps. length p = 64 \<Longrightarrow>
   foldl sha256_block (var_list v) ps = var_list (foldl fips_compress v ps)"
  by (induction ps arbitrary: v) (simp_all add: block_compress)

text \<open>The code computes the hash of the standard on every input.\<close>

lemma sha256_is_fips: "sha256 m = fips_sha256 m"
proof -
  define v :: vars where "v = (0x6a09e667, 0xbb67ae85, 0x3c6ef372, 0xa54ff53a, 0x510e527f, 0x9b05688c, 0x1f83d9ab, 0x5be0cd19)"
  have m: "fips_message m = fips_pad m" by (simp add: fips_message_def fips_pad_def len_be64_fips)
  have "\<forall>p \<in> set (chunks 64 (fips_pad m)). length p = 64"
    using fips_pad_length [of m] by (auto simp: chunks_lengths)
  note fold = fold_compress [OF this, of v]
  have init: "sha256_init = var_list v" by (simp add: sha256_init_def v_def)
  show ?thesis
    unfolding fips_sha256_def m v_def [symmetric] sha256_padded padded_sha256_def digest_fips init fold ..
qed

section \<open>The digest has 32 bytes\<close>

lemma sha256_round_length: "length s = 8 \<Longrightarrow> length (sha256_round s kw) = 8"
  by (cases "(s, kw)" rule: sha256_round.cases) (simp_all add: Let_def)

lemma sha256_rounds_length: "length s = 8 \<Longrightarrow> length (foldl sha256_round s kws) = 8"
  by (induction kws arbitrary: s) (simp_all add: sha256_round_length)

lemma sha256_block_length [simp]: "length h = 8 \<Longrightarrow> length (sha256_block h p) = 8"
  by (simp add: sha256_block_def Let_def sha256_rounds_length)

lemma sha256_blocks_length: "length h = 8 \<Longrightarrow> length (fst (sha256_blocks h data)) = 8"
  by (induction h data rule: sha256_blocks.induct)
     (subst sha256_blocks.simps, simp)

lemma sha256_init_length [simp]: "length sha256_init = 8"
  by (simp add: sha256_init_def)

lemma digest_length: "length h = 8 \<Longrightarrow> length (concat (map word_bytes_be h)) = 32"
  using length_concat_map_const [of h word_bytes_be 4] by (simp add: word_bytes_be_def)

lemma sha256_length [simp, len_simps]: "length (sha256 data) = 32"
proof -
  obtain h rest where b: "sha256_blocks sha256_init data = (h, rest)"
    by (cases "sha256_blocks sha256_init data")
  then have "length h = 8"
    using sha256_blocks_length [of sha256_init data] by simp
  then show ?thesis
    using b by (simp add: sha256_def Let_def digest_length)
qed

lemma sha256_neq_Nil [simp]: "sha256 data \<noteq> []"
  by (metis length_0_conv sha256_length zero_neq_numeral)

end
