(* ===== verification/Hmac.thy ===== *)
theory Hmac
  imports Sha256
begin

text \<open>
  cmd/hmac.c: HMAC-SHA256 and HKDF-SHA256, with the two \<open>abort\<close>s of the file and its buffers.
  The second half states RFC 2104 over any hash and RFC 5869 over any MAC; the interface
  \<open>hash32\<close> is all they need of the hash, and the code's SHA-256 provides it. The code computes
  what the RFCs say, in blocks as the caller asks for them.
\<close>

section \<open>The code\<close>

definition HMAC_MAXMSG :: nat where
  "HMAC_MAXMSG = 8192"

definition BLOCK :: nat where
  "BLOCK = 64"

definition HASH :: nat where
  "HASH = 32"

definition hmac_key_block :: "bytes \<Rightarrow> bytes" where
  "hmac_key_block key =
    (let k = (if length key > BLOCK then sha256 key else key)
     in k @ replicate (BLOCK - length k) 0)"

definition hmac_sha256 :: "bytes \<Rightarrow> bytes \<Rightarrow> bytes prog" where
  "hmac_sha256 key data =
    (if length data > HMAC_MAXMSG then abort
     else let k = hmac_key_block key;
              digest = sha256 (map (\<lambda>b. b XOR 0x36) k @ data)
          in ret (sha256 (map (\<lambda>b. b XOR 0x5c) k @ digest)))"

text \<open>The loop of \<open>hkdf_sha256\<close>. Its variables are \<open>block\<close> (the first \<open>blocklen\<close> bytes of it),
  \<open>counter\<close>, \<open>produced\<close> and the output so far.\<close>

function hkdf_loop :: "bytes \<Rightarrow> bytes \<Rightarrow> nat \<Rightarrow> bytes \<Rightarrow> nat \<Rightarrow> nat \<Rightarrow> bytes \<Rightarrow> bytes prog" where
  "hkdf_loop prk context_info outlen blk counter produced out =
    (if produced < outlen then
       andthen (store (HASH + HMAC_MAXMSG) blk context_info) (\<lambda>inp1.
       andthen (store (HASH + HMAC_MAXMSG) inp1 [of_nat ((counter + 1) mod 256)]) (\<lambda>inp.
       andthen (hmac_sha256 prk inp) (\<lambda>blk'.
         let n = (if outlen - produced < HASH then outlen - produced else HASH)
         in hkdf_loop prk context_info outlen blk' (counter + 1) (produced + n) (out @ take n blk'))))
     else ret out)"
  by pat_completeness auto
termination
  by (relation "measure (\<lambda>(prk, context_info, outlen, blk, counter, produced, out). outlen - produced)")
     (auto simp: HASH_def)

declare hkdf_loop.simps [simp del]

definition hkdf_sha256 :: "bytes \<Rightarrow> bytes \<Rightarrow> bytes \<Rightarrow> nat \<Rightarrow> bytes prog" where
  "hkdf_sha256 ikm salt context_info outlen =
    (if outlen = 0 \<or> ikm = [] then abort
     else let salt' = (if salt = [] then replicate HASH 0 else salt)
          in andthen (hmac_sha256 salt' ikm) (\<lambda>prk.
               hkdf_loop prk context_info outlen [] 0 0 []))"

section \<open>The standards\<close>

text \<open>RFC 2104, for a hash of 32 bytes with blocks of 64.\<close>

definition rfc_hmac :: "(bytes \<Rightarrow> bytes) \<Rightarrow> bytes \<Rightarrow> bytes \<Rightarrow> bytes" where
  "rfc_hmac H key text =
    (let k0 = (if length key > 64 then H key else key);
         k = k0 @ replicate (64 - length k0) 0
     in H (map (\<lambda>b. b XOR 0x5c) k @ H (map (\<lambda>b. b XOR 0x36) k @ text)))"

text \<open>RFC 5869: extract, then the blocks \<open>T(1), T(2), \<dots>\<close> of the expansion. \<open>T(0)\<close> is empty.\<close>

primrec rfc_T :: "(bytes \<Rightarrow> bytes \<Rightarrow> bytes) \<Rightarrow> bytes \<Rightarrow> bytes \<Rightarrow> nat \<Rightarrow> bytes" where
  "rfc_T mac prk info 0 = []"
| "rfc_T mac prk info (Suc i) = mac prk (rfc_T mac prk info i @ info @ [of_nat (Suc i)])"

definition rfc_okm :: "(bytes \<Rightarrow> bytes \<Rightarrow> bytes) \<Rightarrow> bytes \<Rightarrow> bytes \<Rightarrow> nat \<Rightarrow> bytes" where
  "rfc_okm mac prk info n = concat (map (rfc_T mac prk info) [1..<Suc n])"

definition rfc_hkdf :: "(bytes \<Rightarrow> bytes \<Rightarrow> bytes) \<Rightarrow> bytes \<Rightarrow> bytes \<Rightarrow> bytes \<Rightarrow> nat \<Rightarrow> bytes" where
  "rfc_hkdf mac ikm salt info L =
    (let prk = mac (if salt = [] then replicate 32 0 else salt) ikm
     in take L (rfc_okm mac prk info ((L + 31) div 32)))"

section \<open>What they need of the hash\<close>

locale mac32 =
  fixes mac :: "bytes \<Rightarrow> bytes \<Rightarrow> bytes"
  assumes mac_length: "length (mac k d) = 32"
begin

lemma T_length: "length (rfc_T mac prk info (Suc i)) = 32"
  by (simp add: mac_length)

lemma okm_length: "length (rfc_okm mac prk info n) = 32 * n"
  by (induction n) (simp_all add: rfc_okm_def mac_length)

lemma okm_Suc: "rfc_okm mac prk info (Suc n) = rfc_okm mac prk info n @ rfc_T mac prk info (Suc n)"
  by (simp add: rfc_okm_def)

lemma okm_prefix: "take (32 * m) (rfc_okm mac prk info (m + k)) = rfc_okm mac prk info m"
proof (induction k)
  case 0
  then show ?case by (simp add: okm_length)
next
  case (Suc k)
  then show ?case by (simp add: okm_Suc okm_length del: rfc_T.simps)
qed

lemma hkdf_length: "length (rfc_hkdf mac ikm salt info L) = L"
proof -
  have "L \<le> 32 * ((L + 31) div 32)" by arith
  then show ?thesis by (simp add: rfc_hkdf_def Let_def okm_length)
qed

lemma hkdf_prefix:
  assumes "L \<le> L'"
  shows "take L (rfc_hkdf mac ikm salt info L') = rfc_hkdf mac ikm salt info L"
proof -
  define prk where "prk = mac (if salt = [] then replicate 32 0 else salt) ikm"
  define m where "m = (L + 31) div 32"
  have "m \<le> (L' + 31) div 32"
    unfolding m_def using assms by (intro div_le_mono) simp
  then obtain k where k: "(L' + 31) div 32 = m + k"
    using le_Suc_ex by blast
  have "L \<le> 32 * m" unfolding m_def by arith
  then have "take L (take (32 * m) (rfc_okm mac prk info (m + k))) = take L (rfc_okm mac prk info (m + k))"
    by (rule take_take_min)
  then have "take L (rfc_okm mac prk info (m + k)) = take L (rfc_okm mac prk info m)"
    by (simp add: okm_prefix)
  then show ?thesis
    using assms by (simp add: rfc_hkdf_def Let_def k flip: prk_def m_def)
qed

end

locale hash32 =
  fixes H :: "bytes \<Rightarrow> bytes"
  assumes H_length: "length (H d) = 32"
begin

lemma hmac_length: "length (rfc_hmac H k d) = 32"
  by (simp add: rfc_hmac_def Let_def H_length)

end

sublocale hash32 \<subseteq> hmac: mac32 "rfc_hmac H"
  by unfold_locales (rule hmac_length)

interpretation sha: hash32 sha256
  by unfold_locales simp

section \<open>The code computes the standards\<close>

lemma hmac_sha256_eq:
  "hmac_sha256 key data =
     (if length data > HMAC_MAXMSG then abort else ret (rfc_hmac sha256 key data))"
  by (simp add: hmac_sha256_def hmac_key_block_def rfc_hmac_def Let_def BLOCK_def)

lemma hmac_sha256_ret [simp]:
  "length data \<le> HMAC_MAXMSG \<Longrightarrow> hmac_sha256 key data = ret (rfc_hmac sha256 key data)"
  by (simp add: hmac_sha256_eq)

abbreviation T_sha256 :: "bytes \<Rightarrow> bytes \<Rightarrow> nat \<Rightarrow> bytes" where
  "T_sha256 \<equiv> rfc_T (rfc_hmac sha256)"

abbreviation okm_sha256 :: "bytes \<Rightarrow> bytes \<Rightarrow> nat \<Rightarrow> bytes" where
  "okm_sha256 \<equiv> rfc_okm (rfc_hmac sha256)"

lemma of_nat_mod_256: "(of_nat (n mod 256) :: byte) = of_nat n"
  by (simp add: word_unat_eq_iff unat_of_nat)

lemma hkdf_loop_step:
  assumes "produced < outlen" and "length info < HMAC_MAXMSG - HASH"
    and "blk = T_sha256 prk info i"
  shows "hkdf_loop prk info outlen blk i produced out =
    (let n = (if outlen - produced < 32 then outlen - produced else 32); blk' = T_sha256 prk info (Suc i)
     in hkdf_loop prk info outlen blk' (Suc i) (produced + n) (out @ take n blk'))"
proof -
  have "length blk \<le> 32"
    using assms(3) sha.hmac.T_length by (cases i) simp_all
  then show ?thesis
    using assms by (simp add: hkdf_loop.simps [of _ _ _ _ i] HASH_def HMAC_MAXMSG_def of_nat_mod_256
      [of "Suc i", simplified] Let_def)
qed

lemma hkdf_loop_stop: "outlen \<le> produced \<Longrightarrow> hkdf_loop prk info outlen blk i produced out = ret out"
  by (simp add: hkdf_loop.simps)

lemma hkdf_loop_okm:
  assumes "length info < HMAC_MAXMSG - HASH" and "32 * i \<le> L"
  shows "hkdf_loop prk info L (T_sha256 prk info i) i (32 * i) (okm_sha256 prk info i)
     = ret (take L (okm_sha256 prk info ((L + 31) div 32)))"
  using assms(2)
proof (induction "L - 32 * i" arbitrary: i rule: less_induct)
  case less
  consider "L = 32 * i" | "0 < L - 32 * i" "L - 32 * i \<le> 32" | "32 < L - 32 * i"
    using less.prems by linarith
  then show ?case
  proof cases
    case 1
    then have "(L + 31) div 32 = i" by simp
    then show ?thesis
      using 1 by (simp add: hkdf_loop_stop sha.hmac.okm_length)
  next
    case 2
    then have n: "(L + 31) div 32 = Suc i" by arith
    have "hkdf_loop prk info L (T_sha256 prk info i) i (32 * i) (okm_sha256 prk info i)
        = ret (okm_sha256 prk info i @ take (L - 32 * i) (T_sha256 prk info (Suc i)))"
      using 2 assms(1) by (simp add: hkdf_loop_step hkdf_loop_stop Let_def del: rfc_T.simps)
    then show ?thesis
      using 2 n by (simp add: sha.hmac.okm_Suc sha.hmac.okm_length del: rfc_T.simps)
  next
    case 3
    have "hkdf_loop prk info L (T_sha256 prk info i) i (32 * i) (okm_sha256 prk info i)
        = hkdf_loop prk info L (T_sha256 prk info (Suc i)) (Suc i) (32 * Suc i)
            (okm_sha256 prk info (Suc i))"
      using 3 assms(1) sha.hmac.T_length [of prk info i]
      by (simp add: hkdf_loop_step Let_def sha.hmac.okm_Suc add.commute del: rfc_T.simps)
    also have "\<dots> = ret (take L (okm_sha256 prk info ((L + 31) div 32)))"
      using 3 less.hyps [of "Suc i"] by (simp del: rfc_T.simps)
    finally show ?thesis .
  qed
qed

lemma hkdf_sha256_eq:
  assumes "0 < L" and "ikm \<noteq> []" and "length ikm \<le> HMAC_MAXMSG"
    and "length info < HMAC_MAXMSG - HASH"
  shows "hkdf_sha256 ikm salt info L = ret (rfc_hkdf (rfc_hmac sha256) ikm salt info L)"
proof -
  define prk where "prk = rfc_hmac sha256 (if salt = [] then replicate 32 0 else salt) ikm"
  have "hkdf_sha256 ikm salt info L = hkdf_loop prk info L [] 0 0 []"
    using assms by (simp add: hkdf_sha256_def prk_def Let_def HASH_def)
  also have "\<dots> = ret (take L (okm_sha256 prk info ((L + 31) div 32)))"
    using hkdf_loop_okm [of info 0 L prk] assms by (simp add: rfc_okm_def)
  finally show ?thesis
    by (simp add: rfc_hkdf_def Let_def prk_def)
qed

lemma hkdf_sha256_abort: "L = 0 \<or> ikm = [] \<Longrightarrow> hkdf_sha256 ikm salt info L = abort"
  by (simp add: hkdf_sha256_def)

text \<open>The key derivation of the callers, all of which pass no context.\<close>

definition hkdf :: "bytes \<Rightarrow> bytes \<Rightarrow> nat \<Rightarrow> bytes" where
  "hkdf ikm salt L = rfc_hkdf (rfc_hmac sha256) ikm salt [] L"

lemma hkdf_sha256_ret [simp, prog_simps]:
  "0 < L \<Longrightarrow> ikm \<noteq> [] \<Longrightarrow> length ikm \<le> HMAC_MAXMSG \<Longrightarrow>
     hkdf_sha256 ikm salt [] L = ret (hkdf ikm salt L)"
  by (simp add: hkdf_def hkdf_sha256_eq HMAC_MAXMSG_def HASH_def)

lemma length_hkdf [simp, len_simps]: "length (hkdf ikm salt L) = L"
  by (simp add: hkdf_def sha.hmac.hkdf_length)

lemma length_hmac [simp, len_simps]: "length (rfc_hmac sha256 k d) = 32"
  by (rule sha.hmac_length)

end
