(* ===== verification/Tweetnacl.thy ===== *)
theory Tweetnacl
  imports Prelude
begin

text \<open>
  cmd/tweetnacl.c, the part cmd/dump.c calls: SHA-512, the field modulo \<open>2^255 - 19\<close> in sixteen
  limbs of 16 bits, X25519 and Ed25519. The file's one-letter names carry a prefix here
  (\<open>gf_A\<close> for \<open>A\<close>, \<open>sha512_R\<close> for \<open>R\<close>). A \<open>gf\<close> is the list of its limbs; limbs are integers, so
  a right shift is division by a power of two, as the arithmetic shift of the file is. Loops that
  update an array in place fold over the indices in the order of the loop.

  The file's other half (Salsa20, Poly1305, secretbox, box), which cmd/dump.c does not call, is in
  Secretbox.
\<close>

type_synonym word64 = "64 word"
type_synonym gf = "int list"
type_synonym point = "gf \<times> gf \<times> gf \<times> gf"

section \<open>Comparison in constant time\<close>

definition vn :: "bytes \<Rightarrow> bytes \<Rightarrow> nat \<Rightarrow> int" where
  "vn x y n =
    (let d = foldl (\<lambda>d i. d OR (ucast (x ! i XOR y ! i) :: word64)) 0 [0..<n]
     in sint ((1 AND drop_bit 8 (d - 1)) - 1))"

definition crypto_verify_32 :: "bytes \<Rightarrow> bytes \<Rightarrow> int" where
  "crypto_verify_32 x y = vn x y 32"

section \<open>SHA-512\<close>

definition dl64 :: "bytes \<Rightarrow> word64" where
  "dl64 x = foldl (\<lambda>u i. push_bit 8 u OR ucast (x ! i)) 0 [0..<8]"

definition ts64 :: "word64 \<Rightarrow> bytes" where
  "ts64 u = map (\<lambda>i. ucast (drop_bit (8 * (7 - i)) u)) [0..<8]"

definition sha512_R :: "word64 \<Rightarrow> nat \<Rightarrow> word64" where
  "sha512_R x c = drop_bit c x OR push_bit (64 - c) x"

definition sha512_Ch :: "word64 \<Rightarrow> word64 \<Rightarrow> word64 \<Rightarrow> word64" where
  "sha512_Ch x y z = (x AND y) XOR (NOT x AND z)"

definition sha512_Maj :: "word64 \<Rightarrow> word64 \<Rightarrow> word64 \<Rightarrow> word64" where
  "sha512_Maj x y z = (x AND y) XOR (x AND z) XOR (y AND z)"

definition Sigma0 :: "word64 \<Rightarrow> word64" where
  "Sigma0 x = sha512_R x 28 XOR sha512_R x 34 XOR sha512_R x 39"

definition Sigma1 :: "word64 \<Rightarrow> word64" where
  "Sigma1 x = sha512_R x 14 XOR sha512_R x 18 XOR sha512_R x 41"

definition sigma0 :: "word64 \<Rightarrow> word64" where
  "sigma0 x = sha512_R x 1 XOR sha512_R x 8 XOR drop_bit 7 x"

definition sigma1 :: "word64 \<Rightarrow> word64" where
  "sigma1 x = sha512_R x 19 XOR sha512_R x 61 XOR drop_bit 6 x"

definition sha512_K :: "word64 list" where
  "sha512_K = concat
   [[0x428a2f98d728ae22, 0x7137449123ef65cd, 0xb5c0fbcfec4d3b2f, 0xe9b5dba58189dbbc],
    [0x3956c25bf348b538, 0x59f111f1b605d019, 0x923f82a4af194f9b, 0xab1c5ed5da6d8118],
    [0xd807aa98a3030242, 0x12835b0145706fbe, 0x243185be4ee4b28c, 0x550c7dc3d5ffb4e2],
    [0x72be5d74f27b896f, 0x80deb1fe3b1696b1, 0x9bdc06a725c71235, 0xc19bf174cf692694],
    [0xe49b69c19ef14ad2, 0xefbe4786384f25e3, 0x0fc19dc68b8cd5b5, 0x240ca1cc77ac9c65],
    [0x2de92c6f592b0275, 0x4a7484aa6ea6e483, 0x5cb0a9dcbd41fbd4, 0x76f988da831153b5],
    [0x983e5152ee66dfab, 0xa831c66d2db43210, 0xb00327c898fb213f, 0xbf597fc7beef0ee4],
    [0xc6e00bf33da88fc2, 0xd5a79147930aa725, 0x06ca6351e003826f, 0x142929670a0e6e70],
    [0x27b70a8546d22ffc, 0x2e1b21385c26c926, 0x4d2c6dfc5ac42aed, 0x53380d139d95b3df],
    [0x650a73548baf63de, 0x766a0abb3c77b2a8, 0x81c2c92e47edaee6, 0x92722c851482353b],
    [0xa2bfe8a14cf10364, 0xa81a664bbc423001, 0xc24b8b70d0f89791, 0xc76c51a30654be30],
    [0xd192e819d6ef5218, 0xd69906245565a910, 0xf40e35855771202a, 0x106aa07032bbd1b8],
    [0x19a4c116b8d2d0c8, 0x1e376c085141ab53, 0x2748774cdf8eeb99, 0x34b0bcb5e19b48a8],
    [0x391c0cb3c5c95a63, 0x4ed8aa4ae3418acb, 0x5b9cca4f7763e373, 0x682e6ff3d6b2b8a3],
    [0x748f82ee5defb2fc, 0x78a5636f43172f60, 0x84c87814a1f0ab72, 0x8cc702081a6439ec],
    [0x90befffa23631e28, 0xa4506cebde82bde9, 0xbef9a3f7b2c67915, 0xc67178f2e372532b],
    [0xca273eceea26619c, 0xd186b8c721c0c207, 0xeada7dd6cde0eb1e, 0xf57d4f7fee6ed178],
    [0x06f067aa72176fba, 0x0a637dc5a2c898a6, 0x113f9804bef90dae, 0x1b710b35131c471b],
    [0x28db77f523047d84, 0x32caab7b40c72493, 0x3c9ebe0a15c9bebc, 0x431d67c49c100d4c],
    [0x4cc5d4becb3e42b6, 0x597f299cfc657e2a, 0x5fcb6fab3ad6faec, 0x6c44198c4a475817]]"

definition sha512_iv :: "bytes" where
  "sha512_iv =
  [0x6a, 0x09, 0xe6, 0x67, 0xf3, 0xbc, 0xc9, 0x08,
   0xbb, 0x67, 0xae, 0x85, 0x84, 0xca, 0xa7, 0x3b,
   0x3c, 0x6e, 0xf3, 0x72, 0xfe, 0x94, 0xf8, 0x2b,
   0xa5, 0x4f, 0xf5, 0x3a, 0x5f, 0x1d, 0x36, 0xf1,
   0x51, 0x0e, 0x52, 0x7f, 0xad, 0xe6, 0x82, 0xd1,
   0x9b, 0x05, 0x68, 0x8c, 0x2b, 0x3e, 0x6c, 0x1f,
   0x1f, 0x83, 0xd9, 0xab, 0xfb, 0x41, 0xbd, 0x6b,
   0x5b, 0xe0, 0xcd, 0x19, 0x13, 0x7e, 0x21, 0x79]"

definition sha512_schedule :: "word64 list \<Rightarrow> nat \<Rightarrow> word64 list" where
  "sha512_schedule w j =
     w[j := w ! j + (w ! ((j + 9) mod 16) + sigma0 (w ! ((j + 1) mod 16)) + sigma1 (w ! ((j + 14) mod 16)))]"

definition sha512_round :: "word64 list \<times> word64 list \<Rightarrow> nat \<Rightarrow> word64 list \<times> word64 list" where
  "sha512_round s i = (case s of (a, w) \<Rightarrow>
    (let t = a ! 7 + Sigma1 (a ! 4) + sha512_Ch (a ! 4) (a ! 5) (a ! 6) + sha512_K ! i + w ! (i mod 16);
         b7 = t + Sigma0 (a ! 0) + sha512_Maj (a ! 0) (a ! 1) (a ! 2);
         b = (a[7 := b7])[3 := a ! 3 + t];
         a' = map (\<lambda>j. b ! ((j + 7) mod 8)) [0..<8];
         w' = (if i mod 16 = 15 then foldl sha512_schedule w [0..<16] else w)
     in (a', w')))"

definition sha512_block :: "word64 list \<Rightarrow> bytes \<Rightarrow> word64 list" where
  "sha512_block z m =
    (let w = map (\<lambda>i. dl64 (drop (8 * i) m)) [0..<16];
         a = fst (foldl sha512_round (z, w) [0..<80])
     in map2 (+) a z)"

text \<open>\<open>crypto_hashblocks\<close>: the hash state is read from and written back to \<open>x\<close> as bytes.\<close>

definition crypto_hashblocks :: "bytes \<Rightarrow> bytes \<Rightarrow> bytes" where
  "crypto_hashblocks x m =
    (let z = map (\<lambda>i. dl64 (drop (8 * i) x)) [0..<8];
         n = length m div 128;
         z' = foldl (\<lambda>z i. sha512_block z (drop (128 * i) m)) z [0..<n]
     in concat (map ts64 z'))"

definition crypto_hash :: "bytes \<Rightarrow> bytes" where
  "crypto_hash m =
    (let b = of_nat (length m) :: word64;
         h = crypto_hashblocks sha512_iv m;
         n = length m mod 128;
         x = drop (length m - n) m @ replicate (256 - n) 0;
         x = x[n := 128];
         n' = (if n < 112 then 128 else 256);
         x = x[n' - 9 := ucast (drop_bit 61 b)];
         x = take (n' - 8) x @ ts64 (push_bit 3 b)
     in crypto_hashblocks h x)"

section \<open>The field\<close>

definition gf0 :: gf where
  "gf0 = replicate 16 0"

definition gf1 :: gf where
  "gf1 = 1 # replicate 15 0"

definition gf_121665 :: gf where
  "gf_121665 = 0xDB41 # 1 # replicate 14 0"

definition gf_D :: gf where
  "gf_D =
  [0x78a3, 0x1359, 0x4dca, 0x75eb, 0xd8ab, 0x4141, 0x0a4d, 0x0070,
   0xe898, 0x7779, 0x4079, 0x8cc7, 0xfe73, 0x2b6f, 0x6cee, 0x5203]"

definition gf_D2 :: gf where
  "gf_D2 =
  [0xf159, 0x26b2, 0x9b94, 0xebd6, 0xb156, 0x8283, 0x149a, 0x00e0,
   0xd130, 0xeef3, 0x80f2, 0x198e, 0xfce7, 0x56df, 0xd9dc, 0x2406]"

definition gf_X :: gf where
  "gf_X =
  [0xd51a, 0x8f25, 0x2d60, 0xc956, 0xa7b2, 0x9525, 0xc760, 0x692c,
   0xdc5c, 0xfdd6, 0xe231, 0xc0a4, 0x53fe, 0xcd6e, 0x36d3, 0x2169]"

definition gf_Y :: gf where
  "gf_Y =
  [0x6658, 0x6666, 0x6666, 0x6666, 0x6666, 0x6666, 0x6666, 0x6666,
   0x6666, 0x6666, 0x6666, 0x6666, 0x6666, 0x6666, 0x6666, 0x6666]"

definition gf_I :: gf where
  "gf_I =
  [0xa0b0, 0x4a0e, 0x1b27, 0xc4ee, 0xe478, 0xad2f, 0x1806, 0x2f43,
   0xd7a7, 0x3dfb, 0x0099, 0x2b4d, 0xdf0b, 0x4fc1, 0x2480, 0x2b83]"

definition car_step :: "gf \<Rightarrow> nat \<Rightarrow> gf" where
  "car_step v i =
    (let v = v[i := v ! i + 65536];
         c = v ! i div 65536;
         k = (if i < 15 then i + 1 else 0);
         v = v[k := v ! k + (c - 1 + 37 * (c - 1) * (if i = 15 then 1 else 0))]
     in v[i := v ! i - c * 65536])"

definition car25519 :: "gf \<Rightarrow> gf" where
  "car25519 v = foldl car_step v [0..<16]"

definition sel25519 :: "gf \<Rightarrow> gf \<Rightarrow> int \<Rightarrow> gf \<times> gf" where
  "sel25519 p q b =
    (let c = NOT (b - 1); t = map2 (\<lambda>x y. c AND (x XOR y)) p q
     in (map2 (XOR) p t, map2 (XOR) q t))"

definition pack_sub_step :: "gf \<Rightarrow> gf \<Rightarrow> nat \<Rightarrow> gf" where
  "pack_sub_step t m i =
    (let m = m[i := t ! i - 0xffff - ((m ! (i - 1) div 65536) AND 1)]
     in m[i - 1 := m ! (i - 1) AND 0xffff])"

definition pack_reduce :: "gf \<Rightarrow> gf" where
  "pack_reduce t =
    (let m = (replicate 16 0)[0 := t ! 0 - 0xffed];
         m = foldl (pack_sub_step t) m [1..<15];
         m = m[15 := t ! 15 - 0x7fff - ((m ! 14 div 65536) AND 1)];
         b = (m ! 15 div 65536) AND 1;
         m = m[14 := m ! 14 AND 0xffff]
     in fst (sel25519 t m (1 - b)))"

definition pack25519 :: "gf \<Rightarrow> bytes" where
  "pack25519 n =
    (let t = pack_reduce (pack_reduce (car25519 (car25519 (car25519 n))))
     in concat (map (\<lambda>i. [word_of_int (t ! i AND 0xff), word_of_int (t ! i div 256)]) [0..<16]))"

definition neq25519 :: "gf \<Rightarrow> gf \<Rightarrow> int" where
  "neq25519 a b = crypto_verify_32 (pack25519 a) (pack25519 b)"

definition par25519 :: "gf \<Rightarrow> byte" where
  "par25519 a = pack25519 a ! 0 AND 1"

definition unpack25519 :: "bytes \<Rightarrow> gf" where
  "unpack25519 n =
    (let v = map (\<lambda>i. uint (n ! (2 * i)) + uint (n ! (2 * i + 1)) * 256) [0..<16]
     in v[15 := v ! 15 AND 0x7fff])"

definition gf_A :: "gf \<Rightarrow> gf \<Rightarrow> gf" where
  "gf_A a b = map2 (+) a b"

definition gf_Z :: "gf \<Rightarrow> gf \<Rightarrow> gf" where
  "gf_Z a b = map2 (-) a b"

definition gf_M :: "gf \<Rightarrow> gf \<Rightarrow> gf" where
  "gf_M a b =
    (let t = foldl (\<lambda>t (i, j). t[i + j := t ! (i + j) + a ! i * b ! j]) (replicate 31 0)
               (List.product [0..<16] [0..<16]);
         t = foldl (\<lambda>t i. t[i := t ! i + 38 * t ! (i + 16)]) t [0..<15]
     in car25519 (car25519 (take 16 t)))"

definition gf_S :: "gf \<Rightarrow> gf" where
  "gf_S a = gf_M a a"

definition inv25519 :: "gf \<Rightarrow> gf" where
  "inv25519 v =
    foldl (\<lambda>c a. let c = gf_S c in if a \<noteq> 2 \<and> a \<noteq> 4 then gf_M c v else c) v (rev [0..<254])"

definition pow2523 :: "gf \<Rightarrow> gf" where
  "pow2523 v =
    foldl (\<lambda>c a. let c = gf_S c in if a \<noteq> 1 then gf_M c v else c) v (rev [0..<251])"

section \<open>X25519\<close>

definition clamp_scalar :: "bytes \<Rightarrow> bytes" where
  "clamp_scalar n =
    (let z = (take 32 n)[31 := (n ! 31 AND 127) OR 64] in z[0 := z ! 0 AND 248])"

definition bit_of :: "bytes \<Rightarrow> nat \<Rightarrow> byte" where
  "bit_of z i = drop_bit (i mod 8) (z ! (i div 8)) AND 1"

definition ladder_step :: "gf \<Rightarrow> bytes \<Rightarrow> gf \<times> gf \<times> gf \<times> gf \<Rightarrow> nat \<Rightarrow> gf \<times> gf \<times> gf \<times> gf" where
  "ladder_step x z s i = (case s of (a, b, c, d) \<Rightarrow>
    (let r = uint (bit_of z i);
         (a, b) = sel25519 a b r;
         (c, d) = sel25519 c d r;
         e = gf_A a c;
         a = gf_Z a c;
         c = gf_A b d;
         b = gf_Z b d;
         d = gf_S e;
         f = gf_S a;
         a = gf_M c a;
         c = gf_M b e;
         e = gf_A a c;
         a = gf_Z a c;
         b = gf_S a;
         c = gf_Z d f;
         a = gf_M c gf_121665;
         a = gf_A a d;
         c = gf_M c a;
         a = gf_M d f;
         d = gf_M b x;
         b = gf_S e;
         (a, b) = sel25519 a b r;
         (c, d) = sel25519 c d r
     in (a, b, c, d)))"

definition crypto_scalarmult :: "bytes \<Rightarrow> bytes \<Rightarrow> bytes" where
  "crypto_scalarmult n p =
    (let z = clamp_scalar n;
         x = unpack25519 p;
         (a, b, c, d) = foldl (ladder_step x z) (gf1, x, gf0, gf1) (rev [0..<255])
     in pack25519 (gf_M a (inv25519 c)))"

definition crypto_scalarmult_base :: "bytes \<Rightarrow> bytes" where
  "crypto_scalarmult_base n = crypto_scalarmult n (9 # replicate 31 0)"

section \<open>Ed25519: the group\<close>

definition ed_add :: "point \<Rightarrow> point \<Rightarrow> point" where
  "ed_add p q = (case p of (p0, p1, p2, p3) \<Rightarrow> (case q of (q0, q1, q2, q3) \<Rightarrow>
    (let a = gf_M (gf_Z p1 p0) (gf_Z q1 q0);
         b = gf_M (gf_A p0 p1) (gf_A q0 q1);
         c = gf_M (gf_M p3 q3) gf_D2;
         d = gf_M p2 q2;
         d = gf_A d d;
         e = gf_Z b a;
         f = gf_Z d c;
         g = gf_A d c;
         h = gf_A b a
     in (gf_M e f, gf_M h g, gf_M g f, gf_M e h))))"

definition cswap :: "point \<Rightarrow> point \<Rightarrow> byte \<Rightarrow> point \<times> point" where
  "cswap p q b = (case p of (p0, p1, p2, p3) \<Rightarrow> (case q of (q0, q1, q2, q3) \<Rightarrow>
    (let (p0, q0) = sel25519 p0 q0 (uint b);
         (p1, q1) = sel25519 p1 q1 (uint b);
         (p2, q2) = sel25519 p2 q2 (uint b);
         (p3, q3) = sel25519 p3 q3 (uint b)
     in ((p0, p1, p2, p3), (q0, q1, q2, q3)))))"

definition ed_pack :: "point \<Rightarrow> bytes" where
  "ed_pack p = (case p of (p0, p1, p2, p3) \<Rightarrow>
    (let zi = inv25519 p2;
         tx = gf_M p0 zi;
         ty = gf_M p1 zi;
         r = pack25519 ty
     in r[31 := r ! 31 XOR push_bit 7 (par25519 tx)]))"

definition scalarmult_step :: "bytes \<Rightarrow> point \<times> point \<Rightarrow> nat \<Rightarrow> point \<times> point" where
  "scalarmult_step s pq i =
    (let b = bit_of s i;
         (p, q) = cswap (fst pq) (snd pq) b;
         q = ed_add q p;
         p = ed_add p p
     in cswap p q b)"

definition ed_scalarmult :: "point \<Rightarrow> bytes \<Rightarrow> point" where
  "ed_scalarmult q s = fst (foldl (scalarmult_step s) ((gf0, gf1, gf1, gf0), q) (rev [0..<256]))"

definition scalarbase :: "bytes \<Rightarrow> point" where
  "scalarbase s = ed_scalarmult (gf_X, gf_Y, gf1, gf_M gf_X gf_Y) s"

section \<open>Ed25519: scalars modulo the group order\<close>

definition order_L :: "int list" where
  "order_L =
  [0xed, 0xd3, 0xf5, 0x5c, 0x1a, 0x63, 0x12, 0x58, 0xd6, 0x9c, 0xf7, 0xa2, 0xde, 0xf9, 0xde, 0x14,
   0, 0, 0, 0, 0, 0, 0, 0, 0, 0, 0, 0, 0, 0, 0, 0x10]"

definition modL_inner :: "nat \<Rightarrow> int list \<times> int \<Rightarrow> nat \<Rightarrow> int list \<times> int" where
  "modL_inner i xc j = (case xc of (x, carry) \<Rightarrow>
    (let x = x[j := x ! j + (carry - 16 * x ! i * order_L ! (j - (i - 32)))];
         carry = (x ! j + 128) div 256
     in (x[j := x ! j - carry * 256], carry)))"

definition modL_outer :: "int list \<Rightarrow> nat \<Rightarrow> int list" where
  "modL_outer x i =
    (let (x, carry) = foldl (modL_inner i) (x, 0) [i - 32..<i - 12];
         x = x[i - 12 := x ! (i - 12) + carry]
     in x[i := 0])"

definition modL_last :: "int list \<times> int \<Rightarrow> nat \<Rightarrow> int list \<times> int" where
  "modL_last xc j = (case xc of (x, carry) \<Rightarrow>
    (let x = x[j := x ! j + (carry - (x ! 31 div 16) * order_L ! j)];
         carry = x ! j div 256
     in (x[j := x ! j AND 255], carry)))"

definition modL_out :: "int list \<times> bytes \<Rightarrow> nat \<Rightarrow> int list \<times> bytes" where
  "modL_out xr i = (case xr of (x, r) \<Rightarrow>
     (x[i + 1 := x ! (i + 1) + x ! i div 256], r @ [word_of_int (x ! i AND 255)]))"

definition modL :: "int list \<Rightarrow> bytes" where
  "modL x =
    (let x = foldl modL_outer x (rev [32..<64]);
         (x, carry) = foldl modL_last (x, 0) [0..<32];
         x = foldl (\<lambda>x j. x[j := x ! j - carry * order_L ! j]) x [0..<32]
     in snd (foldl modL_out (x, []) [0..<32]))"

definition ed_reduce :: "bytes \<Rightarrow> bytes" where
  "ed_reduce r = modL (map uint (take 64 r))"

section \<open>Ed25519: keys and signatures\<close>

definition ed_clamp :: "bytes \<Rightarrow> bytes" where
  "ed_clamp d =
    (let d = d[0 := d ! 0 AND 248]; d = d[31 := d ! 31 AND 127] in d[31 := d ! 31 OR 64])"

text \<open>\<open>crypto_sign_keypair\<close> with the seed that \<open>randombytes\<close> hands it: the public and the
  secret key.\<close>

definition crypto_sign_keypair :: "bytes \<Rightarrow> bytes \<times> bytes" where
  "crypto_sign_keypair seed =
    (let d = ed_clamp (crypto_hash seed);
         pk = ed_pack (scalarbase d)
     in (pk, seed @ pk))"

definition crypto_sign :: "bytes \<Rightarrow> bytes \<Rightarrow> bytes" where
  "crypto_sign m sk =
    (let d = ed_clamp (crypto_hash (take 32 sk));
         r = ed_reduce (crypto_hash (drop 32 d @ m));
         R = ed_pack (scalarbase r);
         h = ed_reduce (crypto_hash (R @ drop 32 sk @ m));
         x = map uint r @ replicate 32 0;
         x = foldl (\<lambda>x (i, j). x[i + j := x ! (i + j) + uint (h ! i) * uint (d ! j)]) x
               (List.product [0..<32] [0..<32])
     in R @ modL x @ m)"

definition unpackneg :: "bytes \<Rightarrow> point option" where
  "unpackneg p =
    (let r2 = gf1;
         r1 = unpack25519 p;
         num = gf_S r1;
         den = gf_M num gf_D;
         num = gf_Z num r2;
         den = gf_A r2 den;
         den2 = gf_S den;
         den4 = gf_S den2;
         den6 = gf_M den4 den2;
         t = gf_M den6 num;
         t = gf_M t den;
         t = pow2523 t;
         t = gf_M t num;
         t = gf_M t den;
         t = gf_M t den;
         r0 = gf_M t den;
         chk = gf_M (gf_S r0) den;
         r0 = (if neq25519 chk num \<noteq> 0 then gf_M r0 gf_I else r0);
         chk = gf_M (gf_S r0) den
     in if neq25519 chk num \<noteq> 0 then None
        else let r0 = (if par25519 r0 = drop_bit 7 (p ! 31) then gf_Z gf0 r0 else r0)
             in Some (r0, r1, r2, gf_M r0 r1))"

definition crypto_sign_open :: "bytes \<Rightarrow> bytes \<Rightarrow> int" where
  "crypto_sign_open sm pk =
    (if length sm < 64 then - 1
     else case unpackneg pk of
       None \<Rightarrow> - 1
     | Some q \<Rightarrow>
         (let h = ed_reduce (crypto_hash (take 32 sm @ take 32 pk @ drop 64 sm));
              p = ed_scalarmult q h;
              q = scalarbase (take 32 (drop 32 sm));
              t = ed_pack (ed_add p q)
          in if crypto_verify_32 sm t \<noteq> 0 then - 1 else 0))"

section \<open>Sizes\<close>

lemma pack25519_length [simp, len_simps]: "length (pack25519 n) = 32"
  using length_concat_map_const
    [of "[0..<16]" "\<lambda>i. [word_of_int (x ! i AND 0xff), word_of_int (x ! i div 256)] :: bytes" 2 for x]
  by (simp add: pack25519_def Let_def)

lemma crypto_scalarmult_length [simp, len_simps]: "length (crypto_scalarmult n p) = 32"
  by (simp add: crypto_scalarmult_def Let_def split: prod.splits)

lemma crypto_scalarmult_base_length [simp, len_simps]: "length (crypto_scalarmult_base n) = 32"
  by (simp add: crypto_scalarmult_base_def)

lemma ed_pack_length [simp, len_simps]: "length (ed_pack p) = 32"
  by (simp add: ed_pack_def Let_def split: prod.splits)

lemma crypto_sign_keypair_length [simp, len_simps]:
  "length (fst (crypto_sign_keypair seed)) = 32"
  "length (snd (crypto_sign_keypair seed)) = length seed + 32"
  by (simp_all add: crypto_sign_keypair_def Let_def)

lemma modL_out_length: "length (snd (foldl modL_out (x, r) is)) = length r + length is"
  by (induction "is" arbitrary: x r) (simp_all add: modL_out_def)

lemma modL_length [simp, len_simps]: "length (modL x) = 32"
  by (simp add: modL_def Let_def modL_out_length split: prod.splits)

lemma crypto_sign_length [simp, len_simps]: "length (crypto_sign m sk) = 64 + length m"
  by (simp add: crypto_sign_def Let_def)

end
