(* ===== verification/Keys.thy ===== *)
theory Keys
  imports Files Hmac Tweetnacl
begin

text \<open>
  The part of cmd/dump.c that wraps the cryptography (\<open>randombytes\<close>, \<open>ed25519_keypair\<close>,
  \<open>ed25519_sign\<close>, \<open>scalar_canonical\<close>, \<open>ed25519_verify\<close>, \<open>x25519_shared\<close>, \<open>truncated_hash\<close>) and
  the five kinds that need no packet: identity, keyset, destination, signature and sign. Each
  decoder is followed by the fields it prints on every input it accepts.
\<close>

section \<open>Sizes (the \<open>#define\<close>s)\<close>

abbreviation (input) ADDRLEN :: nat where "ADDRLEN \<equiv> 16"
abbreviation (input) KEYHALF :: nat where "KEYHALF \<equiv> 32"
abbreviation (input) KEYSIZE :: nat where "KEYSIZE \<equiv> 64"
abbreviation (input) NAMEHASHLEN :: nat where "NAMEHASHLEN \<equiv> 10"
abbreviation (input) RANDHASHLEN :: nat where "RANDHASHLEN \<equiv> 10"
abbreviation (input) SIGLEN :: nat where "SIGLEN \<equiv> 64"
abbreviation (input) RATCHETLEN :: nat where "RATCHETLEN \<equiv> 32"
abbreviation (input) HASHLEN :: nat where "HASHLEN \<equiv> 32"

definition yesno :: "bool \<Rightarrow> string" where
  "yesno b = (if b then ''yes'' else ''no'')"

section \<open>Wrappers of the curve code\<close>

text \<open>The static \<open>rb_seed\<close> and \<open>rb_armed\<close>, and \<open>randombytes\<close>, which serves the seed once.\<close>

record rb_state =
  rb_seed :: bytes
  rb_armed :: bool

definition randombytes :: "rb_state \<Rightarrow> nat \<Rightarrow> (bytes \<times> rb_state) prog" where
  "randombytes st n =
    (if \<not> rb_armed st \<or> n \<noteq> 32 then
       fatal ''randombytes called outside seeded key derivation''
     else ret (rb_seed st, st\<lparr>rb_armed := False\<rparr>))"

definition ed25519_keypair :: "bytes \<Rightarrow> (bytes \<times> bytes) prog" where
  "ed25519_keypair seed =
     andthen (randombytes \<lparr>rb_seed = seed, rb_armed = True\<rparr> 32) (\<lambda>(x, st).
       ret (crypto_sign_keypair x))"

definition ed25519_public :: "bytes \<Rightarrow> bytes prog" where
  "ed25519_public seed = andthen (ed25519_keypair seed) (\<lambda>(pk, sk). ret pk)"

definition ed25519_sign :: "bytes \<Rightarrow> bytes \<Rightarrow> bytes prog" where
  "ed25519_sign seed msg =
    (if length msg > MAXBLOB then
       fatal (''message of '' @ dec (length msg) @ '' bytes exceeds '' @ dec MAXBLOB)
     else andthen (ed25519_keypair seed) (\<lambda>(pk, sk). ret (take 64 (crypto_sign msg sk))))"

definition ed25519_L :: bytes where
  "ed25519_L =
  [0xed,0xd3,0xf5,0x5c,0x1a,0x63,0x12,0x58,
   0xd6,0x9c,0xf7,0xa2,0xde,0xf9,0xde,0x14,
   0x00,0x00,0x00,0x00,0x00,0x00,0x00,0x00,
   0x00,0x00,0x00,0x00,0x00,0x00,0x00,0x10]"

text \<open>The loop of \<open>scalar_canonical\<close>; the argument is the number of indices still to compare,
  the highest first.\<close>

primrec canonical_loop :: "nat \<Rightarrow> bytes \<Rightarrow> bool" where
  "canonical_loop 0 s = False"
| "canonical_loop (Suc i) s =
    (if s ! i < ed25519_L ! i then True
     else if s ! i > ed25519_L ! i then False
     else canonical_loop i s)"

definition scalar_canonical :: "bytes \<Rightarrow> bool" where
  "scalar_canonical s = canonical_loop 32 s"

definition ed25519_verify :: "bytes \<Rightarrow> bytes \<Rightarrow> bytes \<Rightarrow> bool prog" where
  "ed25519_verify pk sig msg =
    (if length msg > MAXBLOB then
       fatal (''message of '' @ dec (length msg) @ '' bytes exceeds '' @ dec MAXBLOB)
     else if \<not> scalar_canonical (drop 32 sig) then ret False
     else ret (crypto_sign_open (sig @ msg) pk = 0))"

text \<open>The shared secret, and whether it has a nonzero byte.\<close>

definition x25519_shared :: "bytes \<Rightarrow> bytes \<Rightarrow> bytes \<times> bool" where
  "x25519_shared scalar peer =
    (let out = crypto_scalarmult scalar peer in (out, foldl (OR) 0 out \<noteq> 0))"

definition truncated_hash :: "bytes \<Rightarrow> nat \<Rightarrow> bytes" where
  "truncated_hash d k = take k (sha256 d)"

section \<open>What the wrappers compute\<close>

lemma ed25519_keypair_ret [simp]: "ed25519_keypair seed = ret (crypto_sign_keypair seed)"
  by (simp add: ed25519_keypair_def randombytes_def)

definition ed_public :: "bytes \<Rightarrow> bytes" where
  "ed_public seed = fst (crypto_sign_keypair seed)"

definition ed_signature :: "bytes \<Rightarrow> bytes \<Rightarrow> bytes" where
  "ed_signature seed msg = take 64 (crypto_sign msg (snd (crypto_sign_keypair seed)))"

definition ed_valid :: "bytes \<Rightarrow> bytes \<Rightarrow> bytes \<Rightarrow> bool" where
  "ed_valid pk sig msg \<longleftrightarrow> scalar_canonical (drop 32 sig) \<and> crypto_sign_open (sig @ msg) pk = 0"

lemma ed25519_public_ret [simp, prog_simps]: "ed25519_public seed = ret (ed_public seed)"
  by (simp add: ed25519_public_def ed_public_def split: prod.splits)

lemma ed25519_sign_ret [simp, prog_simps]:
  "length msg \<le> MAXBLOB \<Longrightarrow> ed25519_sign seed msg = ret (ed_signature seed msg)"
  by (simp add: ed25519_sign_def ed_signature_def split: prod.splits)

lemma ed25519_verify_ret [simp, prog_simps]:
  "length msg \<le> MAXBLOB \<Longrightarrow> ed25519_verify pk sig msg = ret (ed_valid pk sig msg)"
  by (simp add: ed25519_verify_def ed_valid_def)

lemma ed_lengths [simp, len_simps]:
  "length (ed_public seed) = 32" "length (ed_signature seed msg) = 64"
  by (simp_all add: ed_public_def ed_signature_def)

lemma truncated_hash_length [simp, len_simps]: "k \<le> 32 \<Longrightarrow> length (truncated_hash d k) = k"
  by (simp add: truncated_hash_def)

lemma x25519_shared_length [simp]: "length (fst (x25519_shared scalar peer)) = 32"
  by (simp add: x25519_shared_def Let_def)

section \<open>identity and keyset\<close>

definition dump_identity :: "blob list \<Rightarrow> unit prog" where
  "dump_identity b =
    (if blen (b ! 0) \<noteq> KEYSIZE then
       fatal (''identity: public key is '' @ dec (blen (b ! 0)) @ '' bytes, expected '' @ dec KEYSIZE)
     else andthen (load (bdata (b ! 0)) KEYSIZE) (\<lambda>key.
       let hash = truncated_hash key ADDRLEN
       in seq
         [field_hex ''public_key'' (bdata (b ! 0)) KEYSIZE,
          field_hex ''x25519_public'' (bdata (b ! 0)) KEYHALF,
          field_hex ''ed25519_public'' (drop KEYHALF (bdata (b ! 0))) KEYHALF,
          field_hex ''identity_hash'' hash ADDRLEN]))"

definition dump_keyset :: "blob list \<Rightarrow> unit prog" where
  "dump_keyset b =
    (if blen (b ! 0) \<noteq> KEYSIZE then
       fatal (''keyset: private key is '' @ dec (blen (b ! 0)) @ '' bytes, expected '' @ dec KEYSIZE)
     else andthen (load (bdata (b ! 0)) KEYHALF) (\<lambda>x.
       andthen (load (drop KEYHALF (bdata (b ! 0))) KEYHALF) (\<lambda>seed.
       andthen (ed25519_public seed) (\<lambda>ed.
       let pub = crypto_scalarmult_base x @ ed;
           hash = truncated_hash pub ADDRLEN
       in seq
         [field_hex ''private_key'' (bdata (b ! 0)) KEYSIZE,
          field_hex ''x25519_private'' (bdata (b ! 0)) KEYHALF,
          field_hex ''ed25519_private'' (drop KEYHALF (bdata (b ! 0))) KEYHALF,
          field_hex ''public_key'' pub KEYSIZE,
          field_hex ''x25519_public'' pub KEYHALF,
          field_hex ''ed25519_public'' (drop KEYHALF pub) KEYHALF,
          field_hex ''identity_hash'' hash ADDRLEN]))))"

section \<open>destination\<close>

text \<open>The scan for dots: \<open>i\<close> runs from 0 to the length, and the end counts as a dot.\<close>

primrec name_loop :: "bytes \<Rightarrow> nat \<Rightarrow> nat \<Rightarrow> nat list \<Rightarrow> unit prog" where
  "name_loop d n start [] = ret ()"
| "name_loop d n start (i # is) =
    andthen (if i = n then ret True else andthen (load_byte d i) (\<lambda>c. ret (c = 0x2e))) (\<lambda>cut.
      if cut then
        andthen (field_hex (if start = 0 then ''app_name'' else ''aspect'') (drop start d) (i - start))
          (\<lambda>_. name_loop d n (i + 1) is)
      else name_loop d n start is)"

definition dump_destination :: "blob list \<Rightarrow> unit prog" where
  "dump_destination b =
    (if \<not> absent (b ! 1) \<and> blen (b ! 1) \<noteq> ADDRLEN then
       fatal (''destination: identity hash is '' @ dec (blen (b ! 1)) @ '' bytes, expected '' @ dec ADDRLEN)
     else andthen (load (bdata (b ! 0)) (blen (b ! 0))) (\<lambda>name.
       let name_hash = truncated_hash name NAMEHASHLEN
       in andthen (if absent (b ! 1) then ret name_hash
                   else append_from (NAMEHASHLEN + ADDRLEN) name_hash (bdata (b ! 1)) ADDRLEN) (\<lambda>material.
          let dest_hash = truncated_hash material ADDRLEN
          in seq
            [field_hex ''name'' (bdata (b ! 0)) (blen (b ! 0)),
             name_loop (bdata (b ! 0)) (blen (b ! 0)) 0 [0..<blen (b ! 0) + 1],
             field_hex ''name_hash'' name_hash NAMEHASHLEN,
             (if absent (b ! 1) then field ''identity_hash'' ''-''
              else field_hex ''identity_hash'' (bdata (b ! 1)) ADDRLEN),
             field_hex ''destination_hash'' dest_hash ADDRLEN])))"

section \<open>signature and sign\<close>

definition dump_signature :: "blob list \<Rightarrow> unit prog" where
  "dump_signature b =
    (if blen (b ! 0) \<noteq> KEYSIZE then
       fatal (''signature: public key is '' @ dec (blen (b ! 0)) @ '' bytes, expected '' @ dec KEYSIZE)
     else if blen (b ! 2) \<noteq> SIGLEN then
       fatal (''signature: signature is '' @ dec (blen (b ! 2)) @ '' bytes, expected '' @ dec SIGLEN)
     else
       andthen (load (drop KEYHALF (bdata (b ! 0))) KEYHALF) (\<lambda>ed_pub.
       andthen (load (bdata (b ! 1)) (blen (b ! 1))) (\<lambda>msg.
       andthen (load (bdata (b ! 2)) SIGLEN) (\<lambda>sig.
       andthen (seq
         [field_hex ''ed25519_public'' ed_pub KEYHALF,
          field ''message_length'' (dec (blen (b ! 1))),
          field_hex ''message_sha256'' (sha256 msg) 32,
          field_hex ''signature'' (bdata (b ! 2)) (blen (b ! 2))]) (\<lambda>_.
       andthen (ed25519_verify ed_pub sig msg) (\<lambda>ok.
         field ''valid'' (yesno ok)))))))"

definition dump_sign :: "blob list \<Rightarrow> unit prog" where
  "dump_sign b =
    (if blen (b ! 0) \<noteq> KEYSIZE then
       fatal (''sign: private key is '' @ dec (blen (b ! 0)) @ '' bytes, expected '' @ dec KEYSIZE)
     else
       andthen (load (drop KEYHALF (bdata (b ! 0))) KEYHALF) (\<lambda>seed.
       andthen (load (bdata (b ! 1)) (blen (b ! 1))) (\<lambda>msg.
       andthen (ed25519_public seed) (\<lambda>pub.
       andthen (ed25519_sign seed msg) (\<lambda>sig.
       seq
         [field_hex ''private_key'' (bdata (b ! 0)) KEYSIZE,
          field_hex ''ed25519_private'' (drop KEYHALF (bdata (b ! 0))) KEYHALF,
          field_hex ''ed25519_public'' pub KEYHALF,
          field ''message_length'' (dec (blen (b ! 1))),
          field_hex ''message_sha256'' (sha256 msg) 32,
          field_hex ''signature'' sig SIGLEN])))))"

section \<open>The fields of each kind\<close>

definition identity_fields :: "bytes \<Rightarrow> line list" where
  "identity_fields key =
    [Field ''public_key'' (hex_bytes key),
     Field ''x25519_public'' (hex_bytes (take 32 key)),
     Field ''ed25519_public'' (hex_bytes (drop 32 key)),
     Field ''identity_hash'' (hex_bytes (truncated_hash key 16))]"

lemma hex_value_nonempty: "bs \<noteq> [] \<Longrightarrow> hex_value bs = hex_bytes bs"
  by (simp add: hex_value_def)

lemma hex_value_length: "0 < length bs \<Longrightarrow> hex_value bs = hex_bytes bs"
  by (simp add: hex_value_def)

lemma dump_identity_fields:
  assumes "wf_blob (b ! 0)" and "blen (b ! 0) = 64"
  shows "dump_identity b = print (identity_fields (contents (b ! 0)))"
proof -
  from assms(1) obtain k z where "bdata (b ! 0) = k @ z" "blen (b ! 0) = length k" "contents (b ! 0) = k"
    by (rule wf_blobE)
  then show ?thesis
    using assms(2) by (simp add: dump_identity_def identity_fields_def Let_def hex_value_length)
qed

definition keyset_public :: "bytes \<Rightarrow> bytes" where
  "keyset_public priv = crypto_scalarmult_base (take 32 priv) @ ed_public (drop 32 priv)"

lemma keyset_public_length [simp, len_simps]: "length (keyset_public priv) = 64"
  by (simp add: keyset_public_def)

definition keyset_fields :: "bytes \<Rightarrow> line list" where
  "keyset_fields priv =
    [Field ''private_key'' (hex_bytes priv),
     Field ''x25519_private'' (hex_bytes (take 32 priv)),
     Field ''ed25519_private'' (hex_bytes (drop 32 priv))] @
     identity_fields (keyset_public priv)"

lemma dump_keyset_fields:
  assumes "wf_blob (b ! 0)" and "blen (b ! 0) = 64"
  shows "dump_keyset b = print (keyset_fields (contents (b ! 0)))"
proof -
  from assms(1) obtain k z where "bdata (b ! 0) = k @ z" "blen (b ! 0) = length k" "contents (b ! 0) = k"
    by (rule wf_blobE)
  then show ?thesis
    using assms(2)
    by (simp add: dump_keyset_def keyset_fields_def identity_fields_def keyset_public_def Let_def
        hex_value_length)
qed

section \<open>The components of a destination name\<close>

definition component_fields :: "string \<Rightarrow> bytes list \<Rightarrow> line list" where
  "component_fields first cs =
    (case cs of [] \<Rightarrow> [] | c # cs \<Rightarrow>
       Field first (hex_value c) # map (\<lambda>c. Field ''aspect'' (hex_value c)) cs)"

definition name_fields :: "bytes \<Rightarrow> line list" where
  "name_fields name = component_fields ''app_name'' (split_on 0x2e name)"

lemma name_loop_components:
  assumes "n \<le> length d" and "start \<le> i" and "i \<le> n"
  shows "name_loop d n start [i..<Suc n] =
    print (component_fields (if start = 0 then ''app_name'' else ''aspect'')
      (case split_on 0x2e (drop i (take n d)) of [] \<Rightarrow> []
       | c # cs \<Rightarrow> (take (i - start) (drop start d) @ c) # cs))"
  using assms(2,3)
proof (induction "n - i" arbitrary: i start)
  case 0
  then show ?case
    using assms(1) by (simp add: component_fields_def)
next
  case (Suc m)
  then have i: "i < n" by simp
  then have up: "[i..<Suc n] = i # [Suc i..<Suc n]" by (simp add: upt_rec)
  have dr: "drop i (take n d) = d ! i # drop (Suc i) (take n d)"
    using i assms(1) by (metis Cons_nth_drop_Suc length_take min.absorb2 nth_take)
  obtain c cs where sp: "split_on 0x2e (drop (Suc i) (take n d)) = c # cs"
    by (cases "split_on 0x2e (drop (Suc i) (take n d))") auto
  have m: "m = n - Suc i" using Suc.hyps(2) by simp
  show ?case
  proof (cases "d ! i = 0x2e")
    case True
    have "name_loop d n start [i..<Suc n] =
        andthen (print [Field (if start = 0 then ''app_name'' else ''aspect'')
            (hex_value (take (i - start) (drop start d)))])
          (\<lambda>_. name_loop d n (Suc i) [Suc i..<Suc n])"
      using i assms(1) Suc.prems True unfolding up by (simp del: upt_Suc)
    also have "name_loop d n (Suc i) [Suc i..<Suc n] = print (component_fields ''aspect'' (c # cs))"
      using Suc.hyps(1) [OF m, of "Suc i"] i sp by (simp del: upt_Suc)
    finally show ?thesis
      using True by (simp add: dr sp component_fields_def)
  next
    case False
    have "name_loop d n start [i..<Suc n] = name_loop d n start [Suc i..<Suc n]"
      using i assms(1) False unfolding up by (simp del: upt_Suc)
    moreover have "take (Suc i - start) (drop start d) = take (i - start) (drop start d) @ [d ! i]"
      using i assms(1) Suc.prems by (simp add: Suc_diff_le take_Suc_conv_app_nth)
    ultimately show ?thesis
      using Suc.hyps(1) [OF m, of start] Suc.prems i sp False by (simp add: dr del: upt_Suc)
  qed
qed

lemma name_loop_fields:
  "n \<le> length d \<Longrightarrow> name_loop d n 0 [0..<n + 1] = print (name_fields (take n d))"
  using name_loop_components [of n d 0 0]
  by (cases "split_on 0x2e (take n d)") (simp_all add: name_fields_def del: upt_Suc)

text \<open>The destination hash: of the name hash alone, or of the name hash and the identity.\<close>

definition dest_hash_of :: "bytes \<Rightarrow> bytes \<Rightarrow> bytes" where
  "dest_hash_of name identity = truncated_hash (truncated_hash name 10 @ identity) 16"

definition destination_fields :: "bytes \<Rightarrow> bytes \<Rightarrow> line list" where
  "destination_fields name identity =
    [Field ''name'' (hex_value name)] @ name_fields name @
    [Field ''name_hash'' (hex_bytes (truncated_hash name 10)),
     Field ''identity_hash'' (hex_value identity),
     Field ''destination_hash'' (hex_bytes (dest_hash_of name identity))]"

lemma dump_destination_fields:
  assumes "wf_blob (b ! 0)" and "wf_blob (b ! 1)" and "absent (b ! 1) \<or> blen (b ! 1) = 16"
  shows "dump_destination b = print (destination_fields (contents (b ! 0)) (contents (b ! 1)))"
proof -
  from assms(1) obtain k z where k: "bdata (b ! 0) = k @ z" "blen (b ! 0) = length k" "contents (b ! 0) = k"
    by (rule wf_blobE)
  from assms(2) obtain k' z' where k': "bdata (b ! 1) = k' @ z'" "blen (b ! 1) = length k'"
    "contents (b ! 1) = k'" and absent: "absent (b ! 1) \<longrightarrow> k' = []"
    by (rule wf_blobE)
  have loop: "name_loop (k @ z) (length k) 0 [0..<length k + 1] = print (name_fields k)"
    using name_loop_fields [of "length k" "k @ z"] by simp
  show ?thesis
  proof (cases "absent (b ! 1)")
    case True
    then have "k' = []" using absent by simp
    then show ?thesis
      using k k' True loop
      by (simp add: dump_destination_def destination_fields_def dest_hash_of_def field_def
          hex_value_length hex_value_def [of "[]"] Let_def del: upt_Suc)
  next
    case False
    then have "length k' = 16" using assms(3) k' by simp
    then show ?thesis
      using k k' False loop
      by (simp add: dump_destination_def destination_fields_def dest_hash_of_def field_def
          hex_value_length Let_def del: upt_Suc)
  qed
qed

section \<open>signature and sign\<close>

definition signature_fields :: "bytes \<Rightarrow> bytes \<Rightarrow> bytes \<Rightarrow> line list" where
  "signature_fields key msg sig =
    [Field ''ed25519_public'' (hex_bytes (drop 32 key)),
     Field ''message_length'' (dec (length msg)),
     Field ''message_sha256'' (hex_bytes (sha256 msg)),
     Field ''signature'' (hex_bytes sig),
     Field ''valid'' (yesno (ed_valid (drop 32 key) sig msg))]"

lemma dump_signature_fields:
  assumes "wf_blob (b ! 0)" "wf_blob (b ! 1)" "wf_blob (b ! 2)"
    and "blen (b ! 0) = 64" and "blen (b ! 2) = 64"
  shows "dump_signature b =
    print (signature_fields (contents (b ! 0)) (contents (b ! 1)) (contents (b ! 2)))"
proof -
  from assms(1) obtain k z where "bdata (b ! 0) = k @ z" "blen (b ! 0) = length k" "contents (b ! 0) = k"
    by (rule wf_blobE)
  moreover from assms(2) obtain m z1 where "bdata (b ! 1) = m @ z1" "blen (b ! 1) = length m"
    "contents (b ! 1) = m" "length m \<le> MAXBLOB"
    by (rule wf_blobE)
  moreover from assms(3) obtain g z2 where "bdata (b ! 2) = g @ z2" "blen (b ! 2) = length g"
    "contents (b ! 2) = g"
    by (rule wf_blobE)
  ultimately show ?thesis
    using assms(4,5) by (simp add: dump_signature_def signature_fields_def field_def Let_def hex_value_length)
qed

definition sign_fields :: "bytes \<Rightarrow> bytes \<Rightarrow> line list" where
  "sign_fields priv msg =
    [Field ''private_key'' (hex_bytes priv),
     Field ''ed25519_private'' (hex_bytes (drop 32 priv)),
     Field ''ed25519_public'' (hex_bytes (ed_public (drop 32 priv))),
     Field ''message_length'' (dec (length msg)),
     Field ''message_sha256'' (hex_bytes (sha256 msg)),
     Field ''signature'' (hex_bytes (ed_signature (drop 32 priv) msg))]"

lemma dump_sign_fields:
  assumes "wf_blob (b ! 0)" "wf_blob (b ! 1)" and "blen (b ! 0) = 64"
  shows "dump_sign b = print (sign_fields (contents (b ! 0)) (contents (b ! 1)))"
proof -
  from assms(1) obtain k z where "bdata (b ! 0) = k @ z" "blen (b ! 0) = length k" "contents (b ! 0) = k"
    by (rule wf_blobE)
  moreover from assms(2) obtain m z1 where "bdata (b ! 1) = m @ z1" "blen (b ! 1) = length m"
    "contents (b ! 1) = m" "length m \<le> MAXBLOB"
    by (rule wf_blobE)
  ultimately show ?thesis
    using assms(3) by (simp add: dump_sign_def sign_fields_def field_def Let_def hex_value_length)
qed

section \<open>Canonical scalars\<close>

lemma canonical_loop_less:
  assumes "i \<le> length s" and "i \<le> 32"
  shows "canonical_loop i s \<longleftrightarrow> le_value (take i s) < le_value (take i ed25519_L)"
  using assms
proof (induction i)
  case 0
  then show ?case by simp
next
  case (Suc i)
  have L: "i < length ed25519_L" using Suc.prems by (simp add: ed25519_L_def)
  have split: "le_value (take (Suc i) xs) = le_value (take i xs) + 256 ^ i * unat (xs ! i)"
    if "i < length xs" for xs :: bytes
    using that by (simp add: take_Suc_conv_app_nth le_value_append)
  have bound: "le_value (take i xs) < 256 ^ i" if "i < length xs" for xs :: bytes
    using that le_value_bound [of "take i xs"] by simp
  have gap: "a + 256 ^ i * u < b + 256 ^ i * v" if "a < 256 ^ i" "u < v" for a b u v :: nat
  proof -
    have "a + 256 ^ i * u < 256 ^ i * Suc u" using that(1) by simp
    also have "\<dots> \<le> 256 ^ i * v" using that(2) by (intro mult_le_mono2) simp
    finally show ?thesis by simp
  qed
  consider "s ! i < ed25519_L ! i" | "ed25519_L ! i < s ! i" | "s ! i = ed25519_L ! i"
    by (meson linorder_less_linear)
  then show ?case
  proof cases
    case 1
    then show ?thesis
      using gap [OF bound [of s]] Suc.prems L by (simp add: split word_less_nat_alt)
  next
    case 2
    then have "\<not> le_value (take (Suc i) s) < le_value (take (Suc i) ed25519_L)"
      using gap [OF bound [OF L], of "unat (ed25519_L ! i)" "unat (s ! i)" "le_value (take i s)"]
        Suc.prems L by (simp add: split word_less_nat_alt)
    then show ?thesis
      using 2 by (auto simp: not_less_iff_gr_or_eq)
  next
    case 3
    then show ?thesis
      using Suc L by (simp add: split)
  qed
qed

text \<open>The order of the group, RFC 8032 section 5.1.\<close>

definition group_order :: nat where
  "group_order = 2 ^ 252 + 27742317777372353535851937790883648493"

lemma ed25519_L_value: "le_value ed25519_L = group_order"
  by (simp add: ed25519_L_def group_order_def)

lemma scalar_canonical_less: "length s = 32 \<Longrightarrow> scalar_canonical s \<longleftrightarrow> le_value s < group_order"
  using canonical_loop_less [of 32 s] by (simp add: scalar_canonical_def ed25519_L_value [symmetric] ed25519_L_def)

lemma foldl_or_zero: "foldl (OR) a bs = 0 \<longleftrightarrow> a = 0 \<and> (\<forall>b \<in> set bs. b = 0)" for a :: byte
  by (induction bs arbitrary: a) (auto simp: or_eq_0_iff)

lemma x25519_shared_fst: "fst (x25519_shared scalar peer) = crypto_scalarmult scalar peer"
  by (simp add: x25519_shared_def Let_def)

lemma x25519_shared_snd:
  "snd (x25519_shared scalar peer) \<longleftrightarrow> crypto_scalarmult scalar peer \<noteq> replicate 32 0"
proof -
  have "(\<forall>b \<in> set bs. b = 0) \<longleftrightarrow> bs = replicate (length bs) 0" for bs :: bytes
    by (metis in_set_replicate replicate_eqI)
  from this [of "crypto_scalarmult scalar peer"] show ?thesis
    by (auto simp: x25519_shared_def Let_def foldl_or_zero)
qed

end
