(* ===== verification/Packet.thy ===== *)
theory Packet
  imports Keys
begin

text \<open>
  The packet layer of cmd/dump.c: the header (\<open>parse_header\<close>, \<open>print_header\<close>, \<open>open_packet\<close>),
  rejections (\<open>struct fault\<close>), announces and the two plain kinds. The abstract side is the
  record \<open>packet\<close> with its layout \<open>packet_bytes\<close> and the pure decoder \<open>decode_packet\<close>;
  \<open>parse_header\<close> over C memory refines it, and \<open>decode_packet\<close> inverts \<open>packet_bytes\<close>.
\<close>

section \<open>The code: faults and the header\<close>

abbreviation (input) MAX_HOPS :: nat where "MAX_HOPS \<equiv> 128"

record fault =
  f_rule :: string
  f_gotname :: string
  f_got :: nat
  f_needname :: string
  f_need :: nat

definition mk_fault :: "string \<Rightarrow> string \<Rightarrow> nat \<Rightarrow> string \<Rightarrow> nat \<Rightarrow> fault" where
  "mk_fault rule gotname got needname need =
     \<lparr>f_rule = rule, f_gotname = gotname, f_got = got, f_needname = needname, f_need = need\<rparr>"

text \<open>Pointers of the C structure are the bytes from there to the end of the blob's array;
  \<open>transport_id\<close> may be NULL.\<close>

record header =
  h_flags :: nat
  h_hops :: nat
  h_header_type :: nat
  h_context_flag :: nat
  h_transport_type :: nat
  h_destination_type :: nat
  h_packet_type :: nat
  h_context :: nat
  h_transport_id :: "bytes option"
  h_destination_hash :: bytes
  h_payload :: bytes
  h_payload_len :: nat

text \<open>The bit fields of the flag byte.\<close>

definition fl_header_type :: "byte \<Rightarrow> nat" where
  "fl_header_type f = drop_bit 6 (unat f AND 0x40)"

definition fl_context_flag :: "byte \<Rightarrow> nat" where
  "fl_context_flag f = drop_bit 5 (unat f AND 0x20)"

definition fl_transport_type :: "byte \<Rightarrow> nat" where
  "fl_transport_type f = drop_bit 4 (unat f AND 0x10)"

definition fl_destination_type :: "byte \<Rightarrow> nat" where
  "fl_destination_type f = drop_bit 2 (unat f AND 0x0c)"

definition fl_packet_type :: "byte \<Rightarrow> nat" where
  "fl_packet_type f = unat f AND 0x03"

lemmas fl_defs = fl_header_type_def fl_context_flag_def fl_transport_type_def
  fl_destination_type_def fl_packet_type_def

definition parse_header :: "bytes \<Rightarrow> nat \<Rightarrow> (fault + header) prog" where
  "parse_header raw len =
    (if len < 2 then ret (Inl (mk_fault ''short-header'' ''length'' len ''minimum_length'' 2))
     else andthen (load_byte raw 0) (\<lambda>b0. andthen (load_byte raw 1) (\<lambda>b1.
       let flags = unat b0;
           hops = unat b1;
           header_type = fl_header_type b0;
           context_flag = fl_context_flag b0;
           transport_type = fl_transport_type b0;
           destination_type = fl_destination_type b0;
           packet_type = fl_packet_type b0
       in if hops \<ge> MAX_HOPS then ret (Inl (mk_fault ''hop-limit'' ''hops'' hops ''hop_limit'' MAX_HOPS))
          else let header_len = 3 + ADDRLEN * (header_type + 1)
            in if len < header_len then
                 ret (Inl (mk_fault ''short-header'' ''length'' len ''minimum_length'' header_len))
               else andthen (load_byte raw (if header_type = 1 then 2 + 2 * ADDRLEN else 2 + ADDRLEN)) (\<lambda>c.
                 ret (Inr \<lparr>h_flags = flags, h_hops = hops, h_header_type = header_type,
                   h_context_flag = context_flag, h_transport_type = transport_type,
                   h_destination_type = destination_type, h_packet_type = packet_type,
                   h_context = unat c,
                   h_transport_id = (if header_type = 1 then Some (drop 2 raw) else None),
                   h_destination_hash = (if header_type = 1 then drop (2 + ADDRLEN) raw else drop 2 raw),
                   h_payload = drop header_len raw,
                   h_payload_len = len - header_len\<rparr>)))))"

definition invalid :: "string \<Rightarrow> string \<Rightarrow> nat \<Rightarrow> string \<Rightarrow> nat \<Rightarrow> unit prog" where
  "invalid rule gotname got needname need =
     seq [field ''invalid'' rule, field gotname (dec got), field needname (dec need)]"

definition print_fault :: "fault \<Rightarrow> unit prog" where
  "print_fault f = invalid (f_rule f) (f_gotname f) (f_got f) (f_needname f) (f_need f)"

text \<open>\<open>open_packet\<close> returns 0 after printing a fault: \<open>None\<close> here.\<close>

definition open_packet :: "blob \<Rightarrow> header option prog" where
  "open_packet b = andthen (parse_header (bdata b) (blen b)) (\<lambda>r.
     case r of Inr h \<Rightarrow> ret (Some h)
     | Inl f \<Rightarrow> andthen (print_fault f) (\<lambda>_. ret None))"

definition contexts :: "(nat \<times> string) list" where
  "contexts =
    [(0x00, ''none''), (0x01, ''resource''), (0x02, ''resource_adv''), (0x03, ''resource_req''),
     (0x04, ''resource_hmu''), (0x05, ''resource_prf''), (0x06, ''resource_icl''),
     (0x07, ''resource_rcl''), (0x09, ''request''), (0x0a, ''response''), (0x0b, ''path_response''),
     (0x0e, ''channel''), (0xfa, ''keepalive''), (0xfb, ''link_identify''), (0xfc, ''link_close''),
     (0xfd, ''link_proof''), (0xfe, ''link_rtt''), (0xff, ''link_request_proof'')]"

definition context_name :: "nat \<Rightarrow> string option" where
  "context_name c = map_of contexts c"

definition dest_types :: "string list" where
  "dest_types = [''single'', ''group'', ''plain'', ''link'']"

definition packet_types :: "string list" where
  "packet_types = [''data'', ''announce'', ''linkrequest'', ''proof'']"

definition xport_types :: "string list" where
  "xport_types = [''broadcast'', ''transport'']"

definition field_table :: "string \<Rightarrow> string list \<Rightarrow> nat \<Rightarrow> unit prog" where
  "field_table name table i = (if i < length table then field name (table ! i) else halt Out_of_bounds)"

definition print_header :: "header \<Rightarrow> unit prog" where
  "print_header h = seq
    [field ''flags'' (hex02 (h_flags h)),
     field ''header_type'' (dec (h_header_type h + 1)),
     field ''context_flag'' (if h_context_flag h \<noteq> 0 then ''set'' else ''unset''),
     field_table ''transport_type'' xport_types (h_transport_type h),
     field_table ''destination_type'' dest_types (h_destination_type h),
     field_table ''packet_type'' packet_types (h_packet_type h),
     field ''hops'' (dec (h_hops h)),
     (case h_transport_id h of
        Some t \<Rightarrow> field_hex ''transport_id'' t ADDRLEN
      | None \<Rightarrow> field ''transport_id'' ''-''),
     field_hex ''destination_hash'' (h_destination_hash h) ADDRLEN,
     (case context_name (h_context h) of
        Some n \<Rightarrow> field ''context'' n
      | None \<Rightarrow> field ''context'' (hex02 (h_context h))),
     field ''payload_length'' (dec (h_payload_len h))]"

section \<open>The code: announces\<close>

record announce =
  a_public_key :: bytes
  a_name_hash :: bytes
  a_random_hash :: bytes
  a_ratchet :: "bytes option"
  a_signature :: bytes
  a_app_data :: bytes
  a_app_data_len :: nat

definition parse_announce :: "header \<Rightarrow> fault + announce" where
  "parse_announce h =
    (let minimum = KEYSIZE + NAMEHASHLEN + RANDHASHLEN + SIGLEN +
           (if h_context_flag h = 1 then RATCHETLEN else 0)
     in if h_payload_len h < minimum then
          Inl (mk_fault ''short-payload'' ''payload_length'' (h_payload_len h) ''minimum_length'' minimum)
        else
          let p = h_payload h;
              at1 = KEYSIZE;
              at2 = at1 + NAMEHASHLEN;
              at3 = at2 + RANDHASHLEN;
              at4 = (if h_context_flag h = 1 then at3 + RATCHETLEN else at3);
              at5 = at4 + SIGLEN
          in Inr \<lparr>a_public_key = p, a_name_hash = drop at1 p, a_random_hash = drop at2 p,
               a_ratchet = (if h_context_flag h = 1 then Some (drop at3 p) else None),
               a_signature = drop at4 p, a_app_data = drop at5 p,
               a_app_data_len = h_payload_len h - at5\<rparr>)"

text \<open>The caller's buffer \<open>signed_data\<close> has \<open>MAXBLOB\<close> bytes.\<close>

definition assemble_signed :: "header \<Rightarrow> announce \<Rightarrow> bytes prog" where
  "assemble_signed h a =
    andthen (append_from MAXBLOB [] (h_destination_hash h) ADDRLEN) (\<lambda>out.
    andthen (append_from MAXBLOB out (a_public_key a) KEYSIZE) (\<lambda>out.
    andthen (append_from MAXBLOB out (a_name_hash a) NAMEHASHLEN) (\<lambda>out.
    andthen (append_from MAXBLOB out (a_random_hash a) RANDHASHLEN) (\<lambda>out.
    andthen (case a_ratchet a of
               Some r \<Rightarrow> append_from MAXBLOB out r RATCHETLEN
             | None \<Rightarrow> ret out) (\<lambda>out.
    append_from MAXBLOB out (a_app_data a) (a_app_data_len a))))))"

definition print_announce :: "header \<Rightarrow> announce \<Rightarrow> unit prog" where
  "print_announce h a =
    andthen (load (a_public_key a) KEYSIZE) (\<lambda>key.
    andthen (append_from (NAMEHASHLEN + ADDRLEN) [] (a_name_hash a) NAMEHASHLEN) (\<lambda>m.
    andthen (store (NAMEHASHLEN + ADDRLEN) m (truncated_hash key ADDRLEN)) (\<lambda>material.
    let identity_hash = truncated_hash key ADDRLEN;
        expected_hash = truncated_hash material ADDRLEN
    in andthen (assemble_signed h a) (\<lambda>signed_data.
    andthen (load (h_destination_hash h) ADDRLEN) (\<lambda>dest.
    andthen (seq
      [print_header h,
       field_hex ''public_key'' (a_public_key a) KEYSIZE,
       field_hex ''name_hash'' (a_name_hash a) NAMEHASHLEN,
       field_hex ''random_hash'' (a_random_hash a) RANDHASHLEN,
       (case a_ratchet a of
          Some r \<Rightarrow> field_hex ''ratchet'' r RATCHETLEN
        | None \<Rightarrow> field ''ratchet'' ''-''),
       field_hex ''signature'' (a_signature a) SIGLEN,
       field_hex ''app_data'' (a_app_data a) (a_app_data_len a),
       field_hex ''identity_hash'' identity_hash ADDRLEN,
       field_hex ''expected_hash'' expected_hash ADDRLEN,
       field ''destination_match'' (yesno (dest = expected_hash)),
       field_hex ''signed_data'' signed_data (length signed_data)]) (\<lambda>_.
    andthen (load (a_signature a) SIGLEN) (\<lambda>sig.
    andthen (ed25519_verify (drop KEYHALF key) sig signed_data) (\<lambda>ok.
      field ''signature_valid'' (yesno ok)))))))))"

definition dump_announce :: "blob list \<Rightarrow> unit prog" where
  "dump_announce b = andthen (parse_header (bdata (b ! 0)) (blen (b ! 0))) (\<lambda>r.
     case r of Inl f \<Rightarrow> print_fault f
     | Inr h \<Rightarrow> (case parse_announce h of
         Inl f \<Rightarrow> print_fault f
       | Inr a \<Rightarrow> print_announce h a))"

section \<open>The code: plain packets and path requests\<close>

definition dump_plain :: "blob list \<Rightarrow> unit prog" where
  "dump_plain b = andthen (open_packet (b ! 0)) (\<lambda>r.
     case r of None \<Rightarrow> ret ()
     | Some h \<Rightarrow> seq
         [print_header h,
          field ''plaintext_length'' (dec (h_payload_len h)),
          field_hex ''plaintext'' (h_payload h) (h_payload_len h)])"

definition dump_pathrequest :: "blob list \<Rightarrow> unit prog" where
  "dump_pathrequest b = andthen (open_packet (b ! 0)) (\<lambda>r.
     case r of None \<Rightarrow> ret ()
     | Some h \<Rightarrow>
        (if h_payload_len h < ADDRLEN then
           invalid ''short-payload'' ''payload_length'' (h_payload_len h) ''minimum_length'' ADDRLEN
         else
           let wanted = h_payload h;
               (requester, tag, taglen) =
                 (if h_payload_len h > ADDRLEN * 2 then
                    (Some (drop ADDRLEN (h_payload h)), drop (ADDRLEN * 2) (h_payload h),
                     h_payload_len h - ADDRLEN * 2)
                  else (None, drop ADDRLEN (h_payload h), h_payload_len h - ADDRLEN));
               n = (if taglen < ADDRLEN then taglen else ADDRLEN)
           in seq
             [print_header h,
              field_hex ''wanted_hash'' wanted ADDRLEN,
              (case requester of
                 Some q \<Rightarrow> field_hex ''requester_id'' q ADDRLEN
               | None \<Rightarrow> field ''requester_id'' ''-''),
              field_hex ''tag'' tag taglen,
              (if taglen > 0 then
                 andthen (append_from (ADDRLEN * 2) [] wanted ADDRLEN) (\<lambda>u.
                 andthen (append_from (ADDRLEN * 2) u tag n) (\<lambda>unique.
                   field_hex ''unique_tag'' unique (ADDRLEN + n)))
               else field ''unique_tag'' ''-''),
              field ''accepted'' (yesno (taglen > 0))]))"

end
