(* ===== verification/Wire.thy ===== *)
theory Wire
  imports Packet
begin

text \<open>
  The abstract side of the packet layer: a packet as a record, its bytes on the wire
  (doc/packet), and a pure decoder over exact byte strings. The code's \<open>parse_header\<close>, which
  works on pointers into a larger array, refines the decoder, and the decoder and the layout are
  inverse to each other.
\<close>

section \<open>The flag byte\<close>

text \<open>Each field is a digit of the byte: the widths of doc/packet, from the lowest bit up.\<close>

lemma and_3_nat: "(n::nat) AND 3 = n mod 4"
  using take_bit_eq_mask [of 2 n] by (simp add: take_bit_eq_mod mask_eq_exp_minus_1)

lemma flag_digits:
  "fl_packet_type f = unat f mod 4" "fl_destination_type f = unat f div 4 mod 4"
  "fl_transport_type f = unat f div 16 mod 2" "fl_context_flag f = unat f div 32 mod 2"
  "fl_header_type f = unat f div 64 mod 2"
  unfolding fl_defs drop_bit_and by (simp_all add: drop_bit_eq_div and_one_eq and_3_nat)

lemma flag_bounds [simp]:
  "fl_packet_type f < 4" "fl_destination_type f < 4" "fl_transport_type f < 2"
  "fl_context_flag f < 2" "fl_header_type f < 2"
  by (simp_all add: flag_digits)

lemma fl_header_type_cases: "fl_header_type f = 0 \<or> fl_header_type f = 1"
  using flag_bounds(5) [of f] by linarith

lemma fl_context_flag_cases: "fl_context_flag f = 0 \<or> fl_context_flag f = 1"
  using flag_bounds(4) [of f] by linarith

section \<open>Packets and their bytes\<close>

record packet =
  p_flags :: byte
  p_hops :: byte
  p_transport :: bytes
  p_destination :: bytes
  p_context :: byte
  p_payload :: bytes

definition packet_bytes :: "packet \<Rightarrow> bytes" where
  "packet_bytes p = [p_flags p, p_hops p] @ p_transport p @ p_destination p @ [p_context p] @ p_payload p"

definition wf_packet :: "packet \<Rightarrow> bool" where
  "wf_packet p \<longleftrightarrow> unat (p_hops p) < 128 \<and> length (p_destination p) = 16 \<and>
     length (p_transport p) = 16 * fl_header_type (p_flags p)"

definition decode_packet :: "bytes \<Rightarrow> fault + packet" where
  "decode_packet raw =
    (if length raw < 2 then Inl (mk_fault ''short-header'' ''length'' (length raw) ''minimum_length'' 2)
     else let ht = fl_header_type (raw ! 0); hops = unat (raw ! 1); hl = 3 + 16 * (ht + 1)
       in if hops \<ge> 128 then Inl (mk_fault ''hop-limit'' ''hops'' hops ''hop_limit'' 128)
          else if length raw < hl then
            Inl (mk_fault ''short-header'' ''length'' (length raw) ''minimum_length'' hl)
          else Inr \<lparr>p_flags = raw ! 0, p_hops = raw ! 1, p_transport = take (16 * ht) (drop 2 raw),
            p_destination = take 16 (drop (2 + 16 * ht) raw), p_context = raw ! (2 + 16 * ht + 16),
            p_payload = drop hl raw\<rparr>)"

lemma packet_bytes_length:
  "wf_packet p \<Longrightarrow> length (packet_bytes p) = 3 + 16 * (fl_header_type (p_flags p) + 1) + length (p_payload p)"
  by (simp add: packet_bytes_def wf_packet_def)

lemma decode_packet_bytes:
  assumes "wf_packet p"
  shows "decode_packet (packet_bytes p) = Inr p"
proof -
  have "packet_bytes p ! (18 + 16 * fl_header_type (p_flags p)) = p_context p"
    using assms by (simp add: packet_bytes_def wf_packet_def nth_append nth_Cons')
  then show ?thesis
    using assms packet_bytes_length [OF assms]
    by (cases p) (simp add: decode_packet_def Let_def, simp add: packet_bytes_def wf_packet_def drop_Cons')
qed

lemma decode_packet_wf:
  assumes "decode_packet raw = Inr p"
  shows "wf_packet p \<and> packet_bytes p = raw"
proof -
  define hl where "hl = 18 + 16 * fl_header_type (raw ! 0)"
  have len: "2 \<le> length raw" "unat (raw ! 1) < 128" "Suc hl \<le> length raw"
    and p: "p = \<lparr>p_flags = raw ! 0, p_hops = raw ! 1, p_transport = take (hl - 18) (drop 2 raw),
            p_destination = take 16 (drop (hl - 16) raw), p_context = raw ! hl,
            p_payload = drop (Suc hl) raw\<rparr>"
    using assms by (auto simp: decode_packet_def hl_def Let_def split: if_splits)
  obtain r0 r1 rs where raw: "raw = r0 # r1 # rs"
    using len(1) by (cases raw; cases "tl raw") auto
  have "packet_bytes p = take 2 raw @ take (hl - 18) (drop 2 raw) @ take 16 (drop (hl - 16) raw)
      @ raw ! hl # drop (Suc hl) raw"
    by (simp add: p packet_bytes_def raw)
  also have "raw ! hl # drop (Suc hl) raw = drop hl raw"
    using len by (simp add: Cons_nth_drop_Suc)
  also have "take 16 (drop (hl - 16) raw) @ drop hl raw = drop (hl - 16) raw"
  proof -
    have "hl = 16 + (hl - 16)" by (simp add: hl_def)
    then show ?thesis by (metis append_take_drop_id drop_drop)
  qed
  also have "take (hl - 18) (drop 2 raw) @ drop (hl - 16) raw = drop 2 raw"
  proof -
    have "hl - 16 = (hl - 18) + 2" by (simp add: hl_def)
    then show ?thesis by (metis append_take_drop_id drop_drop)
  qed
  finally have "packet_bytes p = raw" by simp
  moreover have "wf_packet p"
    using len by (simp add: wf_packet_def p hl_def)
  ultimately show ?thesis by simp
qed

interpretation pkt: layout packet_bytes decode_packet wf_packet
  by unfold_locales (simp_all add: decode_packet_bytes decode_packet_wf)

lemma decode_packet_iff: "decode_packet raw = Inr p \<longleftrightarrow> wf_packet p \<and> raw = packet_bytes p"
  by (rule pkt.dec_iff)

section \<open>The code refines the decoder\<close>

text \<open>The header structure of a packet, with \<open>z\<close> the rest of the array after it.\<close>

definition header_of :: "packet \<Rightarrow> bytes \<Rightarrow> header" where
  "header_of p z =
    (let f = p_flags p;
         from_dest = p_destination p @ p_context p # p_payload p @ z
     in \<lparr>h_flags = unat f, h_hops = unat (p_hops p), h_header_type = fl_header_type f,
         h_context_flag = fl_context_flag f, h_transport_type = fl_transport_type f,
         h_destination_type = fl_destination_type f, h_packet_type = fl_packet_type f,
         h_context = unat (p_context p),
         h_transport_id = (if fl_header_type f = 1 then Some (p_transport p @ from_dest) else None),
         h_destination_hash = from_dest, h_payload = p_payload p @ z,
         h_payload_len = length (p_payload p)\<rparr>)"

lemma header_of_simps [simp]:
  "h_flags (header_of p z) = unat (p_flags p)" "h_hops (header_of p z) = unat (p_hops p)"
  "h_header_type (header_of p z) = fl_header_type (p_flags p)"
  "h_context_flag (header_of p z) = fl_context_flag (p_flags p)"
  "h_transport_type (header_of p z) = fl_transport_type (p_flags p)"
  "h_destination_type (header_of p z) = fl_destination_type (p_flags p)"
  "h_packet_type (header_of p z) = fl_packet_type (p_flags p)"
  "h_context (header_of p z) = unat (p_context p)"
  "h_destination_hash (header_of p z) = p_destination p @ p_context p # p_payload p @ z"
  "h_payload (header_of p z) = p_payload p @ z"
  "h_payload_len (header_of p z) = length (p_payload p)"
  by (simp_all add: header_of_def Let_def)

lemma parse_header_packet:
  assumes "wf_packet p"
  shows "parse_header (packet_bytes p @ z) (length (packet_bytes p)) = ret (Inr (header_of p z))"
proof -
  have t: "length (p_transport p) = 16 * fl_header_type (p_flags p)" "length (p_destination p) = 16"
    "unat (p_hops p) < 128"
    using assms by (simp_all add: wf_packet_def)
  have l: "length (packet_bytes p) = 19 + 16 * fl_header_type (p_flags p) + length (p_payload p)"
    using packet_bytes_length [OF assms] by simp
  from fl_header_type_cases [of "p_flags p"] show ?thesis
  proof
    assume ht: "fl_header_type (p_flags p) = 0"
    then have c: "(packet_bytes p @ z) ! 18 = p_context p"
      using t by (simp add: packet_bytes_def nth_append nth_Cons')
    show ?thesis
      using ht t l c unfolding parse_header_def header_of_def
      by (simp add: Let_def, simp add: packet_bytes_def)
  next
    assume ht: "fl_header_type (p_flags p) = 1"
    then have c: "(packet_bytes p @ z) ! 34 = p_context p"
      using t by (simp add: packet_bytes_def nth_append nth_Cons')
    show ?thesis
      using ht t l c unfolding parse_header_def header_of_def
      by (simp add: Let_def, simp add: packet_bytes_def)
  qed
qed

lemma parse_header_fault:
  assumes "decode_packet raw = Inl f"
  shows "parse_header (raw @ z) (length raw) = ret (Inl f)"
proof (cases "length raw < 2")
  case True
  then show ?thesis using assms by (simp add: parse_header_def decode_packet_def)
next
  case False
  then have "0 < length (raw @ z)" "1 < length (raw @ z)" and nth: "(raw @ z) ! 0 = raw ! 0" "(raw @ z) ! 1 = raw ! 1"
    by (cases raw; simp add: nth_append)+
  then have "load_byte (raw @ z) 0 = ret (raw ! 0)" "load_byte (raw @ z) 1 = ret (raw ! 1)"
    by (simp_all only: load_byte_ok)
  then show ?thesis
    using assms False by (auto simp: parse_header_def decode_packet_def Let_def split: if_splits)
qed

text \<open>Both together: what \<open>parse_header\<close> returns on \<open>length raw\<close> bytes of any memory.\<close>

lemma parse_header_refines:
  "parse_header (raw @ z) (length raw) =
     ret (case decode_packet raw of Inl f \<Rightarrow> Inl f | Inr p \<Rightarrow> Inr (header_of p z))"
proof (cases "decode_packet raw")
  case (Inl f)
  then show ?thesis by (simp add: parse_header_fault)
next
  case (Inr p)
  then have "wf_packet p" "raw = packet_bytes p"
    by (simp_all add: decode_packet_iff)
  then show ?thesis
    using Inr parse_header_packet [of p z] by simp
qed

section \<open>Fields of a header and of a fault\<close>

definition context_text :: "byte \<Rightarrow> string" where
  "context_text c = (case context_name (unat c) of Some n \<Rightarrow> n | None \<Rightarrow> hex02 (unat c))"

definition header_fields :: "packet \<Rightarrow> line list" where
  "header_fields p =
    [Field ''flags'' (hex02 (unat (p_flags p))),
     Field ''header_type'' (dec (fl_header_type (p_flags p) + 1)),
     Field ''context_flag'' (if fl_context_flag (p_flags p) \<noteq> 0 then ''set'' else ''unset''),
     Field ''transport_type'' (xport_types ! fl_transport_type (p_flags p)),
     Field ''destination_type'' (dest_types ! fl_destination_type (p_flags p)),
     Field ''packet_type'' (packet_types ! fl_packet_type (p_flags p)),
     Field ''hops'' (dec (unat (p_hops p))),
     Field ''transport_id'' (hex_value (p_transport p)),
     Field ''destination_hash'' (hex_bytes (p_destination p)),
     Field ''context'' (context_text (p_context p)),
     Field ''payload_length'' (dec (length (p_payload p)))]"

definition fault_fields :: "fault \<Rightarrow> line list" where
  "fault_fields f =
    [Field ''invalid'' (f_rule f), Field (f_gotname f) (dec (f_got f)),
     Field (f_needname f) (dec (f_need f))]"

lemma invalid_fields [simp, prog_simps]:
  "invalid rule gotname got needname need = print (fault_fields (mk_fault rule gotname got needname need))"
  by (simp add: invalid_def fault_fields_def mk_fault_def field_def)

lemma print_fault_fields [simp, prog_simps]: "print_fault f = print (fault_fields f)"
  by (simp add: print_fault_def mk_fault_def fault_fields_def)

lemma field_table_ok: "i < length table \<Longrightarrow> field_table name table i = print [Field name (table ! i)]"
  by (simp add: field_table_def field_def)

lemma field_tables [simp, prog_simps]:
  "field_table name xport_types (fl_transport_type f) = print [Field name (xport_types ! fl_transport_type f)]"
  "field_table name dest_types (fl_destination_type f) = print [Field name (dest_types ! fl_destination_type f)]"
  "field_table name packet_types (fl_packet_type f) = print [Field name (packet_types ! fl_packet_type f)]"
  using flag_bounds [of f]
  by (simp_all add: field_table_ok xport_types_def dest_types_def packet_types_def numeral_eq_Suc)

lemma field_print [simp, prog_simps]: "field name val = print [Field name val]"
  by (simp add: field_def)

lemma h_transport_id_of:
  "h_transport_id (header_of p z) = (if fl_header_type (p_flags p) = 1
     then Some (p_transport p @ p_destination p @ p_context p # p_payload p @ z) else None)"
  by (simp add: header_of_def Let_def)

lemma print_header_fields [simp, prog_simps]:
  assumes "wf_packet p"
  shows "print_header (header_of p z) = print (header_fields p)"
proof -
  have t: "length (p_transport p) = 16 * fl_header_type (p_flags p)" "length (p_destination p) = 16"
    using assms by (simp_all add: wf_packet_def)
  have "(case h_transport_id (header_of p z) of
        Some t \<Rightarrow> field_hex ''transport_id'' t 16 | None \<Rightarrow> field ''transport_id'' ''-'') =
      print [Field ''transport_id'' (hex_value (p_transport p))]"
    using t fl_header_type_cases [of "p_flags p"] by (auto simp: h_transport_id_of hex_value_def)
  moreover have "(case context_name (unat (p_context p)) of
        Some n \<Rightarrow> field ''context'' n
      | None \<Rightarrow> field ''context'' (hex02 (h_context (header_of p z)))) =
      print [Field ''context'' (context_text (p_context p))]"
    by (simp add: context_text_def split: option.splits)
  ultimately show ?thesis
    using t by (simp add: print_header_def header_fields_def hex_value_length)
qed

text \<open>Opening the packet a blob holds. The array after the packet is zero.\<close>

definition after :: "blob \<Rightarrow> bytes" where
  "after b = replicate (MAXBLOB - blen b) 0"

lemma parse_header_blob:
  assumes "wf_blob b"
  shows "parse_header (bdata b) (blen b) =
    ret (case decode_packet (contents b) of Inl f \<Rightarrow> Inl f | Inr p \<Rightarrow> Inr (header_of p (after b)))"
  using parse_header_refines [of "contents b" "after b"] wf_blob_padding [OF assms] contents_length [OF assms]
  by (simp add: after_def)

lemma open_packet_blob:
  assumes "wf_blob b"
  shows "open_packet b = (case decode_packet (contents b) of
     Inl f \<Rightarrow> andthen (print (fault_fields f)) (\<lambda>_. ret None)
   | Inr p \<Rightarrow> ret (Some (header_of p (after b))))"
  using assms by (simp add: open_packet_def parse_header_blob split: sum.splits)

section \<open>plain\<close>

definition plain_fields :: "bytes \<Rightarrow> line list" where
  "plain_fields raw = (case decode_packet raw of
     Inl f \<Rightarrow> fault_fields f
   | Inr p \<Rightarrow> header_fields p @
       [Field ''plaintext_length'' (dec (length (p_payload p))),
        Field ''plaintext'' (hex_value (p_payload p))])"

lemma dump_plain_fields:
  assumes "wf_blob (b ! 0)"
  shows "dump_plain b = print (plain_fields (contents (b ! 0)))"
proof (cases "decode_packet (contents (b ! 0))")
  case (Inl f)
  then show ?thesis
    using assms by (simp add: dump_plain_def open_packet_blob plain_fields_def andthen_assoc)
next
  case (Inr p)
  then have "wf_packet p" by (simp add: decode_packet_iff)
  then show ?thesis
    using assms Inr by (simp add: dump_plain_def open_packet_blob plain_fields_def)
qed

section \<open>pathrequest\<close>

record path_request =
  pr_wanted :: bytes
  pr_requester :: bytes
  pr_tag :: bytes

definition decode_path_request :: "bytes \<Rightarrow> fault + path_request" where
  "decode_path_request pl =
    (if length pl < 16 then Inl (mk_fault ''short-payload'' ''payload_length'' (length pl) ''minimum_length'' 16)
     else if length pl > 32 then
       Inr \<lparr>pr_wanted = take 16 pl, pr_requester = take 16 (drop 16 pl), pr_tag = drop 32 pl\<rparr>
     else Inr \<lparr>pr_wanted = take 16 pl, pr_requester = [], pr_tag = drop 16 pl\<rparr>)"

text \<open>The tag as the duplicate check sees it.\<close>

definition unique_tag :: "path_request \<Rightarrow> bytes" where
  "unique_tag r = (if pr_tag r = [] then [] else pr_wanted r @ take 16 (pr_tag r))"

definition path_request_fields :: "path_request \<Rightarrow> line list" where
  "path_request_fields r =
    [Field ''wanted_hash'' (hex_bytes (pr_wanted r)),
     Field ''requester_id'' (hex_value (pr_requester r)),
     Field ''tag'' (hex_value (pr_tag r)),
     Field ''unique_tag'' (hex_value (unique_tag r)),
     Field ''accepted'' (yesno (pr_tag r \<noteq> []))]"

definition pathrequest_fields :: "bytes \<Rightarrow> line list" where
  "pathrequest_fields raw = (case decode_packet raw of
     Inl f \<Rightarrow> fault_fields f
   | Inr p \<Rightarrow> (case decode_path_request (p_payload p) of
       Inl f \<Rightarrow> fault_fields f
     | Inr r \<Rightarrow> header_fields p @ path_request_fields r))"

lemma dump_pathrequest_fields:
  assumes "wf_blob (b ! 0)"
  shows "dump_pathrequest b = print (pathrequest_fields (contents (b ! 0)))"
proof (cases "decode_packet (contents (b ! 0))")
  case (Inl f)
  then show ?thesis
    using assms by (simp add: dump_pathrequest_def open_packet_blob pathrequest_fields_def andthen_assoc)
next
  case (Inr p)
  then have p: "wf_packet p" by (simp add: decode_packet_iff)
  define pl where "pl = p_payload p"
  define z where "z = after (b ! 0)"
  have open_: "open_packet (b ! 0) = ret (Some (header_of p z))"
    using assms Inr by (simp add: open_packet_blob z_def)
  consider "length pl < 16" | "length pl = 16" | "16 < length pl" "length pl \<le> 32" | "32 < length pl"
    by linarith
  then show ?thesis
  proof cases
    case 1
    then show ?thesis
      using Inr open_ by (simp add: dump_pathrequest_def pathrequest_fields_def decode_path_request_def pl_def)
  next
    case 2
    then show ?thesis
      using Inr open_ p
      by (simp add: dump_pathrequest_def pathrequest_fields_def decode_path_request_def
          path_request_fields_def unique_tag_def hex_value_length hex_value_def [of "[]"] flip: pl_def)
  next
    case 3
    then have n: "(if length pl - 16 < 16 then length pl - 16 else 16) = length pl - 16" by arith
    show ?thesis
      using Inr open_ p 3 n
      by (simp add: dump_pathrequest_def pathrequest_fields_def decode_path_request_def Let_def
          path_request_fields_def unique_tag_def hex_value_length hex_value_def [of "[]"] flip: pl_def)
  next
    case 4
    then have n: "min 16 (length pl - 16) = 16" "min (length pl - 16) 16 = 16" by arith+
    show ?thesis
      using 4 n Inr open_ p
      by (simp add: dump_pathrequest_def pathrequest_fields_def decode_path_request_def Let_def
          path_request_fields_def unique_tag_def hex_value_length flip: pl_def)
  qed
qed

section \<open>announce\<close>

record announcement =
  an_public_key :: bytes
  an_name_hash :: bytes
  an_random_hash :: bytes
  an_ratchet :: bytes
  an_signature :: bytes
  an_app_data :: bytes

definition announcement_bytes :: "announcement \<Rightarrow> bytes" where
  "announcement_bytes a = an_public_key a @ an_name_hash a @ an_random_hash a @ an_ratchet a @
     an_signature a @ an_app_data a"

definition wf_announcement :: "nat \<Rightarrow> announcement \<Rightarrow> bool" where
  "wf_announcement cf a \<longleftrightarrow> length (an_public_key a) = 64 \<and> length (an_name_hash a) = 10 \<and>
     length (an_random_hash a) = 10 \<and> length (an_ratchet a) = (if cf = 1 then 32 else 0) \<and>
     length (an_signature a) = 64"

definition decode_announcement :: "nat \<Rightarrow> bytes \<Rightarrow> fault + announcement" where
  "decode_announcement cf pl =
    (let r = (if cf = 1 then 32 else 0); minimum = 148 + r
     in if length pl < minimum then
          Inl (mk_fault ''short-payload'' ''payload_length'' (length pl) ''minimum_length'' minimum)
        else Inr \<lparr>an_public_key = take 64 pl, an_name_hash = take 10 (drop 64 pl),
          an_random_hash = take 10 (drop 74 pl), an_ratchet = take r (drop 84 pl),
          an_signature = take 64 (drop (84 + r) pl), an_app_data = drop (148 + r) pl\<rparr>)"

lemma decode_announcement_bytes:
  "wf_announcement cf a \<Longrightarrow> decode_announcement cf (announcement_bytes a) = Inr a"
  by (cases a) (simp add: decode_announcement_def announcement_bytes_def wf_announcement_def Let_def)

lemma drop_take_step: "take n (drop i xs) @ drop (i + n) xs = drop i xs"
  by (metis add.commute append_take_drop_id drop_drop)

lemma drop_take_to: "i \<le> j \<Longrightarrow> take (j - i) (drop i xs) @ drop j xs = drop i xs"
  using drop_take_step [of "j - i" i xs] by simp

lemma decode_announcement_wf:
  assumes "decode_announcement cf pl = Inr a"
  shows "wf_announcement cf a \<and> announcement_bytes a = pl"
proof -
  define r :: nat where "r = (if cf = 1 then 32 else 0)"
  have len: "148 + r \<le> length pl" and a: "a = \<lparr>an_public_key = take 64 pl,
      an_name_hash = take 10 (drop 64 pl), an_random_hash = take 10 (drop 74 pl),
      an_ratchet = take r (drop 84 pl), an_signature = take 64 (drop (84 + r) pl),
      an_app_data = drop (148 + r) pl\<rparr>"
    using assms by (simp_all add: decode_announcement_def Let_def r_def split: if_splits)
  have "announcement_bytes a = pl"
    using drop_take_step [of 64 "84 + r" pl] drop_take_step [of r 84 pl] drop_take_step [of 10 74 pl]
      drop_take_step [of 10 64 pl] by (simp add: a announcement_bytes_def)
  moreover have "wf_announcement cf a"
    using len by (simp add: a wf_announcement_def r_def)
  ultimately show ?thesis by simp
qed

interpretation ann: layout announcement_bytes "decode_announcement cf" "wf_announcement cf" for cf
  by unfold_locales (simp_all add: decode_announcement_bytes decode_announcement_wf)

text \<open>What the signature of an announce covers: the destination is in it, the signature and the
  rest of the header are not.\<close>

definition signed_part :: "bytes \<Rightarrow> announcement \<Rightarrow> bytes" where
  "signed_part dest a = dest @ an_public_key a @ an_name_hash a @ an_random_hash a @ an_ratchet a @
     an_app_data a"

definition announced_destination :: "announcement \<Rightarrow> bytes" where
  "announced_destination a = truncated_hash (an_name_hash a @ truncated_hash (an_public_key a) 16) 16"

definition announcement_fields :: "packet \<Rightarrow> announcement \<Rightarrow> line list" where
  "announcement_fields p a = header_fields p @
    [Field ''public_key'' (hex_bytes (an_public_key a)),
     Field ''name_hash'' (hex_bytes (an_name_hash a)),
     Field ''random_hash'' (hex_bytes (an_random_hash a)),
     Field ''ratchet'' (hex_value (an_ratchet a)),
     Field ''signature'' (hex_bytes (an_signature a)),
     Field ''app_data'' (hex_value (an_app_data a)),
     Field ''identity_hash'' (hex_bytes (truncated_hash (an_public_key a) 16)),
     Field ''expected_hash'' (hex_bytes (announced_destination a)),
     Field ''destination_match'' (yesno (p_destination p = announced_destination a)),
     Field ''signed_data'' (hex_bytes (signed_part (p_destination p) a)),
     Field ''signature_valid'' (yesno (ed_valid (drop 32 (an_public_key a)) (an_signature a)
       (signed_part (p_destination p) a)))]"

definition announce_fields :: "bytes \<Rightarrow> line list" where
  "announce_fields raw = (case decode_packet raw of
     Inl f \<Rightarrow> fault_fields f
   | Inr p \<Rightarrow> (case decode_announcement (fl_context_flag (p_flags p)) (p_payload p) of
       Inl f \<Rightarrow> fault_fields f
     | Inr a \<Rightarrow> announcement_fields p a))"

text \<open>The announce structure of the code: pointers into the payload.\<close>

definition announce_of :: "nat \<Rightarrow> announcement \<Rightarrow> bytes \<Rightarrow> announce" where
  "announce_of cf a z =
    (let p4 = an_signature a @ an_app_data a @ z;
         p3 = an_ratchet a @ p4;
         p2 = an_random_hash a @ p3;
         p1 = an_name_hash a @ p2
     in \<lparr>a_public_key = an_public_key a @ p1, a_name_hash = p1, a_random_hash = p2,
         a_ratchet = (if cf = 1 then Some p3 else None), a_signature = p4,
         a_app_data = an_app_data a @ z, a_app_data_len = length (an_app_data a)\<rparr>)"

lemma parse_announce_refines:
  "parse_announce (header_of p z) =
     (case decode_announcement (fl_context_flag (p_flags p)) (p_payload p) of
        Inl f \<Rightarrow> Inl f | Inr a \<Rightarrow> Inr (announce_of (fl_context_flag (p_flags p)) a z))"
proof (cases "decode_announcement (fl_context_flag (p_flags p)) (p_payload p)")
  case (Inl f)
  then show ?thesis
    by (auto simp: parse_announce_def decode_announcement_def Let_def split: if_splits)
next
  case (Inr a)
  then have wf: "wf_announcement (fl_context_flag (p_flags p)) a" and pl: "p_payload p = announcement_bytes a"
    by (simp_all add: ann.dec_iff)
  have "parse_announce (header_of p z) = Inr (announce_of (fl_context_flag (p_flags p)) a z)"
    using wf fl_context_flag_cases [of "p_flags p"]
    by (auto simp: parse_announce_def pl announcement_bytes_def announce_of_def
        wf_announcement_def Let_def)
  then show ?thesis
    by (simp add: Inr)
qed

lemma announcement_length:
  "wf_announcement cf a \<Longrightarrow> length (announcement_bytes a) = 148 + (if cf = 1 then 32 else 0) + length (an_app_data a)"
  by (simp add: wf_announcement_def announcement_bytes_def)

text \<open>The comment at \<open>signed_data_fits\<close>: the material is the payload with the signature exchanged
  for the shorter destination hash, so a payload that fits a blob fits the buffer.\<close>

lemma assemble_signed_part:
  assumes "wf_packet p" and "wf_announcement cf a" and "p_payload p = announcement_bytes a"
    and "length (p_payload p) \<le> MAXBLOB"
  shows "assemble_signed (header_of p z) (announce_of cf a z) = ret (signed_part (p_destination p) a)"
proof -
  have d: "length (p_destination p) = 16" using assms(1) by (simp add: wf_packet_def)
  have l: "148 + (if cf = 1 then 32 else 0) + length (an_app_data a) \<le> MAXBLOB"
    using assms(3,4) announcement_length [OF assms(2)] by simp
  show ?thesis
  proof (cases "cf = 1")
    case True
    then show ?thesis
      using assms(2) d l by (simp add: assemble_signed_def announce_of_def wf_announcement_def signed_part_def Let_def)
  next
    case False
    then show ?thesis
      using assms(2) d l by (simp add: assemble_signed_def announce_of_def wf_announcement_def signed_part_def Let_def)
  qed
qed

lemma signed_part_length:
  "wf_announcement cf a \<Longrightarrow> length dest = 16 \<Longrightarrow>
     length (signed_part dest a) + 48 = length (announcement_bytes a)"
  by (simp add: wf_announcement_def announcement_bytes_def signed_part_def)

lemma print_announce_fields:
  assumes "wf_packet p" and "wf_announcement cf a" and "p_payload p = announcement_bytes a"
    and "length (p_payload p) \<le> MAXBLOB"
  shows "print_announce (header_of p z) (announce_of cf a z) = print (announcement_fields p a)"
proof -
  have d: "length (p_destination p) = 16" using assms(1) by (simp add: wf_packet_def)
  have s: "length (signed_part (p_destination p) a) \<le> MAXBLOB" "signed_part (p_destination p) a \<noteq> []"
    using signed_part_length [OF assms(2) d] assms(3,4) d by (auto simp: signed_part_def)
  note asm = assemble_signed_part [OF assms, of z]
  show ?thesis
  proof (cases "cf = 1")
    case True
    then show ?thesis
      using assms(1,2) d s asm
      by (simp add: print_announce_def announce_of_def wf_announcement_def announcement_fields_def
          announced_destination_def Let_def hex_value_length hex_value_nonempty)
  next
    case False
    then show ?thesis
      using assms(1,2) d s asm
      by (simp add: print_announce_def announce_of_def wf_announcement_def announcement_fields_def
          announced_destination_def Let_def hex_value_length hex_value_nonempty hex_value_def [of "[]"])
  qed
qed

lemma decode_packet_payload: "decode_packet raw = Inr p \<Longrightarrow> length (p_payload p) \<le> length raw"
  by (auto simp: decode_packet_iff packet_bytes_def)

lemma dump_announce_fields:
  assumes "wf_blob (b ! 0)"
  shows "dump_announce b = print (announce_fields (contents (b ! 0)))"
proof (cases "decode_packet (contents (b ! 0))")
  case (Inl f)
  then show ?thesis
    using assms by (simp add: dump_announce_def parse_header_blob announce_fields_def)
next
  case (Inr p)
  then have p: "wf_packet p" by (simp add: decode_packet_iff)
  define cf where "cf = fl_context_flag (p_flags p)"
  have len: "length (p_payload p) \<le> MAXBLOB"
    using decode_packet_payload [OF Inr] contents_length [OF assms] wf_blob_len [OF assms] by simp
  show ?thesis
  proof (cases "decode_announcement cf (p_payload p)")
    case (Inl f)
    then show ?thesis
      using assms Inr
      by (simp add: dump_announce_def parse_header_blob announce_fields_def parse_announce_refines flip: cf_def)
  next
    case a: (Inr a)
    then have wf: "wf_announcement cf a" "p_payload p = announcement_bytes a"
      by (simp_all add: ann.dec_iff)
    show ?thesis
      using assms Inr a print_announce_fields [OF p wf len]
      by (simp add: dump_announce_def parse_header_blob announce_fields_def parse_announce_refines flip: cf_def)
  qed
qed

end
