(* ===== verification/Aes.thy ===== *)
theory Aes
  imports Prelude
begin

text \<open>
  cmd/aes.c: AES decryption in CBC mode and the removal of PKCS7 padding. A state is the list of
  its sixteen bytes, column by column, and an expanded key the list \<open>rk\<close>. The file has no
  encryption; the FIPS 197 cipher is stated beside it (\<open>encrypt_block\<close>), and the theorems say
  that the code's decryption undoes it: for a block, in CBC mode under the interface
  \<open>block_cipher\<close>, and through the padding.
\<close>

section \<open>The code: tables and field arithmetic\<close>

definition sbox :: "byte list" where
  "sbox =
  [0x63, 0x7c, 0x77, 0x7b, 0xf2, 0x6b, 0x6f, 0xc5, 0x30, 0x01, 0x67, 0x2b, 0xfe, 0xd7, 0xab, 0x76,
   0xca, 0x82, 0xc9, 0x7d, 0xfa, 0x59, 0x47, 0xf0, 0xad, 0xd4, 0xa2, 0xaf, 0x9c, 0xa4, 0x72, 0xc0,
   0xb7, 0xfd, 0x93, 0x26, 0x36, 0x3f, 0xf7, 0xcc, 0x34, 0xa5, 0xe5, 0xf1, 0x71, 0xd8, 0x31, 0x15,
   0x04, 0xc7, 0x23, 0xc3, 0x18, 0x96, 0x05, 0x9a, 0x07, 0x12, 0x80, 0xe2, 0xeb, 0x27, 0xb2, 0x75,
   0x09, 0x83, 0x2c, 0x1a, 0x1b, 0x6e, 0x5a, 0xa0, 0x52, 0x3b, 0xd6, 0xb3, 0x29, 0xe3, 0x2f, 0x84,
   0x53, 0xd1, 0x00, 0xed, 0x20, 0xfc, 0xb1, 0x5b, 0x6a, 0xcb, 0xbe, 0x39, 0x4a, 0x4c, 0x58, 0xcf,
   0xd0, 0xef, 0xaa, 0xfb, 0x43, 0x4d, 0x33, 0x85, 0x45, 0xf9, 0x02, 0x7f, 0x50, 0x3c, 0x9f, 0xa8,
   0x51, 0xa3, 0x40, 0x8f, 0x92, 0x9d, 0x38, 0xf5, 0xbc, 0xb6, 0xda, 0x21, 0x10, 0xff, 0xf3, 0xd2,
   0xcd, 0x0c, 0x13, 0xec, 0x5f, 0x97, 0x44, 0x17, 0xc4, 0xa7, 0x7e, 0x3d, 0x64, 0x5d, 0x19, 0x73,
   0x60, 0x81, 0x4f, 0xdc, 0x22, 0x2a, 0x90, 0x88, 0x46, 0xee, 0xb8, 0x14, 0xde, 0x5e, 0x0b, 0xdb,
   0xe0, 0x32, 0x3a, 0x0a, 0x49, 0x06, 0x24, 0x5c, 0xc2, 0xd3, 0xac, 0x62, 0x91, 0x95, 0xe4, 0x79,
   0xe7, 0xc8, 0x37, 0x6d, 0x8d, 0xd5, 0x4e, 0xa9, 0x6c, 0x56, 0xf4, 0xea, 0x65, 0x7a, 0xae, 0x08,
   0xba, 0x78, 0x25, 0x2e, 0x1c, 0xa6, 0xb4, 0xc6, 0xe8, 0xdd, 0x74, 0x1f, 0x4b, 0xbd, 0x8b, 0x8a,
   0x70, 0x3e, 0xb5, 0x66, 0x48, 0x03, 0xf6, 0x0e, 0x61, 0x35, 0x57, 0xb9, 0x86, 0xc1, 0x1d, 0x9e,
   0xe1, 0xf8, 0x98, 0x11, 0x69, 0xd9, 0x8e, 0x94, 0x9b, 0x1e, 0x87, 0xe9, 0xce, 0x55, 0x28, 0xdf,
   0x8c, 0xa1, 0x89, 0x0d, 0xbf, 0xe6, 0x42, 0x68, 0x41, 0x99, 0x2d, 0x0f, 0xb0, 0x54, 0xbb, 0x16]"

definition rsbox :: "byte list" where
  "rsbox =
  [0x52, 0x09, 0x6a, 0xd5, 0x30, 0x36, 0xa5, 0x38, 0xbf, 0x40, 0xa3, 0x9e, 0x81, 0xf3, 0xd7, 0xfb,
   0x7c, 0xe3, 0x39, 0x82, 0x9b, 0x2f, 0xff, 0x87, 0x34, 0x8e, 0x43, 0x44, 0xc4, 0xde, 0xe9, 0xcb,
   0x54, 0x7b, 0x94, 0x32, 0xa6, 0xc2, 0x23, 0x3d, 0xee, 0x4c, 0x95, 0x0b, 0x42, 0xfa, 0xc3, 0x4e,
   0x08, 0x2e, 0xa1, 0x66, 0x28, 0xd9, 0x24, 0xb2, 0x76, 0x5b, 0xa2, 0x49, 0x6d, 0x8b, 0xd1, 0x25,
   0x72, 0xf8, 0xf6, 0x64, 0x86, 0x68, 0x98, 0x16, 0xd4, 0xa4, 0x5c, 0xcc, 0x5d, 0x65, 0xb6, 0x92,
   0x6c, 0x70, 0x48, 0x50, 0xfd, 0xed, 0xb9, 0xda, 0x5e, 0x15, 0x46, 0x57, 0xa7, 0x8d, 0x9d, 0x84,
   0x90, 0xd8, 0xab, 0x00, 0x8c, 0xbc, 0xd3, 0x0a, 0xf7, 0xe4, 0x58, 0x05, 0xb8, 0xb3, 0x45, 0x06,
   0xd0, 0x2c, 0x1e, 0x8f, 0xca, 0x3f, 0x0f, 0x02, 0xc1, 0xaf, 0xbd, 0x03, 0x01, 0x13, 0x8a, 0x6b,
   0x3a, 0x91, 0x11, 0x41, 0x4f, 0x67, 0xdc, 0xea, 0x97, 0xf2, 0xcf, 0xce, 0xf0, 0xb4, 0xe6, 0x73,
   0x96, 0xac, 0x74, 0x22, 0xe7, 0xad, 0x35, 0x85, 0xe2, 0xf9, 0x37, 0xe8, 0x1c, 0x75, 0xdf, 0x6e,
   0x47, 0xf1, 0x1a, 0x71, 0x1d, 0x29, 0xc5, 0x89, 0x6f, 0xb7, 0x62, 0x0e, 0xaa, 0x18, 0xbe, 0x1b,
   0xfc, 0x56, 0x3e, 0x4b, 0xc6, 0xd2, 0x79, 0x20, 0x9a, 0xdb, 0xc0, 0xfe, 0x78, 0xcd, 0x5a, 0xf4,
   0x1f, 0xdd, 0xa8, 0x33, 0x88, 0x07, 0xc7, 0x31, 0xb1, 0x12, 0x10, 0x59, 0x27, 0x80, 0xec, 0x5f,
   0x60, 0x51, 0x7f, 0xa9, 0x19, 0xb5, 0x4a, 0x0d, 0x2d, 0xe5, 0x7a, 0x9f, 0x93, 0xc9, 0x9c, 0xef,
   0xa0, 0xe0, 0x3b, 0x4d, 0xae, 0x2a, 0xf5, 0xb0, 0xc8, 0xeb, 0xbb, 0x3c, 0x83, 0x53, 0x99, 0x61,
   0x17, 0x2b, 0x04, 0x7e, 0xba, 0x77, 0xd6, 0x26, 0xe1, 0x69, 0x14, 0x63, 0x55, 0x21, 0x0c, 0x7d]"

definition rcon :: "byte list" where
  "rcon = [0x8d, 0x01, 0x02, 0x04, 0x08, 0x10, 0x20, 0x40, 0x80, 0x1b, 0x36]"

definition xtime :: "byte \<Rightarrow> byte" where
  "xtime x = push_bit 1 x XOR ((drop_bit 7 x AND 1) * 0x1b)"

primrec mul_loop :: "nat \<Rightarrow> byte \<Rightarrow> byte \<Rightarrow> byte \<Rightarrow> byte" where
  "mul_loop 0 r x y = r"
| "mul_loop (Suc n) r x y =
     mul_loop n (if y AND 1 \<noteq> 0 then r XOR x else r) (xtime x) (drop_bit 1 y)"

definition mul :: "byte \<Rightarrow> byte \<Rightarrow> byte" where
  "mul x y = mul_loop 8 0 x y"

section \<open>The code: key expansion\<close>

definition sub :: "byte \<Rightarrow> byte" where
  "sub x = sbox ! unat x"

definition expand_step :: "nat \<Rightarrow> bytes \<Rightarrow> nat \<Rightarrow> bytes" where
  "expand_step nk rk i =
    (let t = map (\<lambda>j. rk ! ((i - 1) * 4 + j)) [0..<4];
         t' = (if i mod nk = 0 then
                 [sub (t ! 1) XOR rcon ! (i div nk), sub (t ! 2), sub (t ! 3), sub (t ! 0)]
               else if nk > 6 \<and> i mod nk = 4 then map sub t
               else t)
     in rk @ map (\<lambda>j. rk ! ((i - nk) * 4 + j) XOR t' ! j) [0..<4])"

definition expand_key :: "bytes \<Rightarrow> nat \<Rightarrow> nat \<Rightarrow> bytes" where
  "expand_key key nk nr = foldl (expand_step nk) (take (nk * 4) key) [nk..<4 * (nr + 1)]"

section \<open>The code: a block\<close>

definition add_round_key :: "bytes \<Rightarrow> nat \<Rightarrow> bytes \<Rightarrow> bytes" where
  "add_round_key rk round s = map (\<lambda>i. s ! i XOR rk ! (round * 16 + i)) [0..<16]"

definition inv_sub_bytes :: "bytes \<Rightarrow> bytes" where
  "inv_sub_bytes s = map (\<lambda>x. rsbox ! unat x) s"

definition inv_shift_rows :: "bytes \<Rightarrow> bytes" where
  "inv_shift_rows s =
    [s ! 0, s ! 13, s ! 10, s ! 7,
     s ! 4, s ! 1, s ! 14, s ! 11,
     s ! 8, s ! 5, s ! 2, s ! 15,
     s ! 12, s ! 9, s ! 6, s ! 3]"

definition inv_mix_column :: "byte \<Rightarrow> byte \<Rightarrow> byte \<Rightarrow> byte \<Rightarrow> bytes" where
  "inv_mix_column a b d e =
    [mul a 0x0e XOR mul b 0x0b XOR mul d 0x0d XOR mul e 0x09,
     mul a 0x09 XOR mul b 0x0e XOR mul d 0x0b XOR mul e 0x0d,
     mul a 0x0d XOR mul b 0x09 XOR mul d 0x0e XOR mul e 0x0b,
     mul a 0x0b XOR mul b 0x0d XOR mul d 0x09 XOR mul e 0x0e]"

definition inv_mix_columns :: "bytes \<Rightarrow> bytes" where
  "inv_mix_columns s =
    concat (map (\<lambda>c. inv_mix_column (s ! (c * 4)) (s ! (c * 4 + 1)) (s ! (c * 4 + 2)) (s ! (c * 4 + 3)))
      [0..<4])"

definition decrypt_round :: "bytes \<Rightarrow> bytes \<Rightarrow> nat \<Rightarrow> bytes" where
  "decrypt_round rk s round =
     inv_mix_columns (add_round_key rk round (inv_sub_bytes (inv_shift_rows s)))"

definition decrypt_block :: "bytes \<Rightarrow> nat \<Rightarrow> bytes \<Rightarrow> bytes" where
  "decrypt_block rk nr s =
    (let s1 = add_round_key rk nr s;
         s2 = foldl (decrypt_round rk) s1 (rev [1..<nr])
     in add_round_key rk 0 (inv_sub_bytes (inv_shift_rows s2)))"

section \<open>The code: CBC and padding\<close>

definition xor_bytes :: "bytes \<Rightarrow> bytes \<Rightarrow> bytes" where
  "xor_bytes a b = map2 (XOR) a b"

fun cbc_loop :: "(bytes \<Rightarrow> bytes) \<Rightarrow> bytes \<Rightarrow> bytes list \<Rightarrow> bytes" where
  "cbc_loop D chain [] = []"
| "cbc_loop D chain (block # blocks) = xor_bytes (D block) chain @ cbc_loop D block blocks"

text \<open>A return of \<open>-1\<close> is \<open>None\<close>, a return of \<open>0\<close> is \<open>Some\<close> of what was written.\<close>

definition aes_cbc_decrypt :: "bytes \<Rightarrow> bytes \<Rightarrow> bytes \<Rightarrow> bytes option" where
  "aes_cbc_decrypt key iv inp =
    (if inp = [] \<or> length inp mod 16 \<noteq> 0 then None
     else if length key \<noteq> 16 \<and> length key \<noteq> 32 then None
     else let nk = length key div 4; nr = nk + 6; rk = expand_key key nk nr
          in Some (cbc_loop (decrypt_block rk nr) iv (chunks 16 inp)))"

definition pkcs7_unpad :: "bytes \<Rightarrow> nat option" where
  "pkcs7_unpad inp =
    (if inp = [] \<or> length inp mod 16 \<noteq> 0 then None
     else let n = unat (last inp)
          in if n > 16 then None else Some (length inp - n))"

section \<open>The standard: the forward cipher\<close>

definition sub_bytes :: "bytes \<Rightarrow> bytes" where
  "sub_bytes s = map sub s"

definition shift_rows :: "bytes \<Rightarrow> bytes" where
  "shift_rows s =
    [s ! 0, s ! 5, s ! 10, s ! 15,
     s ! 4, s ! 9, s ! 14, s ! 3,
     s ! 8, s ! 13, s ! 2, s ! 7,
     s ! 12, s ! 1, s ! 6, s ! 11]"

definition mix_column :: "byte \<Rightarrow> byte \<Rightarrow> byte \<Rightarrow> byte \<Rightarrow> bytes" where
  "mix_column a b d e =
    [mul a 2 XOR mul b 3 XOR d XOR e,
     a XOR mul b 2 XOR mul d 3 XOR e,
     a XOR b XOR mul d 2 XOR mul e 3,
     mul a 3 XOR b XOR d XOR mul e 2]"

definition mix_columns :: "bytes \<Rightarrow> bytes" where
  "mix_columns s =
    concat (map (\<lambda>c. mix_column (s ! (c * 4)) (s ! (c * 4 + 1)) (s ! (c * 4 + 2)) (s ! (c * 4 + 3)))
      [0..<4])"

definition encrypt_round :: "bytes \<Rightarrow> bytes \<Rightarrow> nat \<Rightarrow> bytes" where
  "encrypt_round rk s round = add_round_key rk round (mix_columns (shift_rows (sub_bytes s)))"

definition encrypt_block :: "bytes \<Rightarrow> nat \<Rightarrow> bytes \<Rightarrow> bytes" where
  "encrypt_block rk nr s =
    (let s1 = add_round_key rk 0 s;
         s2 = foldl (encrypt_round rk) s1 [1..<nr]
     in add_round_key rk nr (shift_rows (sub_bytes s2)))"

fun cbc_encrypt :: "(bytes \<Rightarrow> bytes) \<Rightarrow> bytes \<Rightarrow> bytes list \<Rightarrow> bytes" where
  "cbc_encrypt E chain [] = []"
| "cbc_encrypt E chain (block # blocks) =
    (let c = E (xor_bytes block chain) in c @ cbc_encrypt E c blocks)"

definition pkcs7_pad :: "bytes \<Rightarrow> bytes" where
  "pkcs7_pad m = (let n = 16 - length m mod 16 in m @ replicate n (of_nat n))"

definition aes_cbc_encrypt :: "bytes \<Rightarrow> bytes \<Rightarrow> bytes \<Rightarrow> bytes" where
  "aes_cbc_encrypt key iv m =
    (let nk = length key div 4; nr = nk + 6; rk = expand_key key nk nr
     in cbc_encrypt (encrypt_block rk nr) iv (chunks 16 (pkcs7_pad m)))"

section \<open>Sixteen bytes\<close>

lemma upt_0_16: "[0..<16] = [0, 1, 2, 3, 4, 5, 6, 7, 8, 9, 10, 11, 12, 13, 14, 15::nat]"
  by (simp add: upt_rec)

lemma upt_0_4: "[0..<4] = [0, 1, 2, 3::nat]"
  by (simp add: upt_rec)

lemma list16E:
  assumes "length s = 16"
  obtains a0 a1 a2 a3 a4 a5 a6 a7 a8 a9 a10 a11 a12 a13 a14 a15
  where "s = [a0, a1, a2, a3, a4, a5, a6, a7, a8, a9, a10, a11, a12, a13, a14, a15]"
proof -
  have "s = map (\<lambda>i. s ! i) [0..<16]"
    using assms map_nth [of s] by simp
  then show ?thesis
    using that unfolding upt_0_16 by simp
qed

lemma length_16_simps [simp]:
  "length (add_round_key rk r s) = 16" "length (inv_shift_rows s) = 16"
  "length (shift_rows s) = 16" "length (inv_mix_columns s) = 16" "length (mix_columns s) = 16"
  by (simp_all add: add_round_key_def inv_shift_rows_def shift_rows_def inv_mix_columns_def
      mix_columns_def inv_mix_column_def mix_column_def upt_0_4)

lemma length_sub_bytes [simp]:
  "length (inv_sub_bytes s) = length s" "length (sub_bytes s) = length s"
  by (simp_all add: inv_sub_bytes_def sub_bytes_def)

section \<open>Each layer of the cipher is undone\<close>

lemma xor_cancel: "x XOR (x XOR y) = (y :: byte)"
  by (simp flip: xor.assoc)

lemmas xor_ac = xor.assoc xor.left_commute xor.commute

lemma xtime_if: "xtime x = push_bit 1 x XOR (if bit x 7 then 0x1b else 0)"
proof -
  have "drop_bit 7 x AND 1 = of_bool (bit x 7)"
    by (simp add: and_one_eq bit_iff_odd_drop_bit odd_iff_mod_2_eq_one)
  then show ?thesis by (simp add: xtime_def)
qed

text \<open>Doubling is linear, so multiplication by each constant the code uses is a sum of
  doublings, and the two column transformations cancel without reducing further.\<close>

lemma xtime_xor: "xtime (x XOR y) = xtime x XOR xtime y"
  by (auto simp: xtime_if bit_xor_iff xor_ac xor_cancel)

lemma mul_loop_numeral:
  "mul_loop (numeral n) r x y =
     mul_loop (pred_numeral n) (if odd y then r XOR x else r) (xtime x) (y div 2)"
  by (simp add: numeral_eq_Suc and_one_eq drop_bit_Suc odd_iff_mod_2_eq_one)

lemma mul_loop_0: "mul_loop n r x 0 = r"
  by (induction n arbitrary: x) simp_all

lemma mul_consts:
  "mul x 2 = xtime x"
  "mul x 3 = x XOR xtime x"
  "mul x 9 = x XOR xtime (xtime (xtime x))"
  "mul x 0x0b = x XOR xtime x XOR xtime (xtime (xtime x))"
  "mul x 0x0d = x XOR xtime (xtime x) XOR xtime (xtime (xtime x))"
  "mul x 0x0e = xtime x XOR xtime (xtime x) XOR xtime (xtime (xtime x))"
  by (simp_all add: mul_def mul_loop_numeral mul_loop_0 xor.assoc)

lemma inv_mix_column_mix:
  "inv_mix_column (mul a 2 XOR mul b 3 XOR d XOR e) (a XOR mul b 2 XOR mul d 3 XOR e)
     (a XOR b XOR mul d 2 XOR mul e 3) (mul a 3 XOR b XOR d XOR mul e 2) = [a, b, d, e]"
  by (simp add: inv_mix_column_def mul_consts xtime_xor xor_ac xor_cancel)

lemma inv_mix_columns_mix: "length s = 16 \<Longrightarrow> inv_mix_columns (mix_columns s) = s"
  by (elim list16E)
     (simp add: mix_columns_def inv_mix_columns_def upt_0_4 mix_column_def inv_mix_column_mix)

lemma rsbox_sbox: "map (\<lambda>y. rsbox ! unat y) sbox = map of_nat [0..<256]"
  by code_simp

lemma sbox_length: "length sbox = 256"
  by (simp add: sbox_def)

lemma inv_sub: "rsbox ! unat (sub x) = x"
proof -
  have x: "unat x < 256" by simp
  have "rsbox ! unat (sbox ! unat x) = map (\<lambda>y. rsbox ! unat y) sbox ! unat x"
    using x by (simp add: sbox_length)
  also have "\<dots> = x"
    unfolding rsbox_sbox using x by (simp del: unat_byte_less)
  finally show ?thesis by (simp add: sub_def)
qed

lemma inv_sub_bytes_sub [simp]: "inv_sub_bytes (sub_bytes s) = s"
  by (simp add: inv_sub_bytes_def sub_bytes_def inv_sub comp_def)

lemma inv_shift_rows_shift [simp]: "length s = 16 \<Longrightarrow> inv_shift_rows (shift_rows s) = s"
  by (elim list16E) (simp add: inv_shift_rows_def shift_rows_def)

lemma add_round_key_twice [simp]:
  "length s = 16 \<Longrightarrow> add_round_key rk r (add_round_key rk r s) = s"
  by (elim list16E) (simp add: add_round_key_def upt_0_16 xor.assoc)

lemma decrypt_round_encrypt:
  assumes "length s = 16"
  shows "inv_sub_bytes (inv_shift_rows (inv_mix_columns (add_round_key rk r (encrypt_round rk s r)))) = s"
  using assms by (simp add: encrypt_round_def inv_mix_columns_mix)

lemma encrypt_rounds_length [simp]:
  "length s = 16 \<Longrightarrow> length (foldl (encrypt_round rk) s rs) = 16"
  by (induction rs arbitrary: s) (simp_all add: encrypt_round_def)

text \<open>The code runs the layers of a round in the order of the inverse cipher, so the state
  between rounds is the encryption's state with its substitution and shift applied.\<close>

lemma decrypt_rounds:
  assumes "length s = 16"
  shows "foldl (decrypt_round rk) (shift_rows (sub_bytes (foldl (encrypt_round rk) s rs))) (rev rs)
    = shift_rows (sub_bytes s)"
  using assms
proof (induction rs arbitrary: s rule: rev_induct)
  case Nil
  then show ?case by simp
next
  case (snoc r rs)
  define u where "u = foldl (encrypt_round rk) s rs"
  have u: "length u = 16" using snoc.prems by (simp add: u_def)
  have "decrypt_round rk (shift_rows (sub_bytes (encrypt_round rk u r))) r = shift_rows (sub_bytes u)"
    using u by (simp add: decrypt_round_def encrypt_round_def inv_mix_columns_mix)
  then show ?case
    using snoc by (simp add: u_def)
qed

lemma decrypt_encrypt_block:
  assumes "length s = 16"
  shows "decrypt_block rk nr (encrypt_block rk nr s) = s"
  using assms by (simp add: decrypt_block_def encrypt_block_def Let_def decrypt_rounds)

lemma encrypt_block_length [simp]: "length (encrypt_block rk nr s) = 16"
  by (simp add: encrypt_block_def Let_def)

lemma decrypt_block_length [simp]: "length (decrypt_block rk nr s) = 16"
  by (simp add: decrypt_block_def Let_def)

section \<open>CBC over any block cipher\<close>

locale block_cipher =
  fixes E D :: "bytes \<Rightarrow> bytes"
  assumes E_length: "length b = 16 \<Longrightarrow> length (E b) = 16"
    and D_length: "length b = 16 \<Longrightarrow> length (D b) = 16"
    and D_E: "length b = 16 \<Longrightarrow> D (E b) = b"
begin

lemma xor_bytes_length [simp]: "length (xor_bytes a b) = min (length a) (length b)"
  by (simp add: xor_bytes_def)

lemma cbc_encrypt_length:
  "\<lbrakk>length iv = 16; \<forall>b \<in> set bs. length b = 16\<rbrakk> \<Longrightarrow> length (cbc_encrypt E iv bs) = 16 * length bs"
  by (induction bs arbitrary: iv) (simp_all add: Let_def E_length)

lemma cbc_loop_length:
  "\<lbrakk>length iv = 16; \<forall>b \<in> set bs. length b = 16\<rbrakk> \<Longrightarrow> length (cbc_loop D iv bs) = 16 * length bs"
  by (induction bs arbitrary: iv) (simp_all add: D_length)

lemma xor_bytes_twice: "length a = length b \<Longrightarrow> xor_bytes (xor_bytes a b) b = a"
  by (induction a b rule: list_induct2) (simp_all add: xor_bytes_def xor.assoc)

lemma cbc_decrypt_encrypt:
  "\<lbrakk>length iv = 16; \<forall>b \<in> set bs. length b = 16\<rbrakk>
   \<Longrightarrow> cbc_loop D iv (chunks 16 (cbc_encrypt E iv bs)) = concat bs"
proof (induction bs arbitrary: iv)
  case Nil
  then show ?case by simp
next
  case (Cons b bs)
  define c where "c = E (xor_bytes b iv)"
  have c: "length c = 16"
    using Cons.prems by (simp add: c_def E_length xor_bytes_def)
  have "D c = xor_bytes b iv"
    using Cons.prems by (simp add: c_def D_E xor_bytes_def)
  moreover have "chunks 16 (c @ cbc_encrypt E c bs) = c # chunks 16 (cbc_encrypt E c bs)"
    using c by (simp add: chunks_step)
  ultimately show ?case
    using Cons c by (simp add: Let_def xor_bytes_twice flip: c_def)
qed

end

interpretation aes: block_cipher "encrypt_block rk nr" "decrypt_block rk nr" for rk nr
  by unfold_locales (simp_all add: decrypt_encrypt_block)

section \<open>Padding, and a whole message\<close>

lemma pkcs7_pad_length: "16 dvd length (pkcs7_pad m)" "pkcs7_pad m \<noteq> []"
proof -
  have "(n::nat) + (16 - n mod 16) = 16 * (n div 16 + 1)" for n
    using div_mult_mod_eq [of n 16] mod_less_divisor [of 16 n] by arith
  from this [of "length m"] show "16 dvd length (pkcs7_pad m)"
    by (simp only: pkcs7_pad_def Let_def length_append length_replicate dvd_triv_left)
  show "pkcs7_pad m \<noteq> []"
    using mod_less_divisor [of 16 "length m"] by (simp add: pkcs7_pad_def Let_def)
qed

lemma pkcs7_unpad_pad:
  "pkcs7_unpad (pkcs7_pad m) = Some (length m) \<and> take (length m) (pkcs7_pad m) = m"
proof -
  define n where "n = 16 - length m mod 16"
  have n: "0 < n" "n \<le> 16" by (simp_all add: n_def)
  have pad: "pkcs7_pad m = m @ replicate n (of_nat n)"
    by (simp add: pkcs7_pad_def n_def Let_def)
  have "last (pkcs7_pad m) = of_nat n"
    using n by (simp add: pad)
  moreover have "unat (of_nat n :: byte) = n"
    using n by (simp add: unat_of_nat)
  ultimately have "pkcs7_unpad (pkcs7_pad m) = Some (length (pkcs7_pad m) - n)"
    using pkcs7_pad_length [of m] n by (simp add: pkcs7_unpad_def Let_def mod_eq_0_iff_dvd)
  then show ?thesis by (simp add: pad)
qed

lemma aes_cbc_encrypt_length: "length iv = 16 \<Longrightarrow> length (aes_cbc_encrypt key iv m) = length (pkcs7_pad m)"
  using chunks_lengths [of 16 "pkcs7_pad m"] chunks_count [of 16 "pkcs7_pad m"] pkcs7_pad_length [of m]
  by (simp add: aes_cbc_encrypt_def Let_def aes.cbc_encrypt_length)

lemma aes_cbc_decrypt_encrypt:
  assumes "length key = 16 \<or> length key = 32" and "length iv = 16"
  shows "aes_cbc_decrypt key iv (aes_cbc_encrypt key iv m) = Some (pkcs7_pad m)"
proof -
  have b: "\<forall>b \<in> set (chunks 16 (pkcs7_pad m)). length b = 16"
    using pkcs7_pad_length chunks_lengths [of 16 "pkcs7_pad m"] by simp
  have len: "length (aes_cbc_encrypt key iv m) = length (pkcs7_pad m)"
    using assms(2) by (rule aes_cbc_encrypt_length)
  moreover have "aes_cbc_encrypt key iv m \<noteq> []"
    using len pkcs7_pad_length(2) [of m] by (metis length_0_conv)
  moreover have "length (aes_cbc_encrypt key iv m) mod 16 = 0"
    using len pkcs7_pad_length(1) [of m] by simp
  ultimately show ?thesis
    using assms aes.cbc_decrypt_encrypt [OF assms(2) b]
    by (auto simp: aes_cbc_decrypt_def aes_cbc_encrypt_def Let_def)
qed

lemma aes_cbc_decrypt_length:
  assumes "aes_cbc_decrypt key iv c = Some p" and "length iv = 16"
  shows "length p = length c"
proof -
  obtain rk nr where c: "16 dvd length c" and p: "p = cbc_loop (decrypt_block rk nr) iv (chunks 16 c)"
    using assms(1) by (auto simp: aes_cbc_decrypt_def Let_def mod_eq_0_iff_dvd split: if_splits)
  show ?thesis
    using p c chunks_lengths [of 16 c] aes.cbc_loop_length [OF assms(2), of "chunks 16 c"]
      chunks_count [of 16 c] by simp
qed

lemma pkcs7_unpad_bound: "pkcs7_unpad p = Some n \<Longrightarrow> n \<le> length p \<and> length p - n \<le> 16"
  by (auto simp: pkcs7_unpad_def Let_def split: if_splits)

end
