(* ===== verification/Token.thy ===== *)
theory Token
  imports Wire Aes
begin

text \<open>
  Encrypted payloads of cmd/dump.c: opening a token (\<open>token_open\<close>), the fields it prints and
  the two kinds that hold one, \<open>encrypted\<close> and \<open>group\<close>. The abstract side is the token scheme:
  sealing a plaintext under a key, over any MAC and any padded cipher, and opening it again.
\<close>

section \<open>The code: tokens\<close>

abbreviation (input) IVLEN :: nat where "IVLEN \<equiv> 16"
abbreviation (input) MACLEN :: nat where "MACLEN \<equiv> 32"
abbreviation (input) TOKEN_OVERHEAD :: nat where "TOKEN_OVERHEAD \<equiv> 48"
abbreviation (input) DERIVEDLEN :: nat where "DERIVEDLEN \<equiv> 64"

text \<open>\<open>t_plain\<close> is not written before the ciphertext is decrypted; it is empty until then.\<close>

record token =
  t_iv :: bytes
  t_ciphertext :: bytes
  t_mac :: bytes
  t_ctlen :: nat
  t_ptlen :: nat
  t_plain :: bytes
  t_mac_ok :: bool
  t_opened :: bool
  t_keyed :: bool

text \<open>The callers have checked that \<open>len\<close> is at least \<open>TOKEN_OVERHEAD\<close>. A key of \<open>NULL\<close> is
  \<open>None\<close>.\<close>

definition token_open :: "bytes \<Rightarrow> nat \<Rightarrow> bytes option \<Rightarrow> nat \<Rightarrow> token prog" where
  "token_open p len key keylen =
    (let half = keylen div 2;
         t = \<lparr>t_iv = p, t_ciphertext = drop IVLEN p, t_mac = drop (len - MACLEN) p,
              t_ctlen = len - TOKEN_OVERHEAD, t_ptlen = 0, t_plain = [],
              t_mac_ok = False, t_opened = False, t_keyed = (key \<noteq> None)\<rparr>
     in case key of None \<Rightarrow> ret t
     | Some k \<Rightarrow>
         andthen (append_from MAXBLOB [] (t_iv t) IVLEN) (\<lambda>s.
         andthen (append_from MAXBLOB s (t_ciphertext t) (t_ctlen t)) (\<lambda>signed_part.
         andthen (load k half) (\<lambda>mac_key.
         andthen (hmac_sha256 mac_key signed_part) (\<lambda>expected.
         andthen (load (t_mac t) MACLEN) (\<lambda>mac.
           let t = t\<lparr>t_mac_ok := (mac = expected)\<rparr>
           in if t_mac_ok t \<and> t_ctlen t > 0 \<and> t_ctlen t mod 16 = 0 then
                andthen (load (drop half k) half) (\<lambda>cipher_key.
                andthen (load (t_iv t) IVLEN) (\<lambda>iv.
                andthen (load (t_ciphertext t) (t_ctlen t)) (\<lambda>ct.
                  case aes_cbc_decrypt cipher_key iv ct of
                    None \<Rightarrow> ret t
                  | Some plain \<Rightarrow> (case pkcs7_unpad plain of
                      None \<Rightarrow> ret (t\<lparr>t_plain := plain\<rparr>)
                    | Some n \<Rightarrow> ret (t\<lparr>t_plain := plain, t_ptlen := n, t_opened := True\<rparr>)))))
              else ret t))))))"

definition print_token :: "token \<Rightarrow> unit prog" where
  "print_token t = seq
    [field_hex ''iv'' (t_iv t) IVLEN,
     field_hex ''ciphertext'' (t_ciphertext t) (t_ctlen t),
     field_hex ''hmac'' (t_mac t) MACLEN]"

definition print_keys :: "bytes option \<Rightarrow> bytes \<Rightarrow> unit prog" where
  "print_keys shared derived =
    (case shared of
       None \<Rightarrow> seq [field ''shared_key'' ''-'', field ''signing_key'' ''-'', field ''encryption_key'' ''-'']
     | Some s \<Rightarrow> seq
        [field_hex ''shared_key'' s KEYHALF,
         field_hex ''signing_key'' derived MACLEN,
         field_hex ''encryption_key'' (drop MACLEN derived) MACLEN])"

definition print_plaintext :: "token \<Rightarrow> unit prog" where
  "print_plaintext t =
    (if \<not> t_keyed t then
       seq [field ''hmac_valid'' ''-'', field ''plaintext_length'' ''-'', field ''plaintext'' ''-'']
     else andthen (field ''hmac_valid'' (yesno (t_mac_ok t))) (\<lambda>_.
       if \<not> t_opened t then seq [field ''plaintext_length'' ''-'', field ''plaintext'' ''-'']
       else seq [field ''plaintext_length'' (dec (t_ptlen t)),
                 field_hex ''plaintext'' (t_plain t) (t_ptlen t)]))"

section \<open>The code: encrypted and group\<close>

text \<open>\<open>derived\<close> is written only when the keys agree.\<close>

definition dump_encrypted :: "blob list \<Rightarrow> unit prog" where
  "dump_encrypted b =
    (if blen (b ! 0) \<noteq> KEYSIZE then
       fatal (''encrypted: private key is '' @ dec (blen (b ! 0)) @ '' bytes, expected '' @ dec KEYSIZE)
     else if \<not> absent (b ! 1) \<and> blen (b ! 1) \<noteq> KEYHALF then
       fatal (''encrypted: ratchet key is '' @ dec (blen (b ! 1)) @ '' bytes, expected '' @ dec KEYHALF)
     else
       andthen (field_blob ''recipient_private'' (b ! 0)) (\<lambda>_.
       andthen (field_blob ''ratchet_private'' (b ! 1)) (\<lambda>_.
       andthen (open_packet (b ! 2)) (\<lambda>r. case r of None \<Rightarrow> ret ()
       | Some h \<Rightarrow>
         if h_payload_len h < KEYHALF + TOKEN_OVERHEAD then
           invalid ''short-payload'' ''payload_length'' (h_payload_len h)
             ''minimum_length'' (KEYHALF + TOKEN_OVERHEAD)
         else
           let ephemeral = h_payload h
           in andthen (load (bdata (b ! 0)) KEYHALF) (\<lambda>x.
              andthen (load (drop KEYHALF (bdata (b ! 0))) KEYHALF) (\<lambda>seed.
              andthen (ed25519_public seed) (\<lambda>ed.
              let pub = crypto_scalarmult_base x @ ed;
                  identity_hash = truncated_hash pub ADDRLEN
              in andthen (if absent (b ! 1) then ret (x, [])
                   else andthen (load (bdata (b ! 1)) KEYHALF) (\<lambda>r. ret (r, crypto_scalarmult_base r)))
                   (\<lambda>(agree, ratchet_pub).
                 andthen (load ephemeral KEYHALF) (\<lambda>peer.
                 let (shared, agreed) = x25519_shared agree peer
                 in andthen (if agreed then hkdf_sha256 shared identity_hash [] DERIVEDLEN else ret [])
                      (\<lambda>derived.
                    andthen (token_open (drop KEYHALF (h_payload h)) (h_payload_len h - KEYHALF)
                               (if agreed then Some derived else None) DERIVEDLEN) (\<lambda>t.
                    seq
                      [print_header h,
                       field_hex ''ephemeral_public'' ephemeral KEYHALF,
                       print_token t,
                       field_hex ''identity_hash'' identity_hash ADDRLEN,
                       (if absent (b ! 1) then field ''ratchet_public'' ''-''
                        else field_hex ''ratchet_public'' ratchet_pub KEYHALF),
                       print_keys (if agreed then Some shared else None) derived,
                       print_plaintext t]))))))))))) "

definition dump_group :: "blob list \<Rightarrow> unit prog" where
  "dump_group b =
    (if blen (b ! 0) \<noteq> DERIVEDLEN \<and> blen (b ! 0) \<noteq> DERIVEDLEN div 2 then
       fatal (''group: group key is '' @ dec (blen (b ! 0)) @ '' bytes, expected '' @ dec DERIVEDLEN @
         '' or '' @ dec (DERIVEDLEN div 2))
     else
       let half = blen (b ! 0) div 2
       in andthen (field_blob ''group_key'' (b ! 0)) (\<lambda>_.
          andthen (open_packet (b ! 1)) (\<lambda>r. case r of None \<Rightarrow> ret ()
          | Some h \<Rightarrow>
            if h_payload_len h < TOKEN_OVERHEAD then
              invalid ''short-payload'' ''payload_length'' (h_payload_len h)
                ''minimum_length'' TOKEN_OVERHEAD
            else
              andthen (token_open (h_payload h) (h_payload_len h) (Some (bdata (b ! 0))) (blen (b ! 0)))
                (\<lambda>t. seq
                  [print_header h,
                   print_token t,
                   field_hex ''signing_key'' (bdata (b ! 0)) half,
                   field_hex ''encryption_key'' (drop half (bdata (b ! 0))) half,
                   print_plaintext t]))))"

section \<open>The token scheme\<close>

text \<open>A token is an initialisation vector, a ciphertext and the MAC of both.\<close>

locale token_scheme =
  fixes good :: "bytes \<Rightarrow> bool"
    and mac :: "bytes \<Rightarrow> bytes \<Rightarrow> bytes"
    and enc :: "bytes \<Rightarrow> bytes \<Rightarrow> bytes \<Rightarrow> bytes"
    and dec_ct :: "bytes \<Rightarrow> bytes \<Rightarrow> bytes \<Rightarrow> bytes option"
  assumes mac_length: "length (mac k d) = 32"
    and dec_enc: "good k \<Longrightarrow> length iv = 16 \<Longrightarrow> dec_ct k iv (enc k iv m) = Some m"
    and dec_size: "dec_ct k iv ct = Some m \<Longrightarrow> length iv = 16 \<Longrightarrow> length m \<le> length ct"
begin

definition seal :: "bytes \<Rightarrow> bytes \<Rightarrow> bytes \<Rightarrow> bytes" where
  "seal k iv m = (let body = iv @ enc k iv m in body @ mac k body)"

definition unseal :: "bytes \<Rightarrow> bytes \<Rightarrow> bytes option" where
  "unseal k bs =
    (let body = take (length bs - 32) bs in
     if length bs < 48 \<or> drop (length bs - 32) bs \<noteq> mac k body then None
     else dec_ct k (take 16 body) (drop 16 body))"

lemma seal_length: "length iv = 16 \<Longrightarrow> length (seal k iv m) = 48 + length (enc k iv m)"
  by (simp add: seal_def Let_def mac_length)

lemma unseal_seal: "good k \<Longrightarrow> length iv = 16 \<Longrightarrow> unseal k (seal k iv m) = Some m"
  by (simp add: unseal_def seal_def Let_def mac_length dec_enc)

text \<open>Only what carries the MAC of its body opens, to no more than the body.\<close>

lemma unseal_authentic:
  assumes "unseal k bs = Some m"
  shows "\<exists>body. bs = body @ mac k body \<and> 16 \<le> length body \<and> length m + 48 \<le> length bs"
proof -
  define body where "body = take (length bs - 32) bs"
  have l: "48 \<le> length bs" and mac: "drop (length bs - 32) bs = mac k body"
    and d: "dec_ct k (take 16 body) (drop 16 body) = Some m"
    using assms by (auto simp: unseal_def Let_def body_def split: if_splits)
  have lb: "length body = length bs - 32" by (simp add: body_def)
  then have "length m + 48 \<le> length bs"
    using l dec_size [OF d] by simp
  moreover have "16 \<le> length body"
    using l lb by simp
  moreover have "body @ drop (length bs - 32) bs = bs"
    by (simp add: body_def)
  then have "bs = body @ mac k body"
    by (simp only: mac)
  ultimately show ?thesis by blast
qed

end

text \<open>The code's scheme: the key splits in half, for HMAC-SHA256 and for AES in CBC mode with
  PKCS 7 padding.\<close>

definition mac_half :: "bytes \<Rightarrow> bytes" where
  "mac_half k = take (length k div 2) k"

definition cipher_half :: "bytes \<Rightarrow> bytes" where
  "cipher_half k = drop (length k div 2) k"

definition token_key :: "bytes \<Rightarrow> bool" where
  "token_key k \<longleftrightarrow> length k = 32 \<or> length k = 64"

definition token_mac :: "bytes \<Rightarrow> bytes \<Rightarrow> bytes" where
  "token_mac k body = rfc_hmac sha256 (mac_half k) body"

definition token_decrypt :: "bytes \<Rightarrow> bytes \<Rightarrow> bytes \<Rightarrow> bytes option" where
  "token_decrypt k iv ct = (case aes_cbc_decrypt (cipher_half k) iv ct of
     None \<Rightarrow> None
   | Some p \<Rightarrow> (case pkcs7_unpad p of None \<Rightarrow> None | Some n \<Rightarrow> Some (take n p)))"

definition token_encrypt :: "bytes \<Rightarrow> bytes \<Rightarrow> bytes \<Rightarrow> bytes" where
  "token_encrypt k iv m = aes_cbc_encrypt (cipher_half k) iv m"

lemma token_mac_length [simp, len_simps]: "length (token_mac k d) = 32"
  by (simp add: token_mac_def)

lemma token_decrypt_encrypt:
  assumes "token_key k" and "length iv = 16"
  shows "token_decrypt k iv (token_encrypt k iv m) = Some m"
proof -
  have "length (cipher_half k) = 16 \<or> length (cipher_half k) = 32"
    using assms(1) by (auto simp: token_key_def cipher_half_def)
  then show ?thesis
    using aes_cbc_decrypt_encrypt [OF _ assms(2)] pkcs7_unpad_pad [of m]
    by (simp add: token_decrypt_def token_encrypt_def)
qed

lemma token_decrypt_size:
  "token_decrypt k iv ct = Some m \<Longrightarrow> length iv = 16 \<Longrightarrow> length m \<le> length ct"
  using aes_cbc_decrypt_length
  by (fastforce simp: token_decrypt_def split: option.splits)

interpretation tok: token_scheme token_key token_mac token_encrypt token_decrypt
  by unfold_locales (simp_all add: token_decrypt_encrypt token_decrypt_size)

section \<open>What the code makes of a token\<close>

definition token_valid :: "bytes \<Rightarrow> bytes \<Rightarrow> bool" where
  "token_valid k bs \<longleftrightarrow> drop (length bs - 32) bs = token_mac k (take (length bs - 32) bs)"

definition token_fields :: "bytes \<Rightarrow> line list" where
  "token_fields bs =
    [Field ''iv'' (hex_bytes (take 16 bs)),
     Field ''ciphertext'' (hex_value (take (length bs - 48) (drop 16 bs))),
     Field ''hmac'' (hex_bytes (drop (length bs - 32) bs))]"

definition plaintext_fields :: "bytes option \<Rightarrow> bytes \<Rightarrow> line list" where
  "plaintext_fields key bs =
    (case key of
       None \<Rightarrow> [Field ''hmac_valid'' ''-'', Field ''plaintext_length'' ''-'', Field ''plaintext'' ''-'']
     | Some k \<Rightarrow> Field ''hmac_valid'' (yesno (token_valid k bs)) #
        (case tok.unseal k bs of
           None \<Rightarrow> [Field ''plaintext_length'' ''-'', Field ''plaintext'' ''-'']
         | Some m \<Rightarrow> [Field ''plaintext_length'' (dec (length m)), Field ''plaintext'' (hex_value m)]))"

text \<open>The structure \<open>token_open\<close> fills in, for a token of exactly the bytes \<open>bs\<close>.\<close>

definition opens_as :: "token \<Rightarrow> bytes option \<Rightarrow> bytes \<Rightarrow> bytes \<Rightarrow> bool" where
  "opens_as t key bs z \<longleftrightarrow>
     t_iv t = bs @ z \<and> t_ciphertext t = drop 16 (bs @ z) \<and> t_mac t = drop (length bs - 32) (bs @ z) \<and>
     t_ctlen t = length bs - 48 \<and> t_keyed t = (key \<noteq> None) \<and>
     (case key of None \<Rightarrow> \<not> t_opened t
      | Some k \<Rightarrow> t_mac_ok t = token_valid k bs \<and>
         (case tok.unseal k bs of None \<Rightarrow> \<not> t_opened t
          | Some m \<Rightarrow> t_opened t \<and> t_ptlen t = length m \<and> length m \<le> length (t_plain t) \<and>
              take (length m) (t_plain t) = m))"

lemma unseal_cases:
  assumes "48 \<le> length bs"
  shows "tok.unseal k bs = (if token_valid k bs
    then token_decrypt k (take 16 bs) (take (length bs - 48) (drop 16 bs)) else None)"
proof -
  have "drop 16 (take (length bs - 32) bs) = take (length bs - 48) (drop 16 bs)"
    using assms by (simp add: drop_take)
  then show ?thesis
    using assms by (simp add: tok.unseal_def token_valid_def Let_def)
qed

lemma token_open_keyless:
  "\<exists>t. token_open (bs @ z) (length bs) None n = ret t \<and> opens_as t None bs z"
  unfolding token_open_def Let_def option.case by (rule exI, rule conjI, rule refl) (simp add: opens_as_def)

lemma token_body:
  assumes "48 \<le> length bs"
  shows "take 16 bs @ take (length bs - 48) (drop 16 bs) = take (length bs - 32) bs"
proof -
  have "length bs - 32 = 16 + (length bs - 48)" using assms by simp
  then show ?thesis by (simp only: take_add)
qed

lemma token_open_keyed:
  assumes bs: "48 \<le> length bs" "length bs \<le> MAXBLOB" and k: "token_key k"
  shows "\<exists>t. token_open (bs @ z) (length bs) (Some (k @ z')) (length k) = ret t \<and> opens_as t (Some k) bs z"
proof -
  define half where "half = length k div 2"
  have half: "half \<le> length k" "length k - half = half"
    using k by (auto simp: half_def token_key_def)
  define ct where "ct = take (length bs - 48) (drop 16 bs)"
  have ct: "length ct = length bs - 48" using bs by (simp add: ct_def)
  define t0 where "t0 = \<lparr>t_iv = bs @ z, t_ciphertext = drop 16 (bs @ z), t_mac = drop (length bs - 32) (bs @ z),
              t_ctlen = length bs - 48, t_ptlen = 0, t_plain = [],
              t_mac_ok = token_valid k bs, t_opened = False, t_keyed = True\<rparr>"
  define dec_step where "dec_step = (case aes_cbc_decrypt (cipher_half k) (take 16 bs) ct of
      None \<Rightarrow> t0 | Some plain \<Rightarrow> (case pkcs7_unpad plain of
        None \<Rightarrow> t0\<lparr>t_plain := plain\<rparr>
      | Some n \<Rightarrow> t0\<lparr>t_plain := plain, t_ptlen := n, t_opened := True\<rparr>))"
  define t where "t = (if token_valid k bs \<and> length bs > 48 \<and> (length bs - 48) mod 16 = 0 then dec_step else t0)"
  have ck: "cipher_half k = drop half k"
    by (simp add: cipher_half_def half_def)
  have mac: "hmac_sha256 (take half k) (take 16 bs @ take (length bs - 48) (drop 16 bs))
      = ret (token_mac k (take (length bs - 32) bs))"
    using bs by (simp add: token_body token_mac_def mac_half_def half_def HMAC_MAXMSG_def MAXBLOB_def)
  have "token_open (bs @ z) (length bs) (Some (k @ z')) (length k) = ret t"
  proof -
    have "take 32 (drop (length bs - 32) (bs @ z)) = drop (length bs - 32) bs"
      using bs by simp
    then show ?thesis
      using bs half unfolding token_open_def half_def [symmetric]
      by (simp add: Let_def mac ck t_def dec_step_def t0_def token_valid_def ct_def split: option.splits)
  qed
  moreover have "opens_as t (Some k) bs z"
  proof -
    have none: "aes_cbc_decrypt (cipher_half k) (take 16 bs) ct = None"
      if "\<not> (length bs > 48 \<and> (length bs - 48) mod 16 = 0)"
      using that ct bs by (auto simp: aes_cbc_decrypt_def)
    have bound: "n \<le> length p" if "pkcs7_unpad p = Some n" for p n
      using that pkcs7_unpad_bound by blast
    show ?thesis
      using none bound unfolding opens_as_def unseal_cases [OF bs(1)] ct_def [symmetric] token_decrypt_def
      by (auto simp: t_def dec_step_def t0_def split: option.splits)
  qed
  ultimately show ?thesis by blast
qed

lemma print_token_fields:
  assumes "opens_as t key bs z" and "48 \<le> length bs"
  shows "print_token t = print (token_fields bs)"
proof -
  have "take 32 (drop (length bs - 32) (bs @ z)) = drop (length bs - 32) bs"
    using assms(2) by simp
  then show ?thesis
    using assms by (simp add: opens_as_def print_token_def token_fields_def hex_value_length)
qed

lemma print_plaintext_fields:
  assumes "opens_as t key bs z"
  shows "print_plaintext t = print (plaintext_fields key bs)"
  using assms
  by (auto simp: opens_as_def print_plaintext_def plaintext_fields_def split: option.splits)

lemma unseal_length: "tok.unseal k bs = Some m \<Longrightarrow> length m + 48 \<le> length bs"
  using tok.unseal_authentic by blast

section \<open>group\<close>

definition group_packet_fields :: "bytes \<Rightarrow> packet \<Rightarrow> line list" where
  "group_packet_fields key p =
    (if length (p_payload p) < 48 then
       fault_fields (mk_fault ''short-payload'' ''payload_length'' (length (p_payload p)) ''minimum_length'' 48)
     else header_fields p @ token_fields (p_payload p) @
       [Field ''signing_key'' (hex_bytes (mac_half key)),
        Field ''encryption_key'' (hex_bytes (cipher_half key))] @
       plaintext_fields (Some key) (p_payload p))"

definition group_fields :: "bytes \<Rightarrow> bytes \<Rightarrow> line list" where
  "group_fields key raw = Field ''group_key'' (hex_bytes key) # (case decode_packet raw of
     Inl f \<Rightarrow> fault_fields f
   | Inr p \<Rightarrow> group_packet_fields key p)"

lemma blob_payload:
  assumes "wf_blob b" and "decode_packet (contents b) = Inr p"
  shows "length (p_payload p) \<le> MAXBLOB"
  using decode_packet_payload [OF assms(2)] contents_length [OF assms(1)] wf_blob_len [OF assms(1)]
  by simp

lemma dump_group_fields:
  assumes "wf_blob (b ! 0)" and "wf_blob (b ! 1)" and "token_key (contents (b ! 0))"
  shows "dump_group b = print (group_fields (contents (b ! 0)) (contents (b ! 1)))"
proof -
  from assms(1) obtain k z' where k: "bdata (b ! 0) = k @ z'" "blen (b ! 0) = length k" "contents (b ! 0) = k"
    by (rule wf_blobE)
  have key: "token_key k" using assms(3) k(3) by simp
  then have len: "length k = 32 \<or> length k = 64" by (simp add: token_key_def)
  then have ne: "hex_value k = hex_bytes k" by (auto simp: hex_value_def)
  define z where "z = after (b ! 1)"
  show ?thesis
  proof (cases "decode_packet (contents (b ! 1))")
    case (Inl f)
    then show ?thesis
      using assms len ne k
      by (auto simp: dump_group_def open_packet_blob group_fields_def andthen_assoc blob_value_def Let_def)
  next
    case (Inr p)
    then have p: "wf_packet p" by (simp add: decode_packet_iff)
    have o: "open_packet (b ! 1) = ret (Some (header_of p z))"
      using assms(2) Inr by (simp add: open_packet_blob z_def)
    show ?thesis
    proof (cases "length (p_payload p) < 48")
      case True
      then show ?thesis
        using assms len ne k Inr o
        by (auto simp: dump_group_def group_fields_def group_packet_fields_def blob_value_def Let_def)
    next
      case False
      then have "48 \<le> length (p_payload p)" "length (p_payload p) \<le> MAXBLOB"
        using blob_payload [OF assms(2)] Inr by simp_all
      from token_open_keyed [OF this key] obtain t
        where t: "token_open (p_payload p @ z) (length (p_payload p)) (Some (k @ z')) (length k) = ret t"
          "opens_as t (Some k) (p_payload p) z" by blast
      have "print_token t = print (token_fields (p_payload p))"
        "print_plaintext t = print (plaintext_fields (Some k) (p_payload p))"
        using print_token_fields [OF t(2)] print_plaintext_fields [OF t(2)] False by simp_all
      then show ?thesis
        using assms(1) len ne k Inr o t(1) False p
        by (auto simp: dump_group_def group_fields_def group_packet_fields_def blob_value_def Let_def
            mac_half_def cipher_half_def hex_value_length)
    qed
  qed
qed

section \<open>encrypted\<close>

text \<open>The session key of a packet to a destination: the recipient's own key or its ratchet
  agrees with the ephemeral one; the salt is always the recipient's identity hash. A ratchet of
  no bytes stands for none. There is no key when the agreement is all zeroes.\<close>

definition agreement :: "bytes \<Rightarrow> bytes \<Rightarrow> bytes \<Rightarrow> bytes option" where
  "agreement scalar peer salt =
    (let s = crypto_scalarmult scalar peer
     in if s = replicate 32 0 then None else Some (hkdf s salt 64))"

definition agreement_fields :: "bytes \<Rightarrow> bytes \<Rightarrow> bytes \<Rightarrow> line list" where
  "agreement_fields scalar peer salt = (case agreement scalar peer salt of
     None \<Rightarrow> [Field ''shared_key'' ''-'', Field ''signing_key'' ''-'', Field ''encryption_key'' ''-'']
   | Some k \<Rightarrow> [Field ''shared_key'' (hex_bytes (crypto_scalarmult scalar peer)),
                Field ''signing_key'' (hex_bytes (mac_half k)),
                Field ''encryption_key'' (hex_bytes (cipher_half k))])"

lemma agreement_token_key: "agreement scalar peer salt = Some k \<Longrightarrow> token_key k"
  by (auto simp: agreement_def Let_def token_key_def split: if_splits)

text \<open>The three steps both kinds take: agree, derive, open.\<close>

lemma x25519_shared_agreement:
  "x25519_shared scalar peer =
     (crypto_scalarmult scalar peer, agreement scalar peer salt \<noteq> None)"
  using x25519_shared_fst [of scalar peer] x25519_shared_snd [of scalar peer]
  by (cases "x25519_shared scalar peer") (simp add: agreement_def Let_def)

lemma agreement_Some:
  "agreement scalar peer salt = Some k \<Longrightarrow>
     hkdf_sha256 (crypto_scalarmult scalar peer) salt [] 64 = ret k"
proof -
  assume "agreement scalar peer salt = Some k"
  then have "k = hkdf (crypto_scalarmult scalar peer) salt 64"
    by (auto simp: agreement_def Let_def split: if_splits)
  moreover have "crypto_scalarmult scalar peer \<noteq> []"
    using crypto_scalarmult_length [of scalar peer] by (metis length_0_conv zero_neq_numeral)
  ultimately show ?thesis by (simp add: HMAC_MAXMSG_def)
qed

lemma print_keys_agreement:
  assumes "agreement scalar peer salt = Some k"
  shows "print_keys (Some (crypto_scalarmult scalar peer)) k = print (agreement_fields scalar peer salt)"
proof -
  have "length k = 64"
    using assms by (auto simp: agreement_def Let_def split: if_splits)
  then show ?thesis
    using assms by (simp add: print_keys_def agreement_fields_def mac_half_def cipher_half_def hex_value_length)
qed

lemma print_keys_none:
  "agreement scalar peer salt = None \<Longrightarrow> print_keys None d = print (agreement_fields scalar peer salt)"
  by (simp add: print_keys_def agreement_fields_def)

lemma derive_and_open:
  assumes "48 \<le> length bs" and "length bs \<le> MAXBLOB"
  obtains d t where
    "(if snd (x25519_shared scalar peer) then hkdf_sha256 (fst (x25519_shared scalar peer)) salt [] 64
      else ret []) = ret d"
    "token_open (bs @ z) (length bs) (if snd (x25519_shared scalar peer) then Some d else None) 64 = ret t"
    "opens_as t (agreement scalar peer salt) bs z"
    "print_keys (if snd (x25519_shared scalar peer) then Some (fst (x25519_shared scalar peer)) else None) d
      = print (agreement_fields scalar peer salt)"
proof (cases "agreement scalar peer salt")
  case None
  obtain t where "token_open (bs @ z) (length bs) None 64 = ret t" "opens_as t None bs z"
    using token_open_keyless by blast
  then show ?thesis
    using that [of "[]" t] None print_keys_none [OF None]
    by (simp add: x25519_shared_agreement [of scalar peer salt])
next
  case (Some k)
  have k: "length k = 64"
    using Some by (auto simp: agreement_def Let_def split: if_splits)
  obtain t where "token_open (bs @ z) (length bs) (Some (k @ [])) (length k) = ret t"
      "opens_as t (Some k) bs z"
    using token_open_keyed [OF assms agreement_token_key [OF Some]] by blast
  then show ?thesis
    using that [of k t] Some k agreement_Some [OF Some] print_keys_agreement [OF Some]
    by (simp add: x25519_shared_agreement [of scalar peer salt])
qed

definition encrypted_packet_fields :: "bytes \<Rightarrow> bytes \<Rightarrow> packet \<Rightarrow> line list" where
  "encrypted_packet_fields priv ratchet p =
    (let pl = p_payload p; eph = take 32 pl; sealed = drop 32 pl;
         scalar = (if ratchet = [] then take 32 priv else ratchet);
         salt = truncated_hash (keyset_public priv) 16
     in if length pl < 80 then
          fault_fields (mk_fault ''short-payload'' ''payload_length'' (length pl) ''minimum_length'' 80)
        else header_fields p @ [Field ''ephemeral_public'' (hex_bytes eph)] @ token_fields sealed @
          [Field ''identity_hash'' (hex_bytes salt),
           Field ''ratchet_public'' (if ratchet = [] then ''-'' else hex_bytes (crypto_scalarmult_base ratchet))] @
          agreement_fields scalar eph salt @
          plaintext_fields (agreement scalar eph salt) sealed)"

definition encrypted_fields :: "bytes \<Rightarrow> bytes \<Rightarrow> bytes \<Rightarrow> line list" where
  "encrypted_fields priv ratchet raw =
    [Field ''recipient_private'' (hex_bytes priv), Field ''ratchet_private'' (hex_value ratchet)] @
    (case decode_packet raw of
       Inl f \<Rightarrow> fault_fields f
     | Inr p \<Rightarrow> encrypted_packet_fields priv ratchet p)"

lemma dump_encrypted_fields:
  assumes "wf_blob (b ! 0)" "wf_blob (b ! 1)" "wf_blob (b ! 2)"
    and "blen (b ! 0) = 64" and "absent (b ! 1) \<or> blen (b ! 1) = 32"
  shows "dump_encrypted b = print (encrypted_fields (contents (b ! 0)) (contents (b ! 1)) (contents (b ! 2)))"
proof -
  from assms(1) obtain k z0 where k: "bdata (b ! 0) = k @ z0" "blen (b ! 0) = length k" "contents (b ! 0) = k"
    by (rule wf_blobE)
  from assms(2) obtain r z1 where r: "bdata (b ! 1) = r @ z1" "blen (b ! 1) = length r" "contents (b ! 1) = r"
    "absent (b ! 1) \<longrightarrow> r = []"
    by (rule wf_blobE)
  have lk: "length k = 64" using assms(4) k by simp
  have kv: "hex_value k = hex_bytes k" using lk by (auto simp: hex_value_def)
  have ab: "absent (b ! 1) = (r = [])" and lr: "r = [] \<or> length r = 32"
    using assms(5) r by auto
  note facts = assms(1-3) k r(1-3) ab lr lk kv
  define z where "z = after (b ! 2)"
  show ?thesis
  proof (cases "decode_packet (contents (b ! 2))")
    case (Inl f)
    then show ?thesis
      using facts
      by (auto simp: dump_encrypted_def open_packet_blob encrypted_fields_def andthen_assoc blob_value_def)
  next
    case (Inr p)
    define pl where "pl = p_payload p"
    have p: "wf_packet p" using Inr by (simp add: decode_packet_iff)
    have o: "open_packet (b ! 2) = ret (Some (header_of p z))"
      using assms(3) Inr by (simp add: open_packet_blob z_def)
    show ?thesis
    proof (cases "length pl < 80")
      case True
      then show ?thesis
        using facts Inr o
        by (auto simp: dump_encrypted_def encrypted_fields_def encrypted_packet_fields_def blob_value_def
            Let_def simp flip: pl_def)
    next
      case False
      define scalar where "scalar = (if r = [] then take 32 k else r)"
      define salt where "salt = truncated_hash (keyset_public k) 16"
      have "48 \<le> length (drop 32 pl)" "length (drop 32 pl) \<le> MAXBLOB"
        using blob_payload [OF assms(3) Inr] False by (simp_all add: pl_def)
      then obtain d t where dt:
        "(if snd (x25519_shared scalar (take 32 pl)) then hkdf_sha256 (fst (x25519_shared scalar (take 32 pl))) salt [] 64
          else ret []) = ret d"
        "token_open (drop 32 pl @ z) (length (drop 32 pl))
          (if snd (x25519_shared scalar (take 32 pl)) then Some d else None) 64 = ret t"
        "opens_as t (agreement scalar (take 32 pl) salt) (drop 32 pl) z"
        "print_keys (if snd (x25519_shared scalar (take 32 pl)) then Some (fst (x25519_shared scalar (take 32 pl))) else None) d
          = print (agreement_fields scalar (take 32 pl) salt)"
        by (rule derive_and_open)
      have fields: "print_token t = print (token_fields (drop 32 pl))"
        "print_plaintext t = print (plaintext_fields (agreement scalar (take 32 pl) salt) (drop 32 pl))"
        using print_token_fields [OF dt(3)] print_plaintext_fields [OF dt(3)] False by simp_all
      have pub: "truncated_hash (crypto_scalarmult_base (take 32 k) @ ed_public (drop 32 k)) 16 = salt"
        by (simp add: salt_def keyset_public_def)
      obtain s a where sa: "x25519_shared scalar (take 32 pl) = (s, a)"
        by (cases "x25519_shared scalar (take 32 pl)")
      note opened = dt [unfolded sa prod.sel]
      have spec: "encrypted_packet_fields k r p = header_fields p @
          [Field ''ephemeral_public'' (hex_bytes (take 32 pl))] @ token_fields (drop 32 pl) @
          [Field ''identity_hash'' (hex_bytes salt),
           Field ''ratchet_public'' (if r = [] then ''-'' else hex_bytes (crypto_scalarmult_base r))] @
          agreement_fields scalar (take 32 pl) salt @
          plaintext_fields (agreement scalar (take 32 pl) salt) (drop 32 pl)"
        using False by (simp add: encrypted_packet_fields_def Let_def pl_def salt_def scalar_def)
      show ?thesis
      proof (cases "r = []")
        case True
        then have "scalar = take 32 k" by (simp add: scalar_def)
        then show ?thesis
          using facts Inr o False opened fields pub p sa spec True
          by (cases a) (simp_all add: dump_encrypted_def encrypted_fields_def blob_value_def Let_def hex_value_length
              flip: pl_def)
      next
        case False': False
        then have "scalar = r" by (simp add: scalar_def)
        then show ?thesis
          using facts Inr o False opened fields pub p sa spec False'
          by (cases a) (simp_all add: dump_encrypted_def encrypted_fields_def blob_value_def Let_def hex_value_length
              flip: pl_def)
      qed
    qed
  qed
qed

end
