(* ===== verification/Link.thy ===== *)
theory Link
  imports Token
begin

text \<open>
  Links in cmd/dump.c: the part of a packet its hash covers (\<open>hashable_part\<close>), link ids and
  packet hashes, the signalling bytes, and the kinds linkrequest, linkproof, proof and
  resourceproof. The abstract side computes both hashes from the packet record; they do not
  depend on what a relay rewrites.
\<close>

section \<open>The code: hashes of a packet\<close>

abbreviation (input) ECPUBSIZE :: nat where "ECPUBSIZE \<equiv> 64"
abbreviation (input) SIGNALLEN :: nat where "SIGNALLEN \<equiv> 3"
abbreviation (input) MTU_BYTEMASK :: nat where "MTU_BYTEMASK \<equiv> 0x1fffff"
abbreviation (input) MODE_DEFAULT :: nat where "MODE_DEFAULT \<equiv> 1"

text \<open>\<open>out\<close> has \<open>MAXBLOB\<close> bytes in both callers.\<close>

definition hashable_part :: "bytes \<Rightarrow> nat \<Rightarrow> header \<Rightarrow> bytes prog" where
  "hashable_part raw len h =
    (let from = (if h_header_type h \<noteq> 0 then 2 + ADDRLEN else 2)
     in andthen (load_byte raw 0) (\<lambda>b0.
        append_from MAXBLOB [b0 AND 0x0f] (drop from raw) (len - from)))"

definition link_id_of :: "bytes \<Rightarrow> nat \<Rightarrow> header \<Rightarrow> bytes prog" where
  "link_id_of raw len h =
    andthen (hashable_part raw len h) (\<lambda>part.
      let n = length part;
          n = (if h_payload_len h > ECPUBSIZE then n - (h_payload_len h - ECPUBSIZE) else n)
      in ret (truncated_hash (take n part) ADDRLEN))"

definition packet_hash_of :: "bytes \<Rightarrow> nat \<Rightarrow> header \<Rightarrow> bytes prog" where
  "packet_hash_of raw len h = andthen (hashable_part raw len h) (\<lambda>part. ret (sha256 part))"

section \<open>The code: linkrequest and linkproof\<close>

definition print_signalling :: "bytes option \<Rightarrow> unit prog" where
  "print_signalling p =
    andthen (case p of
        Some p \<Rightarrow> andthen (load p SIGNALLEN) (\<lambda>s.
          let v = push_bit 16 (unat (s ! 0)) OR push_bit 8 (unat (s ! 1)) OR unat (s ! 2)
          in andthen (field_hex ''signalling'' p SIGNALLEN) (\<lambda>_. ret (v, drop_bit 21 v AND 0x07)))
      | None \<Rightarrow> andthen (field ''signalling'' ''-'') (\<lambda>_. ret (0, MODE_DEFAULT))) (\<lambda>(v, mode).
    seq
      [if mode = MODE_DEFAULT then field ''mode'' ''aes256_cbc'' else field ''mode'' (hex02 mode),
       if p \<noteq> None then field ''mtu'' (dec (v AND MTU_BYTEMASK)) else field ''mtu'' ''-''])"

text \<open>The four lines of a payload that has neither of the two lengths a kind accepts.\<close>

definition invalid_length :: "nat \<Rightarrow> string \<Rightarrow> nat \<Rightarrow> string \<Rightarrow> nat \<Rightarrow> unit prog" where
  "invalid_length got name1 len1 name2 len2 = seq
    [field ''invalid'' ''invalid-length'', field ''payload_length'' (dec got),
     field name1 (dec len1), field name2 (dec len2)]"

definition dump_linkrequest :: "blob list \<Rightarrow> unit prog" where
  "dump_linkrequest b = andthen (open_packet (b ! 0)) (\<lambda>r. case r of None \<Rightarrow> ret ()
   | Some h \<Rightarrow>
     let signalled = (h_payload_len h = ECPUBSIZE + SIGNALLEN)
     in if \<not> signalled \<and> h_payload_len h \<noteq> ECPUBSIZE then
          invalid_length (h_payload_len h) ''accepted_length'' ECPUBSIZE
            ''signalled_length'' (ECPUBSIZE + SIGNALLEN)
        else andthen (link_id_of (bdata (b ! 0)) (blen (b ! 0)) h) (\<lambda>link_id. seq
          [print_header h,
           field_hex ''x25519_public'' (h_payload h) KEYHALF,
           field_hex ''ed25519_public'' (drop KEYHALF (h_payload h)) KEYHALF,
           print_signalling (if signalled then Some (drop ECPUBSIZE (h_payload h)) else None),
           field_hex ''link_id'' link_id ADDRLEN]))"

definition dump_linkproof :: "blob list \<Rightarrow> unit prog" where
  "dump_linkproof b =
    (if blen (b ! 1) \<noteq> KEYSIZE then
       fatal (''linkproof: identity key is '' @ dec (blen (b ! 1)) @ '' bytes, expected '' @ dec KEYSIZE)
     else
       andthen (field_blob ''link_request'' (b ! 0)) (\<lambda>_.
       andthen (field_blob ''signer_public'' (b ! 1)) (\<lambda>_.
       andthen (parse_header (bdata (b ! 0)) (blen (b ! 0))) (\<lambda>pr. case pr of
         Inl f \<Rightarrow> fatal ''linkproof: the link request does not decode''
       | Inr rh \<Rightarrow>
       andthen (open_packet (b ! 2)) (\<lambda>r. case r of None \<Rightarrow> ret ()
       | Some h \<Rightarrow>
         let signalled = (h_payload_len h = SIGLEN + KEYHALF + SIGNALLEN)
         in if \<not> signalled \<and> h_payload_len h \<noteq> SIGLEN + KEYHALF then
              invalid_length (h_payload_len h) ''accepted_length'' (SIGLEN + KEYHALF)
                ''signalled_length'' (SIGLEN + KEYHALF + SIGNALLEN)
            else
              let signature = h_payload h;
                  x25519 = drop SIGLEN (h_payload h);
                  signalling = drop (SIGLEN + KEYHALF) (h_payload h);
                  signer = drop KEYHALF (bdata (b ! 1))
              in andthen (link_id_of (bdata (b ! 0)) (blen (b ! 0)) rh) (\<lambda>link_id.
                 andthen (append_from MAXBLOB [] link_id ADDRLEN) (\<lambda>sd.
                 andthen (append_from MAXBLOB sd x25519 KEYHALF) (\<lambda>sd.
                 andthen (append_from MAXBLOB sd signer KEYHALF) (\<lambda>sd.
                 andthen (if signalled then append_from MAXBLOB sd signalling SIGNALLEN else ret sd) (\<lambda>sd.
                 andthen (load (h_destination_hash h) ADDRLEN) (\<lambda>dest.
                 andthen (seq
                   [print_header h,
                    field_hex ''link_id'' link_id ADDRLEN,
                    field ''link_id_match'' (yesno (dest = link_id)),
                    field_hex ''signature'' signature SIGLEN,
                    field_hex ''x25519_public'' x25519 KEYHALF,
                    print_signalling (if signalled then Some signalling else None),
                    field_hex ''signer_ed25519'' signer KEYHALF,
                    field_hex ''signed_data'' sd (length sd)]) (\<lambda>_.
                 andthen (load signer KEYHALF) (\<lambda>pk.
                 andthen (load signature SIGLEN) (\<lambda>sig.
                 andthen (ed25519_verify pk sig sd) (\<lambda>ok.
                   field ''signature_valid'' (yesno ok))))))))))))))))"

section \<open>The code: proof and resourceproof\<close>

definition dump_proof :: "blob list \<Rightarrow> unit prog" where
  "dump_proof b =
    (if blen (b ! 1) \<noteq> KEYSIZE \<and> blen (b ! 1) \<noteq> KEYHALF then
       fatal (''proof: signer key is '' @ dec (blen (b ! 1)) @ '' bytes, expected '' @ dec KEYSIZE @
         '' or '' @ dec KEYHALF)
     else
       andthen (field_blob ''proved_packet'' (b ! 0)) (\<lambda>_.
       andthen (field_blob ''signer_public'' (b ! 1)) (\<lambda>_.
       andthen (parse_header (bdata (b ! 0)) (blen (b ! 0))) (\<lambda>pr. case pr of
         Inl f \<Rightarrow> fatal ''proof: the proved packet does not decode''
       | Inr ph \<Rightarrow>
       andthen (open_packet (b ! 2)) (\<lambda>r. case r of None \<Rightarrow> ret ()
       | Some h \<Rightarrow>
         let explicit_form = (h_payload_len h = 32 + SIGLEN)
         in if \<not> explicit_form \<and> h_payload_len h \<noteq> SIGLEN then
              invalid_length (h_payload_len h) ''implicit_length'' SIGLEN ''explicit_length'' (32 + SIGLEN)
            else
              andthen (packet_hash_of (bdata (b ! 0)) (blen (b ! 0)) ph) (\<lambda>packet_hash.
              let signature = (if explicit_form then drop 32 (h_payload h) else h_payload h);
                  on_link = (h_destination_type h = 3)
              in if blen (b ! 1) \<noteq> (if on_link then KEYHALF else KEYSIZE) then
                   fatal (''proof: '' @ (if on_link then ''a proof on a link'' else ''a proof to a destination'') @
                     '' takes a '' @ dec (if on_link then KEYHALF else KEYSIZE) @ ''-byte key, got '' @
                     dec (blen (b ! 1)))
                 else
                   let signer = (if on_link then bdata (b ! 1) else drop KEYHALF (bdata (b ! 1)))
                   in andthen (load (h_destination_hash h) ADDRLEN) (\<lambda>dest.
                      andthen (seq
                        [print_header h,
                         field ''form'' (if explicit_form then ''explicit'' else ''implicit''),
                         field_hex ''packet_hash'' packet_hash 32,
                         (if explicit_form then field_hex ''proof_hash'' (h_payload h) 32
                          else field ''proof_hash'' ''-''),
                         (if \<not> explicit_form then field ''hash_match'' ''yes''
                          else andthen (load (h_payload h) 32) (\<lambda>ph'.
                            field ''hash_match'' (yesno (ph' = packet_hash)))),
                         (if on_link then
                            andthen (load (h_destination_hash ph) ADDRLEN) (\<lambda>pdest. seq
                              [field_hex ''link_id'' (h_destination_hash ph) ADDRLEN,
                               field ''link_id_match'' (yesno (dest = pdest))])
                          else seq
                            [field_hex ''proof_destination'' packet_hash ADDRLEN,
                             field ''destination_match'' (yesno (dest = take ADDRLEN packet_hash))]),
                         field_hex ''signature'' signature SIGLEN,
                         field_hex ''signer_ed25519'' signer KEYHALF]) (\<lambda>_.
                      andthen (load signer KEYHALF) (\<lambda>pk.
                      andthen (load signature SIGLEN) (\<lambda>sig.
                      andthen (ed25519_verify pk sig packet_hash) (\<lambda>ok.
                        field ''signature_valid'' (yesno ok))))))))))))"

definition dump_resourceproof :: "blob list \<Rightarrow> unit prog" where
  "dump_resourceproof b =
    (if blen (b ! 0) \<noteq> HASHLEN then
       fatal (''resourceproof: resource hash is '' @ dec (blen (b ! 0)) @ '' bytes, expected '' @ dec HASHLEN)
     else
       andthen (field_blob ''advertised_hash'' (b ! 0)) (\<lambda>_.
       andthen (open_packet (b ! 1)) (\<lambda>r. case r of None \<Rightarrow> ret ()
       | Some h \<Rightarrow> andthen (print_header h) (\<lambda>_.
         if h_payload_len h \<noteq> 2 * HASHLEN then seq
           [field ''invalid'' ''invalid-length'', field ''payload_length'' (dec (h_payload_len h)),
            field ''accepted_length'' (dec (2 * HASHLEN))]
         else andthen (load (h_payload h) HASHLEN) (\<lambda>got.
           andthen (load (bdata (b ! 0)) HASHLEN) (\<lambda>advertised. seq
           [field_hex ''resource_hash'' (h_payload h) HASHLEN,
            field_hex ''resource_proof'' (drop HASHLEN (h_payload h)) HASHLEN,
            field ''hash_match'' (yesno (got = advertised))]))))))"

section \<open>The hashes of a packet record\<close>

definition hashable :: "packet \<Rightarrow> bytes" where
  "hashable p = (p_flags p AND 0x0f) # p_destination p @ p_context p # p_payload p"

definition packet_hash :: "packet \<Rightarrow> bytes" where
  "packet_hash p = sha256 (hashable p)"

text \<open>A link id covers the two public keys of the request and no signalling after them.\<close>

definition link_id :: "packet \<Rightarrow> bytes" where
  "link_id p = truncated_hash (hashable (p\<lparr>p_payload := take 64 (p_payload p)\<rparr>)) 16"

lemma hash_lengths [simp, len_simps]:
  "length (packet_hash p) = 32" "length (link_id p) = 16"
  by (simp_all add: packet_hash_def link_id_def)

lemma hashable_length: "wf_packet p \<Longrightarrow> length (hashable p) = 18 + length (p_payload p)"
  by (simp add: hashable_def wf_packet_def)

lemma hashable_part_packet:
  assumes "wf_packet p" and "length (packet_bytes p) \<le> MAXBLOB"
  shows "hashable_part (packet_bytes p @ z) (length (packet_bytes p)) (header_of p z) = ret (hashable p)"
proof -
  have t: "length (p_transport p) = 16 * fl_header_type (p_flags p)" "length (p_destination p) = 16"
    using assms(1) by (simp_all add: wf_packet_def)
  define body where "body = p_destination p @ p_context p # p_payload p"
  have split: "packet_bytes p = (p_flags p # p_hops p # p_transport p) @ body"
    by (simp add: packet_bytes_def body_def)
  have l: "length (packet_bytes p) = 2 + 16 * fl_header_type (p_flags p) + length body"
    using t by (simp add: split)
  have "append_from MAXBLOB [p_flags p AND 0xf]
      (drop (2 + 16 * fl_header_type (p_flags p)) (packet_bytes p @ z))
      (length (packet_bytes p) - (2 + 16 * fl_header_type (p_flags p))) = ret (hashable p)"
    using assms(2) t l by (simp add: split hashable_def body_def)
  moreover have "(if h_header_type (header_of p z) \<noteq> 0 then 2 + 16 else 2) = 2 + 16 * fl_header_type (p_flags p)"
    using fl_header_type_cases [of "p_flags p"] by auto
  moreover have "load_byte (packet_bytes p @ z) 0 = ret (p_flags p)"
    by (simp add: split)
  ultimately show ?thesis
    unfolding hashable_part_def Let_def by (simp only: andthen_ret)
qed

lemma link_id_of_packet:
  assumes "wf_packet p" and "length (packet_bytes p) \<le> MAXBLOB"
  shows "link_id_of (packet_bytes p @ z) (length (packet_bytes p)) (header_of p z) = ret (link_id p)"
proof -
  have "take (if length (p_payload p) > 64 then length (hashable p) - (length (p_payload p) - 64)
      else length (hashable p)) (hashable p) = hashable (p\<lparr>p_payload := take 64 (p_payload p)\<rparr>)"
    using assms(1) by (auto simp: hashable_def wf_packet_def min_def)
  then show ?thesis
    unfolding link_id_of_def link_id_def Let_def hashable_part_packet [OF assms] andthen_ret
      header_of_simps by (simp only:)
qed

lemma packet_hash_of_packet:
  assumes "wf_packet p" and "length (packet_bytes p) \<le> MAXBLOB"
  shows "packet_hash_of (packet_bytes p @ z) (length (packet_bytes p)) (header_of p z) = ret (packet_hash p)"
  using hashable_part_packet [OF assms] by (simp add: packet_hash_of_def packet_hash_def)

lemma packet_blob:
  assumes "wf_blob b" and "decode_packet (contents b) = Inr p"
  shows "wf_packet p" "bdata b = packet_bytes p @ after b" "blen b = length (packet_bytes p)"
    "length (packet_bytes p) \<le> MAXBLOB"
  using assms contents_length [OF assms(1)] wf_blob_padding [OF assms(1)] wf_blob_len [OF assms(1)]
  by (simp_all add: decode_packet_iff after_def)

lemma link_id_of_blob:
  assumes "wf_blob b" and "decode_packet (contents b) = Inr p"
  shows "link_id_of (bdata b) (blen b) (header_of p (after b)) = ret (link_id p)"
  using link_id_of_packet packet_blob [OF assms] by metis

lemma packet_hash_of_blob:
  assumes "wf_blob b" and "decode_packet (contents b) = Inr p"
  shows "packet_hash_of (bdata b) (blen b) (header_of p (after b)) = ret (packet_hash p)"
  using packet_hash_of_packet packet_blob [OF assms] by metis

text \<open>What a relay may rewrite: the hop count, the transport id, and the upper half of the flags
  with the header and transport types in it.\<close>

definition same_but_route :: "packet \<Rightarrow> packet \<Rightarrow> bool" where
  "same_but_route p q \<longleftrightarrow> p_flags p AND 0x0f = p_flags q AND 0x0f \<and>
     p_destination p = p_destination q \<and> p_context p = p_context q \<and> p_payload p = p_payload q"

lemma same_but_route_hash: "same_but_route p q \<Longrightarrow> packet_hash p = packet_hash q \<and> link_id p = link_id q"
  by (simp add: same_but_route_def packet_hash_def link_id_def hashable_def)

section \<open>Signalling bytes\<close>

text \<open>Three bytes: three bits of mode and twenty-one of MTU, the highest first.\<close>

definition signalling_value :: "bytes \<Rightarrow> nat" where
  "signalling_value s = 65536 * unat (s ! 0) + 256 * unat (s ! 1) + unat (s ! 2)"

definition signalling_fields :: "bytes \<Rightarrow> line list" where
  "signalling_fields s =
    (if s = [] then
       [Field ''signalling'' ''-'', Field ''mode'' ''aes256_cbc'', Field ''mtu'' ''-'']
     else let mode = signalling_value s div 2 ^ 21; mtu = signalling_value s mod 2 ^ 21
       in [Field ''signalling'' (hex_bytes s),
           Field ''mode'' (if mode = 1 then ''aes256_cbc'' else hex02 mode),
           Field ''mtu'' (dec mtu)])"

lemma shifted_bytes:
  assumes "a < 256" "b < 256" "c < (256::nat)"
  shows "push_bit 16 a OR push_bit 8 b OR c = 65536 * a + 256 * b + c"
proof -
  have "push_bit 8 b OR c = 256 * b + c"
    using push_bit_or [of c 8 b] assms by simp
  moreover have "push_bit 16 a OR (256 * b + c) = 65536 * a + (256 * b + c)"
    using push_bit_or [of "256 * b + c" 16 a] assms by simp
  moreover have "push_bit 16 a OR push_bit 8 b OR c = push_bit 16 a OR (push_bit 8 b OR c)"
    by (simp add: or.assoc)
  ultimately show ?thesis by (simp only: add.assoc)
qed

lemma and_mask_nat: "(n::nat) AND 0x1fffff = n mod 2 ^ 21" "(n::nat) AND 0x07 = n mod 8"
  using take_bit_eq_mask [of 21 n] take_bit_eq_mask [of 3 n]
  by (simp_all add: take_bit_eq_mod mask_eq_exp_minus_1)

lemma signalling_value_bound: "signalling_value s < 2 ^ 24"
proof -
  have "65536 * a + 256 * b + c < 2 ^ 24" if "a < 256" "b < 256" "c < 256" for a b c :: nat
    using that by simp
  from this [OF unat_byte_less unat_byte_less unat_byte_less] show ?thesis
    unfolding signalling_value_def .
qed

lemma signalling_mode: "drop_bit 21 (signalling_value s) AND 0x07 = signalling_value s div 2 ^ 21"
proof -
  have "signalling_value s div 2 ^ 21 < 8"
    using signalling_value_bound [of s] by (simp add: less_mult_imp_div_less)
  then show ?thesis by (simp add: and_mask_nat drop_bit_eq_div)
qed

lemma print_signalling_none: "print_signalling None = print (signalling_fields [])"
  by (simp add: print_signalling_def signalling_fields_def andthen_assoc)

lemma print_signalling_some:
  assumes "length s = 3"
  shows "print_signalling (Some (s @ z)) = print (signalling_fields s)"
proof -
  have v: "push_bit 16 (unat (s ! 0)) OR push_bit 8 (unat (s ! 1)) OR unat (s ! 2) = signalling_value s"
    unfolding signalling_value_def by (rule shifted_bytes) simp_all
  have "s \<noteq> []" "hex_value s = hex_bytes s" using assms by (auto simp: hex_value_def)
  moreover have ld: "load (s @ z) 3 = ret s" using assms by simp
  ultimately show ?thesis
    unfolding print_signalling_def option.case Let_def ld andthen_ret v signalling_mode
    using assms by (simp add: signalling_fields_def Let_def and_mask_nat(1) andthen_assoc)
qed

section \<open>linkrequest\<close>

definition length_fault_fields :: "nat \<Rightarrow> string \<Rightarrow> nat \<Rightarrow> string \<Rightarrow> nat \<Rightarrow> line list" where
  "length_fault_fields got name1 len1 name2 len2 =
    [Field ''invalid'' ''invalid-length'', Field ''payload_length'' (dec got),
     Field name1 (dec len1), Field name2 (dec len2)]"

lemma invalid_length_fields [simp, prog_simps]:
  "invalid_length got name1 len1 name2 len2 = print (length_fault_fields got name1 len1 name2 len2)"
  by (simp add: invalid_length_def length_fault_fields_def)

definition linkrequest_fields :: "bytes \<Rightarrow> line list" where
  "linkrequest_fields raw = (case decode_packet raw of
     Inl f \<Rightarrow> fault_fields f
   | Inr p \<Rightarrow>
       if length (p_payload p) \<noteq> 64 \<and> length (p_payload p) \<noteq> 67 then
         length_fault_fields (length (p_payload p)) ''accepted_length'' 64 ''signalled_length'' 67
       else header_fields p @
         [Field ''x25519_public'' (hex_bytes (take 32 (p_payload p))),
          Field ''ed25519_public'' (hex_bytes (take 32 (drop 32 (p_payload p))))] @
         signalling_fields (drop 64 (p_payload p)) @
         [Field ''link_id'' (hex_bytes (link_id p))])"

lemma dump_linkrequest_fields:
  assumes "wf_blob (b ! 0)"
  shows "dump_linkrequest b = print (linkrequest_fields (contents (b ! 0)))"
proof (cases "decode_packet (contents (b ! 0))")
  case (Inl f)
  then show ?thesis
    using assms by (simp add: dump_linkrequest_def open_packet_blob linkrequest_fields_def andthen_assoc)
next
  case (Inr p)
  define z where "z = after (b ! 0)"
  define pl where "pl = p_payload p"
  have p: "wf_packet p" using Inr by (simp add: decode_packet_iff)
  have o: "open_packet (b ! 0) = ret (Some (header_of p z))"
    using assms Inr by (simp add: open_packet_blob z_def)
  have id: "link_id_of (bdata (b ! 0)) (blen (b ! 0)) (header_of p z) = ret (link_id p)"
    unfolding z_def by (rule link_id_of_blob [OF assms Inr])
  consider "length pl = 64" | "length pl = 67" | "length pl \<noteq> 64" "length pl \<noteq> 67" by blast
  then show ?thesis
  proof cases
    case 1
    then show ?thesis
      using Inr o id p print_signalling_none
      by (simp add: dump_linkrequest_def linkrequest_fields_def hex_value_length Let_def flip: pl_def)
  next
    case 2
    then have "print_signalling (Some (drop 64 pl @ z)) = print (signalling_fields (drop 64 pl))"
      by (intro print_signalling_some) simp
    then show ?thesis
      using 2 Inr o id p
      by (simp add: dump_linkrequest_def linkrequest_fields_def hex_value_length Let_def flip: pl_def)
  next
    case 3
    then show ?thesis
      using Inr o by (simp add: dump_linkrequest_def linkrequest_fields_def Let_def flip: pl_def)
  qed
qed

section \<open>linkproof\<close>

text \<open>What the responder signs: the link id, its two public keys, and the signalling if any.\<close>

definition linkproof_signed :: "packet \<Rightarrow> bytes \<Rightarrow> bytes \<Rightarrow> bytes" where
  "linkproof_signed req signer pl = link_id req @ take 32 (drop 64 pl) @ signer @ drop 96 pl"

definition linkproof_packet_fields :: "packet \<Rightarrow> bytes \<Rightarrow> packet \<Rightarrow> line list" where
  "linkproof_packet_fields req signer p =
    (let pl = p_payload p; sd = linkproof_signed req signer pl in
     if length pl \<noteq> 96 \<and> length pl \<noteq> 99 then
       length_fault_fields (length pl) ''accepted_length'' 96 ''signalled_length'' 99
     else header_fields p @
       [Field ''link_id'' (hex_bytes (link_id req)),
        Field ''link_id_match'' (yesno (p_destination p = link_id req)),
        Field ''signature'' (hex_bytes (take 64 pl)),
        Field ''x25519_public'' (hex_bytes (take 32 (drop 64 pl)))] @
       signalling_fields (drop 96 pl) @
       [Field ''signer_ed25519'' (hex_bytes signer),
        Field ''signed_data'' (hex_bytes sd),
        Field ''signature_valid'' (yesno (ed_valid signer (take 64 pl) sd))])"

definition linkproof_result :: "bytes \<Rightarrow> bytes \<Rightarrow> bytes \<Rightarrow> unit prog" where
  "linkproof_result req key raw =
    andthen (print [Field ''link_request'' (hex_value req), Field ''signer_public'' (hex_bytes key)]) (\<lambda>_.
    case decode_packet req of
      Inl f \<Rightarrow> fatal ''linkproof: the link request does not decode''
    | Inr rp \<Rightarrow> print (case decode_packet raw of
        Inl f \<Rightarrow> fault_fields f
      | Inr p \<Rightarrow> linkproof_packet_fields rp (drop 32 key) p))"

lemma dump_linkproof_result:
  assumes "wf_blob (b ! 0)" "wf_blob (b ! 1)" "wf_blob (b ! 2)" and "blen (b ! 1) = 64"
  shows "dump_linkproof b = linkproof_result (contents (b ! 0)) (contents (b ! 1)) (contents (b ! 2))"
proof -
  from assms(2) obtain k z1 where k: "bdata (b ! 1) = k @ z1" "blen (b ! 1) = length k" "contents (b ! 1) = k"
    by (rule wf_blobE)
  have lk: "length k = 64" using assms(4) k by simp
  have kv: "hex_value k = hex_bytes k" using lk by (auto simp: hex_value_def)
  note facts = assms(1-3) k lk kv parse_header_blob [OF assms(1)]
  show ?thesis
  proof (cases "decode_packet (contents (b ! 0))")
    case (Inl f)
    then show ?thesis
      using facts by (simp add: dump_linkproof_def linkproof_result_def blob_value_def)
  next
    case (Inr rp)
    note id = link_id_of_blob [OF assms(1) Inr]
    note ok0 = Inr id
    show ?thesis
    proof (cases "decode_packet (contents (b ! 2))")
      case (Inl f)
      then show ?thesis
        using facts ok0
        by (simp add: dump_linkproof_def linkproof_result_def blob_value_def open_packet_blob andthen_assoc)
    next
      case (Inr p)
      define pl where "pl = p_payload p"
      define z where "z = after (b ! 2)"
      have p: "wf_packet p" "length (p_destination p) = 16"
        using Inr by (simp_all add: decode_packet_iff wf_packet_def)
      have o: "open_packet (b ! 2) = ret (Some (header_of p z))"
        using assms(3) Inr by (simp add: open_packet_blob z_def)
      consider "length pl = 96" | "length pl = 99" | "length pl \<noteq> 96" "length pl \<noteq> 99" by blast
      then show ?thesis
      proof cases
        case 1
        have "linkproof_signed rp (drop 32 k) pl = link_id rp @ take 32 (drop 64 pl) @ drop 32 k"
          using 1 by (simp add: linkproof_signed_def)
        then show ?thesis
          using 1 facts ok0 Inr o p print_signalling_none
          by (simp add: dump_linkproof_def linkproof_result_def linkproof_packet_fields_def blob_value_def
              hex_value_length Let_def MAXBLOB_def flip: pl_def)
      next
        case 2
        then have "print_signalling (Some (drop 96 pl @ z)) = print (signalling_fields (drop 96 pl))"
          by (intro print_signalling_some) simp
        moreover have "linkproof_signed rp (drop 32 k) pl
            = link_id rp @ take 32 (drop 64 pl) @ drop 32 k @ drop 96 pl"
          by (simp add: linkproof_signed_def)
        ultimately show ?thesis
          using 2 facts ok0 Inr o p
          by (simp add: dump_linkproof_def linkproof_result_def linkproof_packet_fields_def blob_value_def
              hex_value_length Let_def MAXBLOB_def flip: pl_def)
      next
        case 3
        then show ?thesis
          using facts ok0 Inr o
          by (simp add: dump_linkproof_def linkproof_result_def linkproof_packet_fields_def blob_value_def
              Let_def flip: pl_def)
      qed
    qed
  qed
qed

section \<open>proof\<close>

definition on_link :: "packet \<Rightarrow> bool" where
  "on_link p \<longleftrightarrow> fl_destination_type (p_flags p) = 3"

definition proof_packet_fields :: "packet \<Rightarrow> bytes \<Rightarrow> packet \<Rightarrow> line list" where
  "proof_packet_fields proved signer p =
    (let pl = p_payload p; expl = (length pl = 96); sig = (if expl then drop 32 pl else pl)
     in header_fields p @
       [Field ''form'' (if expl then ''explicit'' else ''implicit''),
        Field ''packet_hash'' (hex_bytes (packet_hash proved)),
        Field ''proof_hash'' (if expl then hex_bytes (take 32 pl) else ''-''),
        Field ''hash_match'' (yesno (expl \<longrightarrow> take 32 pl = packet_hash proved))] @
       (if on_link p then
         [Field ''link_id'' (hex_bytes (p_destination proved)),
          Field ''link_id_match'' (yesno (p_destination p = p_destination proved))]
        else
         [Field ''proof_destination'' (hex_bytes (take 16 (packet_hash proved))),
          Field ''destination_match'' (yesno (p_destination p = take 16 (packet_hash proved)))]) @
       [Field ''signature'' (hex_bytes sig),
        Field ''signer_ed25519'' (hex_bytes signer),
        Field ''signature_valid'' (yesno (ed_valid signer sig (packet_hash proved)))])"

definition proof_packet_result :: "packet \<Rightarrow> bytes \<Rightarrow> packet \<Rightarrow> unit prog" where
  "proof_packet_result proved key p =
    (if length (p_payload p) \<noteq> 64 \<and> length (p_payload p) \<noteq> 96 then
       print (length_fault_fields (length (p_payload p)) ''implicit_length'' 64 ''explicit_length'' 96)
     else if length key \<noteq> (if on_link p then 32 else 64) then
       fatal (''proof: '' @ (if on_link p then ''a proof on a link'' else ''a proof to a destination'') @
         '' takes a '' @ dec (if on_link p then 32 else 64) @ ''-byte key, got '' @ dec (length key))
     else print (proof_packet_fields proved (if on_link p then key else drop 32 key) p))"

definition proof_result :: "bytes \<Rightarrow> bytes \<Rightarrow> bytes \<Rightarrow> unit prog" where
  "proof_result proved key raw =
    andthen (print [Field ''proved_packet'' (hex_value proved), Field ''signer_public'' (hex_bytes key)]) (\<lambda>_.
    case decode_packet proved of
      Inl f \<Rightarrow> fatal ''proof: the proved packet does not decode''
    | Inr pp \<Rightarrow> (case decode_packet raw of
        Inl f \<Rightarrow> print (fault_fields f)
      | Inr p \<Rightarrow> proof_packet_result pp key p))"

lemma dump_proof_result:
  assumes "wf_blob (b ! 0)" "wf_blob (b ! 1)" "wf_blob (b ! 2)"
    and "blen (b ! 1) = 64 \<or> blen (b ! 1) = 32"
  shows "dump_proof b = proof_result (contents (b ! 0)) (contents (b ! 1)) (contents (b ! 2))"
proof -
  from assms(2) obtain k z1 where k: "bdata (b ! 1) = k @ z1" "blen (b ! 1) = length k" "contents (b ! 1) = k"
    by (rule wf_blobE)
  have lk: "length k = 64 \<or> length k = 32" using assms(4) k by simp
  have kv: "hex_value k = hex_bytes k" using lk by (auto simp: hex_value_def)
  note facts = assms(1-3) k lk kv parse_header_blob [OF assms(1)]
  show ?thesis
  proof (cases "decode_packet (contents (b ! 0))")
    case (Inl f)
    then show ?thesis
      using facts by (auto simp: dump_proof_def proof_result_def blob_value_def)
  next
    case pp: (Inr pp)
    have ppd: "length (p_destination pp) = 16"
      using pp by (simp add: decode_packet_iff wf_packet_def)
    note ok0 = pp ppd packet_hash_of_blob [OF assms(1) pp]
    show ?thesis
    proof (cases "decode_packet (contents (b ! 2))")
      case (Inl f)
      then show ?thesis
        using facts ok0
        by (auto simp: dump_proof_def proof_result_def blob_value_def open_packet_blob andthen_assoc)
    next
      case (Inr p)
      define pl where "pl = p_payload p"
      define z where "z = after (b ! 2)"
      have p: "wf_packet p" "length (p_destination p) = 16"
        using Inr by (simp_all add: decode_packet_iff wf_packet_def)
      have o: "open_packet (b ! 2) = ret (Some (header_of p z))"
        using assms(3) Inr by (simp add: open_packet_blob z_def)
      note defs = dump_proof_def proof_result_def proof_packet_result_def proof_packet_fields_def
        blob_value_def hex_value_length Let_def MAXBLOB_def
      consider (bad) "length pl \<noteq> 64" "length pl \<noteq> 96"
        | (key) "length pl = 64 \<or> length pl = 96" "length k \<noteq> (if on_link p then 32 else 64)"
        | (impl) "length pl = 64" "length k = (if on_link p then 32 else 64)"
        | (expl) "length pl = 96" "length k = (if on_link p then 32 else 64)" by blast
      then show ?thesis
      proof cases
        case bad
        then show ?thesis using facts ok0 Inr o by (auto simp: defs simp flip: pl_def)
      next
        case key
        then show ?thesis
          using facts ok0 Inr o p
          by (cases "on_link p") (auto simp: defs on_link_def simp flip: pl_def)
      next
        case impl
        then show ?thesis
          using facts ok0 Inr o p
          by (cases "on_link p") (simp_all add: defs on_link_def yesno_def flip: pl_def)
      next
        case expl
        then show ?thesis
          using facts ok0 Inr o p
          by (cases "on_link p") (simp_all add: defs on_link_def flip: pl_def)
      qed
    qed
  qed
qed

section \<open>resourceproof\<close>

definition resourceproof_packet_fields :: "bytes \<Rightarrow> packet \<Rightarrow> line list" where
  "resourceproof_packet_fields hash p = header_fields p @
    (if length (p_payload p) \<noteq> 64 then
       [Field ''invalid'' ''invalid-length'', Field ''payload_length'' (dec (length (p_payload p))),
        Field ''accepted_length'' (dec 64)]
     else
       [Field ''resource_hash'' (hex_bytes (take 32 (p_payload p))),
        Field ''resource_proof'' (hex_bytes (drop 32 (p_payload p))),
        Field ''hash_match'' (yesno (take 32 (p_payload p) = hash))])"

definition resourceproof_fields :: "bytes \<Rightarrow> bytes \<Rightarrow> line list" where
  "resourceproof_fields hash raw = Field ''advertised_hash'' (hex_bytes hash) #
    (case decode_packet raw of Inl f \<Rightarrow> fault_fields f
     | Inr p \<Rightarrow> resourceproof_packet_fields hash p)"

lemma dump_resourceproof_fields:
  assumes "wf_blob (b ! 0)" "wf_blob (b ! 1)" and "blen (b ! 0) = 32"
  shows "dump_resourceproof b = print (resourceproof_fields (contents (b ! 0)) (contents (b ! 1)))"
proof -
  from assms(1) obtain k z1 where k: "bdata (b ! 0) = k @ z1" "blen (b ! 0) = length k" "contents (b ! 0) = k"
    by (rule wf_blobE)
  have lk: "length k = 32" using assms(3) k by simp
  have kv: "hex_value k = hex_bytes k" using lk by (auto simp: hex_value_def)
  note facts = assms(1,2) k lk kv
  show ?thesis
  proof (cases "decode_packet (contents (b ! 1))")
    case (Inl f)
    then show ?thesis
      using facts
      by (simp add: dump_resourceproof_def resourceproof_fields_def blob_value_def open_packet_blob andthen_assoc)
  next
    case (Inr p)
    define pl where "pl = p_payload p"
    define z where "z = after (b ! 1)"
    have p: "wf_packet p" using Inr by (simp add: decode_packet_iff)
    have o: "open_packet (b ! 1) = ret (Some (header_of p z))"
      using assms(2) Inr by (simp add: open_packet_blob z_def)
    show ?thesis
      using facts Inr o p
      by (cases "length pl = 64")
        (simp_all add: dump_resourceproof_def resourceproof_fields_def resourceproof_packet_fields_def
          blob_value_def hex_value_length flip: pl_def)
  qed
qed

end
