(* ===== verification/Ifac.thy ===== *)
theory Ifac
  imports Link
begin

text \<open>
  Interface access codes in cmd/dump.c: the key of a network (\<open>ifac_origin\<close>, \<open>ifac_key\<close>), the mask
  over a frame (\<open>ifac_mask\<close>) and the kind \<open>ifac\<close>. The mask is its own inverse and leaves the
  access code alone, so wrapping a packet and unwrapping the frame are inverse up to the flag bit.
\<close>

section \<open>The code\<close>

definition ifac_salt :: bytes where
  "ifac_salt =
  [0xad,0xf5,0x4d,0x88,0x2c,0x9a,0x9b,0x80,
   0x77,0x1e,0xb4,0x99,0x5d,0x70,0x2d,0x4a,
   0x3e,0x73,0x33,0x91,0xb2,0xa0,0xf5,0x3f,
   0x41,0x6d,0x9f,0x90,0x7e,0x55,0xcf,0xf8]"

text \<open>The caller's buffer \<open>origin\<close> has \<open>KEYSIZE\<close> bytes.\<close>

definition ifac_origin :: "blob \<Rightarrow> blob \<Rightarrow> bytes prog" where
  "ifac_origin netname netkey =
    andthen (if \<not> absent netname then
               andthen (load (bdata netname) (blen netname)) (\<lambda>d. store KEYSIZE [] (sha256 d))
             else ret []) (\<lambda>out.
    if \<not> absent netkey then
      andthen (load (bdata netkey) (blen netkey)) (\<lambda>d. store KEYSIZE out (sha256 d))
    else ret out)"

definition ifac_key :: "bytes \<Rightarrow> bytes prog" where
  "ifac_key origin = hkdf_sha256 (sha256 origin) ifac_salt [] KEYSIZE"

definition ifac_mask :: "bytes \<Rightarrow> nat \<Rightarrow> bytes \<Rightarrow> bytes \<Rightarrow> nat \<Rightarrow> bytes prog" where
  "ifac_mask ifac ifac_size key inp len =
    (if len > MAXBLOB then
       fatal (''frame of '' @ dec len @ '' bytes exceeds '' @ dec MAXBLOB)
     else
       andthen (load ifac ifac_size) (\<lambda>code.
       andthen (hkdf_sha256 code key [] len) (\<lambda>mask.
       andthen (load inp len) (\<lambda>bs.
         ret (map (\<lambda>i. if i \<le> 1 \<or> i > ifac_size + 1 then bs ! i XOR mask ! i else bs ! i) [0..<len])))))"

definition dump_ifac :: "blob list \<Rightarrow> unit prog" where
  "dump_ifac b =
    (if absent (b ! 0) \<and> absent (b ! 1) then
       fatal ''ifac: neither a network name nor a passphrase''
     else if blen (b ! 2) \<noteq> 1 then
       fatal (''ifac: access code size is '' @ dec (blen (b ! 2)) @ '' bytes, expected 1'')
     else andthen (load_byte (bdata (b ! 2)) 0) (\<lambda>size.
       let ifac_size = unat size
       in if ifac_size < 1 then
            fatal (''ifac: access code of '' @ dec ifac_size @ '' bytes is below the minimum of 1'')
          else if ifac_size > SIGLEN then
            fatal (''ifac: access code of '' @ dec ifac_size @ '' bytes exceeds the signature'')
          else if blen (b ! 3) \<le> 2 + ifac_size then
            fatal (''ifac: frame of '' @ dec (blen (b ! 3)) @ '' bytes holds no packet'')
          else
            andthen (ifac_origin (b ! 0) (b ! 1)) (\<lambda>origin.
            andthen (ifac_key origin) (\<lambda>key.
            let ifac = drop 2 (bdata (b ! 3))
            in andthen (ifac_mask ifac ifac_size key (bdata (b ! 3)) (blen (b ! 3))) (\<lambda>unmasked.
            let plen = blen (b ! 3) - ifac_size
            in andthen (load_byte unmasked 0) (\<lambda>u0.
               andthen (load_byte unmasked 1) (\<lambda>u1.
               andthen (append_from MAXBLOB [u0 AND 0x7f, u1] (drop (2 + ifac_size) unmasked) (plen - 2))
                 (\<lambda>packet.
               andthen (ed25519_sign (drop KEYHALF key) packet) (\<lambda>expected.
               andthen (load ifac ifac_size) (\<lambda>code.
               seq
                 [field_blob ''netname'' (b ! 0),
                  field_blob ''netkey'' (b ! 1),
                  field_hex ''ifac_origin'' origin (length origin),
                  field_hex ''ifac_key'' key KEYSIZE,
                  field ''ifac_size'' (dec ifac_size),
                  field ''frame_length'' (dec (blen (b ! 3))),
                  field_hex ''ifac'' ifac ifac_size,
                  field_hex ''packet'' packet plen,
                  field_hex ''expected_ifac'' (drop (SIGLEN - ifac_size) expected) ifac_size,
                  field ''ifac_valid'' (yesno (code = take ifac_size (drop (SIGLEN - ifac_size) expected)))]))))))))))"

section \<open>Wrapping and unwrapping\<close>

text \<open>The frame of a packet: the flag, the code behind the two bytes of the header, the mask over
  everything else.\<close>

definition mask_bytes :: "bytes \<Rightarrow> bytes \<Rightarrow> bytes \<Rightarrow> bytes" where
  "mask_bytes key code bs =
    (let mask = hkdf code key (length bs)
     in map (\<lambda>i. if i \<le> 1 \<or> i > length code + 1 then bs ! i XOR mask ! i else bs ! i) [0..<length bs])"

definition set_head :: "(byte \<Rightarrow> byte) \<Rightarrow> bytes \<Rightarrow> bytes" where
  "set_head f bs = f (hd bs) # tl bs"

definition ifac_wrap :: "bytes \<Rightarrow> bytes \<Rightarrow> bytes \<Rightarrow> bytes" where
  "ifac_wrap key code packet =
    set_head (\<lambda>b. b OR 0x80)
      (mask_bytes key code (set_head (\<lambda>b. b OR 0x80) (take 2 packet @ code @ drop 2 packet)))"

definition frame_code :: "nat \<Rightarrow> bytes \<Rightarrow> bytes" where
  "frame_code sz frame = take sz (drop 2 frame)"

definition ifac_unwrap :: "bytes \<Rightarrow> nat \<Rightarrow> bytes \<Rightarrow> bytes" where
  "ifac_unwrap key sz frame =
    (let u = mask_bytes key (frame_code sz frame) frame
     in set_head (\<lambda>b. b AND 0x7f) (take 2 u @ drop (2 + sz) u))"

lemma mask_bytes_length [simp, len_simps]: "length (mask_bytes key code bs) = length bs"
  by (simp add: mask_bytes_def Let_def)

lemma mask_bytes_nth:
  "i < length bs \<Longrightarrow> mask_bytes key code bs ! i =
    (if i \<le> 1 \<or> i > length code + 1 then bs ! i XOR hkdf code key (length bs) ! i else bs ! i)"
  by (simp add: mask_bytes_def Let_def)

lemma mask_bytes_twice [simp]: "mask_bytes key code (mask_bytes key code bs) = bs"
  by (rule nth_equalityI) (simp_all add: mask_bytes_nth xor.assoc)

lemma nth_slice_eq:
  assumes "length xs = length ys" and "\<And>i. a \<le> i \<Longrightarrow> i < a + n \<Longrightarrow> i < length xs \<Longrightarrow> xs ! i = ys ! i"
  shows "take n (drop a xs) = take n (drop a ys)"
  using assms by (intro nth_equalityI) auto

text \<open>The code of a frame stands between the masked parts and is left as it is.\<close>

lemma mask_keeps_code: "frame_code (length code) (mask_bytes key code bs) = frame_code (length code) bs"
  unfolding frame_code_def by (rule nth_slice_eq) (auto simp: mask_bytes_nth)

lemma set_head_length [simp]: "bs \<noteq> [] \<Longrightarrow> length (set_head f bs) = length bs"
  by (simp add: set_head_def)

lemma set_head_nth: "bs \<noteq> [] \<Longrightarrow> set_head f bs ! i = (if i = 0 then f (bs ! 0) else bs ! i)"
  by (cases bs) (auto simp: set_head_def nth_Cons')

lemma set_head_code: "2 \<le> length bs \<Longrightarrow> frame_code n (set_head f bs) = frame_code n bs"
  unfolding frame_code_def by (cases bs; cases "tl bs") (auto simp: set_head_def)

lemma mask_set_head:
  assumes "bs \<noteq> []"
  shows "mask_bytes key code (set_head g (mask_bytes key code bs)) =
    set_head (\<lambda>x. g (x XOR hkdf code key (length bs) ! 0) XOR hkdf code key (length bs) ! 0) bs"
proof -
  have ne: "mask_bytes key code bs \<noteq> []" using assms by (metis length_0_conv mask_bytes_length)
  show ?thesis
    by (rule nth_equalityI)
       (use assms ne in \<open>auto simp: mask_bytes_nth set_head_nth xor.assoc\<close>)
qed

lemma set_head_set_head: "set_head f (set_head g bs) = set_head (\<lambda>x. f (g x)) bs"
  by (simp add: set_head_def)

lemma set_head_parts:
  "bs \<noteq> [] \<Longrightarrow> take 2 (set_head f bs) @ drop (2 + n) (set_head f bs) = set_head f (take 2 bs @ drop (2 + n) bs)"
  "bs \<noteq> [] \<Longrightarrow> take 2 (set_head f bs) @ x @ drop 2 (set_head f bs) = set_head f (take 2 bs @ x @ drop 2 bs)"
  by (cases bs; simp add: set_head_def)+

text \<open>The byte of the flags under the mask.\<close>

lemma bit_flag: "bit (0x7f :: byte) n \<longleftrightarrow> n < 7" "bit (0x80 :: byte) n \<longleftrightarrow> n = 7"
proof -
  have e: "(0x7f :: byte) = mask 7" "(0x80 :: byte) = push_bit 7 1"
    by (simp_all add: mask_eq_exp_minus_1)
  show "bit (0x7f :: byte) n \<longleftrightarrow> n < 7" "bit (0x80 :: byte) n \<longleftrightarrow> n = 7"
    unfolding e by (simp_all only: bit_mask_iff bit_push_bit_iff bit_1_iff possible_bit_word) auto
qed

lemma flag_bits:
  "((((b OR 0x80) XOR m) OR 0x80) XOR m) AND 0x7f = b AND 0x7f"
  "((((b XOR m) AND 0x7f) OR 0x80) XOR m) OR 0x80 = b OR 0x80" for b m :: byte
  by (rule bit_word_eqI; (auto simp only: bit_and_iff bit_or_iff bit_xor_iff bit_flag; simp))+

lemma ifac_unwrap_wrap:
  assumes "2 \<le> length packet"
  shows "ifac_unwrap key (length code) (ifac_wrap key code packet) = set_head (\<lambda>b. b AND 0x7f) packet"
proof -
  define f where "f = take 2 packet @ code @ drop 2 packet"
  have f: "f \<noteq> []" "2 \<le> length f" "set_head (\<lambda>b. b OR 0x80) f \<noteq> []"
    using assms by (auto simp: f_def set_head_def)
  define g where "g = mask_bytes key code (set_head (\<lambda>b. b OR 0x80) f)"
  have g: "g \<noteq> []" "2 \<le> length g"
    using f by (metis length_0_conv g_def mask_bytes_length set_head_length, simp add: g_def)
  have w: "ifac_wrap key code packet = set_head (\<lambda>b. b OR 0x80) g"
    by (simp add: ifac_wrap_def f_def g_def)
  have c: "frame_code (length code) (set_head (\<lambda>b. b OR 0x80) g) = code"
    using f g set_head_code [OF g(2)] mask_keeps_code [of code key] set_head_code [OF f(2)] assms
    by (simp add: g_def) (simp add: f_def frame_code_def)
  define m where "m = hkdf code key (length (set_head (\<lambda>b. b OR 0x80) f)) ! 0"
  have u: "mask_bytes key code (set_head (\<lambda>b. b OR 0x80) g) =
      set_head (\<lambda>x. (((x OR 0x80) XOR m) OR 0x80) XOR m) f"
    unfolding g_def mask_set_head [OF f(3)] m_def set_head_set_head ..
  have "take 2 f @ drop (2 + length code) f = packet"
    using assms by (simp add: f_def)
  then show ?thesis
    unfolding ifac_unwrap_def w c Let_def u set_head_parts(1) [OF f(1)]
    by (simp add: set_head_set_head flag_bits)
qed

lemma ifac_wrap_unwrap:
  assumes "2 + sz \<le> length frame"
  shows "ifac_wrap key (frame_code sz frame) (ifac_unwrap key sz frame) = set_head (\<lambda>b. b OR 0x80) frame"
proof -
  define code where "code = frame_code sz frame"
  define u where "u = mask_bytes key code frame"
  have lc: "length code = sz" using assms by (simp add: code_def frame_code_def)
  have cu: "frame_code sz u = code"
    using mask_keeps_code [of code key frame] lc by (simp add: u_def code_def)
  have "length u = length frame" by (simp add: u_def)
  then have ne: "frame \<noteq> []" "take 2 u @ drop (2 + sz) u \<noteq> []"
    using assms by auto
  define m where "m = hkdf code key (length frame) ! 0"
  have "take 2 u @ code @ drop (2 + sz) u = u"
    using cu unfolding frame_code_def by (metis append_take_drop_id drop_drop add.commute)
  then have "take 2 (take 2 u @ drop (2 + sz) u) @ code @ drop 2 (take 2 u @ drop (2 + sz) u) = u"
    using assms by (simp add: u_def)
  then have "ifac_wrap key code (ifac_unwrap key sz frame) =
      set_head (\<lambda>b. b OR 0x80) (mask_bytes key code (set_head (\<lambda>b. (b AND 0x7f) OR 0x80) u))"
    using set_head_parts(2) [OF ne(2), of "\<lambda>b. b AND 0x7f" code]
    by (simp add: ifac_wrap_def ifac_unwrap_def set_head_set_head Let_def flip: code_def u_def)
  then show ?thesis
    unfolding u_def mask_set_head [OF ne(1)] code_def [symmetric]
    by (simp add: set_head_set_head flag_bits)
qed

section \<open>What the code prints\<close>

definition origin_of :: "blob \<Rightarrow> blob \<Rightarrow> bytes" where
  "origin_of netname netkey =
    (if absent netname then [] else sha256 (contents netname)) @
    (if absent netkey then [] else sha256 (contents netkey))"

definition network_key :: "bytes \<Rightarrow> bytes" where
  "network_key origin = hkdf (sha256 origin) ifac_salt 64"

lemma network_key_length [simp, len_simps]: "length (network_key origin) = 64"
  by (simp add: network_key_def)

text \<open>The access code of a packet is the end of its signature under the network's key.\<close>

definition ifac_of :: "bytes \<Rightarrow> nat \<Rightarrow> bytes \<Rightarrow> bytes" where
  "ifac_of key sz packet = drop (64 - sz) (ed_signature (drop 32 key) packet)"

definition ifac_lines :: "blob \<Rightarrow> blob \<Rightarrow> nat \<Rightarrow> bytes \<Rightarrow> line list" where
  "ifac_lines netname netkey sz frame =
    (let origin = origin_of netname netkey; key = network_key origin;
         packet = ifac_unwrap key sz frame; expected = ifac_of key sz packet
     in [Field ''netname'' (blob_value netname),
         Field ''netkey'' (blob_value netkey),
         Field ''ifac_origin'' (hex_bytes origin),
         Field ''ifac_key'' (hex_bytes key),
         Field ''ifac_size'' (dec sz),
         Field ''frame_length'' (dec (length frame)),
         Field ''ifac'' (hex_bytes (frame_code sz frame)),
         Field ''packet'' (hex_bytes packet),
         Field ''expected_ifac'' (hex_bytes expected),
         Field ''ifac_valid'' (yesno (frame_code sz frame = expected))])"

lemma sha256_nonempty [simp]: "sha256 d \<noteq> []"
  using sha256_length [of d] by (metis list.size(3) zero_neq_numeral)

lemma ifac_origin_ret:
  assumes "wf_blob netname" and "wf_blob netkey"
  shows "ifac_origin netname netkey = ret (origin_of netname netkey)"
  using wf_blob_len [OF assms(1)] wf_blob_len [OF assms(2)] wf_blob_data [OF assms(1)] wf_blob_data [OF assms(2)]
  by (simp add: ifac_origin_def origin_of_def contents_def)

lemma ifac_key_ret: "ifac_key origin = ret (network_key origin)"
  by (simp add: ifac_key_def network_key_def HMAC_MAXMSG_def)

lemma ifac_mask_ret:
  assumes "code \<noteq> []" "length code \<le> 64" "bs \<noteq> []" "length bs \<le> MAXBLOB"
  shows "ifac_mask (code @ y) (length code) key (bs @ z) (length bs) = ret (mask_bytes key code bs)"
  using assms by (simp add: ifac_mask_def mask_bytes_def Let_def HMAC_MAXMSG_def)

lemma dump_ifac_lines:
  assumes wf: "wf_blob (b ! 0)" "wf_blob (b ! 1)" "wf_blob (b ! 2)" "wf_blob (b ! 3)"
    and present: "\<not> (absent (b ! 0) \<and> absent (b ! 1))"
    and code: "contents (b ! 2) = [c]" "1 \<le> unat c" "unat c \<le> 64"
    and frame: "2 + unat c < blen (b ! 3)"
  shows "dump_ifac b = print (ifac_lines (b ! 0) (b ! 1) (unat c) (contents (b ! 3)))"
proof -
  obtain z2 where c: "bdata (b ! 2) = [c] @ z2" "blen (b ! 2) = 1"
    using wf_blob_padding [OF wf(3)] contents_length [OF wf(3)] code(1) by simp
  obtain f z where f: "bdata (b ! 3) = f @ z" "blen (b ! 3) = length f" "contents (b ! 3) = f" "length f \<le> MAXBLOB"
    using wf(4) by (rule wf_blobE)
  define sz where "sz = unat c"
  have sz: "1 \<le> sz" "sz \<le> 64" "2 + sz < length f" using code frame f by (simp_all add: sz_def)
  define origin where "origin = origin_of (b ! 0) (b ! 1)"
  define key where "key = network_key origin"
  define u where "u = mask_bytes key (frame_code sz f) f"
  have lu: "length u = length f" by (simp add: u_def)
  have lcode: "length (frame_code sz f) = sz" using sz by (simp add: frame_code_def)
  have lk: "length key = 64" by (simp add: key_def)
  have org: "origin \<noteq> []" "hex_value origin = hex_bytes origin"
    using present by (auto simp: origin_def origin_of_def hex_value_def)
  have ifac: "drop 2 (f @ z) = frame_code sz f @ drop sz (drop 2 f) @ z"
  proof -
    have "take sz (drop 2 f) @ drop sz (drop 2 f) @ z = drop 2 f @ z"
      by (simp only: append_assoc [symmetric] append_take_drop_id)
    then show ?thesis using sz by (simp add: frame_code_def)
  qed
  have mask: "ifac_mask (drop 2 (f @ z)) sz key (f @ z) (length f) = ret u"
    using ifac_mask_ret [of "frame_code sz f" f "drop sz (drop 2 f) @ z" key z] lcode sz f(4)
    unfolding ifac u_def by fastforce
  have pk: "append_from MAXBLOB [u ! 0 AND 0x7f, u ! 1] (drop (2 + sz) u) (length f - sz - 2) =
      ret (ifac_unwrap key sz f)"
  proof -
    have "take 2 u = [u ! 0, u ! 1]"
      using lu sz by (cases u; cases "tl u") auto
    then have "ifac_unwrap key sz f = [u ! 0 AND 0x7f, u ! 1] @ drop (2 + sz) u"
      by (simp add: ifac_unwrap_def Let_def set_head_def flip: u_def)
    then show ?thesis using lu sz f(4) by simp
  qed
  have lp: "length (ifac_unwrap key sz f) = length f - sz"
    using sz lu by (simp add: ifac_unwrap_def Let_def set_head_def flip: u_def)
  have plen: "length f - sz \<noteq> 0" using sz by simp
  define sig where "sig = ed_signature (drop 32 key) (ifac_unwrap key sz f)"
  have sg: "ed25519_sign (drop 32 key) (ifac_unwrap key sz f) = ret sig"
    using lp f(4) by (simp add: sig_def)
  have lsig: "length sig = 64" by (simp add: sig_def)
  have exp: "drop (64 - sz) sig = ifac_of key sz (ifac_unwrap key sz f)"
    by (simp add: ifac_of_def sig_def)
  have hexes: "field_hex ''ifac'' (drop 2 (f @ z)) sz = print [Field ''ifac'' (hex_bytes (frame_code sz f))]"
    "field_hex ''packet'' (ifac_unwrap key sz f) (length f - sz) = print [Field ''packet'' (hex_bytes (ifac_unwrap key sz f))]"
    "field_hex ''expected_ifac'' (drop (64 - sz) sig) sz = print [Field ''expected_ifac'' (hex_bytes (drop (64 - sz) sig))]"
    "field_hex ''ifac_key'' key 64 = print [Field ''ifac_key'' (hex_bytes key)]"
    "field_hex ''ifac_origin'' origin (length origin) = print [Field ''ifac_origin'' (hex_bytes origin)]"
    using sz lp lk lsig org lcode unfolding ifac by (simp_all add: hex_value_length)
  have ld: "load (drop 2 (f @ z)) sz = ret (frame_code sz f)"
    using lcode unfolding ifac by simp
  have bytes01: "load_byte u 0 = ret (u ! 0)" "load_byte u 1 = ret (u ! 1)"
    using lu sz by (intro load_byte_ok; linarith)+
  have cmp: "take sz (drop (64 - sz) sig) = drop (64 - sz) sig" using sz lsig by simp
  have lines: "ifac_lines (b ! 0) (b ! 1) sz f =
      [Field ''netname'' (blob_value (b ! 0)), Field ''netkey'' (blob_value (b ! 1)),
       Field ''ifac_origin'' (hex_bytes origin), Field ''ifac_key'' (hex_bytes key),
       Field ''ifac_size'' (dec sz), Field ''frame_length'' (dec (length f)),
       Field ''ifac'' (hex_bytes (frame_code sz f)), Field ''packet'' (hex_bytes (ifac_unwrap key sz f)),
       Field ''expected_ifac'' (hex_bytes (drop (64 - sz) sig)),
       Field ''ifac_valid'' (yesno (frame_code sz f = drop (64 - sz) sig))]"
    by (simp add: ifac_lines_def Let_def exp origin_def key_def)
  have guards: "\<not> sz < 1" "\<not> 64 < sz" "\<not> length f \<le> 2 + sz" using sz by simp_all
  have size: "load_byte (bdata (b ! 2)) 0 = ret c" using c by simp
  show ?thesis
    unfolding dump_ifac_def if_not_P [OF present] c(2) size andthen_ret Let_def sz_def [symmetric] f
      if_not_P [OF guards(1)] if_not_P [OF guards(2)] if_not_P [OF guards(3)]
      ifac_origin_ret [OF wf(1,2)] origin_def [symmetric] ifac_key_ret key_def [symmetric] mask bytes01 pk sg ld
      hexes cmp lines
    using wf by simp
qed

end
