(* ===== verification/Encode.thy ===== *)
theory Encode
  imports Ifac
begin

text \<open>
  Rebuilding raw from expect: the buffer of hex digits and its \<open>put\<close> functions, the layouts and
  the two encoders of cmd/dump.c that are not a layout. The lemmas are the inverses of what the
  decoders print: the values of a record put back give the bytes the record was read from.
\<close>

section \<open>The code: the buffer\<close>

text \<open>\<open>struct out\<close> is the string in it; \<open>sizeof o->hex\<close> is \<open>OUTSIZE\<close>.\<close>

definition OUTSIZE :: nat where
  "OUTSIZE = MAXBLOB * 2 + 2"

definition put :: "string \<Rightarrow> string \<Rightarrow> string prog" where
  "put out hex =
    (if length hex mod 2 \<noteq> 0 then fatal (''odd hex length in '' @ hex)
     else if \<exists>c \<in> set hex. unhex c < 0 then fatal (''bad hex in '' @ hex)
     else if length out + length hex \<ge> OUTSIZE then
       fatal (''rebuilt blob exceeds '' @ dec MAXBLOB @ '' bytes'')
     else ret (out @ hex))"

definition put_byte :: "string \<Rightarrow> nat \<Rightarrow> string prog" where
  "put_byte out v = put out (hex02 (v AND 0xff))"

primrec put_bytes :: "string \<Rightarrow> bytes \<Rightarrow> string prog" where
  "put_bytes out [] = ret out"
| "put_bytes out (b # bs) = andthen (put_byte out (unat b)) (\<lambda>out. put_bytes out bs)"

definition put_field :: "string \<Rightarrow> kv list \<Rightarrow> string \<Rightarrow> string prog" where
  "put_field out f name =
    andthen (lookup f name) (\<lambda>v. if v \<noteq> ''-'' then put out v else ret out)"

definition put_hops :: "string \<Rightarrow> kv list \<Rightarrow> string prog" where
  "put_hops out f =
    andthen (lookup f ''hops'') (\<lambda>v. case strtoul v of (hops, rest) \<Rightarrow>
      if rest \<noteq> [] \<or> hops \<ge> MAX_HOPS then fatal (''unusable hops value '' @ v)
      else put_byte out hops)"

text \<open>The search through \<open>contexts\<close> by name.\<close>

fun context_byte :: "(nat \<times> string) list \<Rightarrow> string \<Rightarrow> nat option" where
  "context_byte [] v = None"
| "context_byte ((c, n) # cs) v = (if n = v then Some c else context_byte cs v)"

definition put_context :: "string \<Rightarrow> kv list \<Rightarrow> string prog" where
  "put_context out f =
    andthen (lookup f ''context'') (\<lambda>v. case context_byte contexts v of
      Some c \<Rightarrow> put_byte out c
    | None \<Rightarrow> if length v \<noteq> 2 then fatal (''unusable context value '' @ v) else put out v)"

definition put_header :: "string \<Rightarrow> kv list \<Rightarrow> string prog" where
  "put_header out f =
    andthen (put_field out f ''flags'') (\<lambda>out.
    andthen (put_hops out f) (\<lambda>out.
    andthen (put_field out f ''transport_id'') (\<lambda>out.
    andthen (put_field out f ''destination_hash'') (\<lambda>out.
    put_context out f))))"

definition emit :: "string \<Rightarrow> unit prog" where
  "emit out = print [Bare out]"

definition emit_field :: "kv list \<Rightarrow> string \<Rightarrow> unit prog" where
  "emit_field f name = andthen (lookup f name) (\<lambda>v. print [Bare v])"

section \<open>The code: layouts\<close>

text \<open>The local \<open>buf\<close> has 256 bytes; \<open>strtok\<close> at blanks gives the nonempty parts.\<close>

primrec encode_tokens :: "string list \<Rightarrow> kv list \<Rightarrow> string \<Rightarrow> bool \<Rightarrow> unit prog" where
  "encode_tokens [] f out packing = (if packing then emit out else ret ())"
| "encode_tokens (name # names) f out packing =
    (if name = ''='' then andthen (put_header out f) (\<lambda>out. encode_tokens names f out True)
     else if packing then andthen (put_field out f name) (\<lambda>out. encode_tokens names f out packing)
     else andthen (emit_field f name) (\<lambda>_. encode_tokens names f out packing))"

definition encode_layout :: "string \<Rightarrow> kv list \<Rightarrow> unit prog" where
  "encode_layout lay f =
    (if length lay \<ge> 256 then fatal (''layout longer than '' @ dec 255 @ '' bytes'')
     else encode_tokens (filter (\<lambda>t. t \<noteq> []) (split_on blank lay)) f [] False)"

section \<open>The code: ifac and linkdata\<close>

text \<open>The blob is a local; nothing past what \<open>decode_hex\<close> wrote is read.\<close>

definition get_blob :: "kv list \<Rightarrow> string \<Rightarrow> blob prog" where
  "get_blob f name =
    andthen (lookup f name) (\<lambda>v.
      if v = ''-'' then ret (zero_blob\<lparr>absent := True\<rparr>) else decode_hex zero_blob v name)"

definition encode_ifac :: "kv list \<Rightarrow> unit prog" where
  "encode_ifac f =
    andthen (get_blob f ''netname'') (\<lambda>netname.
    andthen (get_blob f ''netkey'') (\<lambda>netkey.
    andthen (get_blob f ''ifac'') (\<lambda>code.
    andthen (get_blob f ''packet'') (\<lambda>pkt.
    if blen pkt < 2 then fatal (''ifac: packet of '' @ dec (blen pkt) @ '' bytes has no header'')
    else if blen code < 1 then
      fatal (''ifac: access code of '' @ dec (blen code) @ '' bytes is below the minimum of 1'')
    else if blen code > SIGLEN then
      fatal (''ifac: access code of '' @ dec (blen code) @ '' bytes exceeds the signature'')
    else
      let len = blen pkt + blen code
      in if len > MAXBLOB then
           fatal (''ifac: frame of '' @ dec len @ '' bytes exceeds '' @ dec MAXBLOB)
         else
           andthen (ifac_origin netname netkey) (\<lambda>origin.
           andthen (ifac_key origin) (\<lambda>key.
           andthen (append_from MAXBLOB [] (bdata pkt) (blen pkt)) (\<lambda>packet.
           andthen (load_byte packet 0) (\<lambda>p0.
           andthen (load_byte packet 1) (\<lambda>p1.
           andthen (append_from MAXBLOB [p0 OR 0x80, p1] (bdata code) (blen code)) (\<lambda>frame.
           andthen (append_from MAXBLOB frame (drop 2 packet) (blen pkt - 2)) (\<lambda>frame.
           andthen (ifac_mask (bdata code) (blen code) key frame len) (\<lambda>masked.
           andthen (load_byte masked 0) (\<lambda>m0.
           let masked = masked[0 := m0 OR 0x80]
           in andthen (emit_field f ''netname'') (\<lambda>_.
              andthen (emit_field f ''netkey'') (\<lambda>_.
              andthen (put_byte [] (blen code)) (\<lambda>out.
              andthen (emit out) (\<lambda>_.
              andthen (load masked len) (\<lambda>bs.
              andthen (put_bytes [] bs) (\<lambda>out. emit out)))))))))))))))))))"

definition encode_linkdata :: "kv list \<Rightarrow> unit prog" where
  "encode_linkdata f =
    andthen (emit_field f ''link_request'') (\<lambda>_.
    andthen (emit_field f ''responder_private'') (\<lambda>_.
    andthen (put_header [] f) (\<lambda>out.
    andthen (lookup f ''encrypted'') (\<lambda>enc.
    andthen (if enc = ''no'' then put_field out f ''plaintext''
             else andthen (put_field out f ''iv'') (\<lambda>out.
                  andthen (put_field out f ''ciphertext'') (\<lambda>out.
                  put_field out f ''hmac''))) (\<lambda>out.
    emit out)))))"

section \<open>Putting bytes\<close>

lemma hex02_byte: "hex02 (unat b) = hex_byte b" for b :: byte
proof -
  have d: "unat b div 16 < 16" by simp
  have "hex_nat (unat b) = (if unat b < 16 then [digit (unat b)] else hex_nat (unat b div 16) @ [digit (unat b mod 16)])"
    by (rule hex_nat.simps)
  moreover have "hex_nat (unat b div 16) = [digit (unat b div 16)]"
    using d by (subst hex_nat.simps) simp
  moreover have "digit 0 = CHR ''0''" by code_simp
  ultimately show ?thesis by (simp add: hex02_def hex_byte_def)
qed

lemma hex_byte_digits: "c \<in> set (hex_byte b) \<Longrightarrow> 0 \<le> unhex c"
  by (auto simp: hex_byte_def)

lemma hex_bytes_digits: "c \<in> set (hex_bytes bs) \<Longrightarrow> 0 \<le> unhex c"
  using hex_byte_digits by (auto simp: hex_bytes_def)

lemma put_hex:
  assumes "length as + length bs \<le> MAXBLOB"
  shows "put (hex_bytes as) (hex_bytes bs) = ret (hex_bytes (as @ bs))"
proof -
  have "\<not> (\<exists>c \<in> set (hex_bytes bs). unhex c < 0)"
    using hex_bytes_digits by (auto simp: not_less)
  then show ?thesis
    using assms by (simp add: put_def OUTSIZE_def hex_bytes_append)
qed

lemma put_byte_hex:
  fixes b :: byte
  assumes "length as < MAXBLOB"
  shows "put_byte (hex_bytes as) (unat b) = ret (hex_bytes (as @ [b]))"
proof -
  have "unat b AND 0xff = unat b"
    using unat_byte_less [of b] take_bit_eq_mask [of 8 "unat b"]
    by (simp add: take_bit_nat_eq_self mask_eq_exp_minus_1)
  moreover have "hex_byte b = hex_bytes [b]" by (simp add: hex_bytes_def)
  ultimately show ?thesis
    using put_hex [of as "[b]"] assms by (simp add: put_byte_def hex02_byte)
qed

lemma put_bytes_hex:
  "length as + length bs \<le> MAXBLOB \<Longrightarrow> put_bytes (hex_bytes as) bs = ret (hex_bytes (as @ bs))"
  by (induction bs arbitrary: as) (simp_all add: put_byte_hex)

lemma hex_value_dash: "hex_value bs = ''-'' \<longleftrightarrow> bs = []"
proof -
  have "hex_bytes bs \<noteq> ''-''" using hex_bytes_length [of bs] by (metis length_Cons list.size(3) even_Suc_Suc_iff dvd_triv_left odd_one One_nat_def)
  then show ?thesis by (simp add: hex_value_def)
qed

lemma put_field_hex:
  assumes "lookup f name = ret (hex_value bs)" and "length as + length bs \<le> MAXBLOB"
  shows "put_field (hex_bytes as) f name = ret (hex_bytes (as @ bs))"
  using assms put_hex [OF assms(2)] hex_value_dash [of bs]
  by (cases "bs = []") (simp_all add: put_field_def hex_value_nonempty)

lemma put_hops_dec:
  fixes h :: byte
  assumes "lookup f ''hops'' = ret (dec (unat h))" and "unat h < 128" and "length as < MAXBLOB"
  shows "put_hops (hex_bytes as) f = ret (hex_bytes (as @ [h]))"
  using assms put_byte_hex [OF assms(3), of h] by (simp add: put_hops_def ULONG_MAX_def)

lemma context_byte_name: "distinct (map snd cs) \<Longrightarrow> map_of cs c = Some n \<Longrightarrow> context_byte cs n = Some c"
proof (induction cs n rule: context_byte.induct)
  case (2 b m cs v)
  then have "v \<noteq> m" if "map_of cs c = Some v"
    using that map_of_SomeD [of cs c v] by force
  with 2 show ?case by (auto split: if_splits)
qed simp

lemma context_byte_None: "v \<notin> snd ` set cs \<Longrightarrow> context_byte cs v = None"
  by (induction cs v rule: context_byte.induct) auto

lemma contexts_names: "distinct (map snd contexts)" "list_all (\<lambda>n. length n \<noteq> 2) (map snd contexts)"
  by (simp_all add: contexts_def)

lemma put_context_text:
  assumes "lookup f ''context'' = ret (context_text c)" and "length as < MAXBLOB"
  shows "put_context (hex_bytes as) f = ret (hex_bytes (as @ [c]))"
proof (cases "context_name (unat c)")
  case (Some n)
  then have "context_byte contexts n = Some (unat c)"
    using context_byte_name contexts_names(1) by (simp add: context_name_def)
  then show ?thesis
    using assms Some put_byte_hex [OF assms(2), of c] by (simp add: put_context_def context_text_def)
next
  case None
  have l: "length (hex_byte c) = 2" by simp
  then have "hex_byte c \<notin> snd ` set contexts"
    using contexts_names(2) by (auto simp: list_all_iff)
  then have "context_byte contexts (hex_byte c) = None" by (rule context_byte_None)
  moreover have "put (hex_bytes as) (hex_byte c) = ret (hex_bytes (as @ [c]))"
    using put_hex [of as "[c]"] assms(2) by (simp add: hex_bytes_def)
  ultimately show ?thesis
    using assms(1) None l by (simp add: put_context_def context_text_def hex02_byte)
qed

section \<open>ifac rebuilt\<close>

lemma ifac_frame:
  assumes "2 \<le> length packet"
  shows "set_head (\<lambda>b. b OR 0x80) (take 2 packet @ code @ drop 2 packet) =
    [packet ! 0 OR 0x80, packet ! 1] @ code @ drop 2 packet"
proof -
  obtain x y r where "packet = x # y # r"
    using assms by (cases packet; cases "tl packet") auto
  then show ?thesis by (simp add: set_head_def)
qed

lemma set_head_update: "bs \<noteq> [] \<Longrightarrow> bs[0 := f (bs ! 0)] = set_head f bs"
  by (cases bs) (simp_all add: set_head_def)

lemma encode_ifac_lines:
  assumes names: "get_blob f ''netname'' = ret nn" "get_blob f ''netkey'' = ret nk" "wf_blob nn" "wf_blob nk"
    and code: "get_blob f ''ifac'' = ret cb" "wf_blob cb" "1 \<le> blen cb" "blen cb \<le> 64"
    and pkt: "get_blob f ''packet'' = ret pb" "wf_blob pb" "2 \<le> blen pb"
    and fits: "blen pb + blen cb \<le> MAXBLOB"
    and texts: "lookup f ''netname'' = ret v1" "lookup f ''netkey'' = ret v2"
  shows "encode_ifac f = print [Bare v1, Bare v2, Bare (hex_bytes [of_nat (blen cb)]),
    Bare (hex_bytes (ifac_wrap (network_key (origin_of nn nk)) (contents cb) (contents pb)))]"
proof -
  obtain c z1 where c: "bdata cb = c @ z1" "blen cb = length c" "contents cb = c"
    using code(2) by (rule wf_blobE)
  obtain p z2 where p: "bdata pb = p @ z2" "blen pb = length p" "contents pb = p" "length p \<le> MAXBLOB"
    using pkt(2) by (rule wf_blobE)
  have l: "1 \<le> length c" "length c \<le> 64" "2 \<le> length p" "length p + length c \<le> MAXBLOB"
    using code(3,4) pkt(3) fits c(2) p(2) by simp_all
  have ne: "c \<noteq> []" using l(1) by (cases c) simp_all
  have g: "\<not> length p < 2" "\<not> length c < 1" "\<not> 64 < length c" "\<not> MAXBLOB < length p + length c"
    using l by linarith+
  define key where "key = network_key (origin_of nn nk)"
  define fr where "fr = [p ! 0 OR 0x80, p ! 1] @ c @ drop 2 p"
  have lf: "length fr = length p + length c" "fr \<noteq> []" using l by (simp_all add: fr_def)
  define m where "m = mask_bytes key c fr"
  have lm: "length m = length p + length c" "m \<noteq> []"
    using lf by (simp_all add: m_def) (metis length_0_conv mask_bytes_length)
  have wrap: "ifac_wrap key c p = m[0 := m ! 0 OR 0x80]"
    unfolding ifac_wrap_def ifac_frame [OF l(3)] fr_def [symmetric] m_def [symmetric]
    by (rule set_head_update [OF lm(2), of "\<lambda>b. b OR 0x80", symmetric])
  have mask: "ifac_mask (c @ z1) (length c) key fr (length p + length c) = ret m"
    using ifac_mask_ret [of c fr z1 key "[]"] l lf ne by (simp add: m_def)
  have a1: "append_from MAXBLOB [] (p @ z2) (length p) = ret p" using p(4) by simp
  have b01: "load_byte p 0 = ret (p ! 0)" "load_byte p 1 = ret (p ! 1)" "load_byte m 0 = ret (m ! 0)"
    using l lm by (intro load_byte_ok; linarith)+
  have a2: "append_from MAXBLOB [p ! 0 OR 0x80, p ! 1] (c @ z1) (length c) = ret ([p ! 0 OR 0x80, p ! 1] @ c)"
    using l by simp
  have a3: "append_from MAXBLOB ([p ! 0 OR 0x80, p ! 1] @ c) (drop 2 p) (length p - 2) = ret fr"
    using l by (simp add: fr_def)
  have pb: "put_byte [] (length c) = ret (hex_bytes [of_nat (length c)])"
    using put_byte_hex [of "[]" "of_nat (length c)"] l(2) by (simp add: unat_of_nat MAXBLOB_def)
  have ld: "load (m[0 := m ! 0 OR 0x80]) (length p + length c) = ret (m[0 := m ! 0 OR 0x80])"
    using lm by simp
  have pbs: "put_bytes [] (m[0 := m ! 0 OR 0x80]) = ret (hex_bytes (m[0 := m ! 0 OR 0x80]))"
    using put_bytes_hex [of "[]" "m[0 := m ! 0 OR 0x80]"] lm l by simp
  show ?thesis
    unfolding encode_ifac_def names(1,2) code(1) pkt(1) andthen_ret c p if_not_P [OF g(1)]
      if_not_P [OF g(2)] if_not_P [OF g(3)] Let_def if_not_P [OF g(4)]
      ifac_origin_ret [OF names(3,4)] ifac_key_ret key_def [symmetric] a1 b01 a2 a3 mask pb ld pbs
      wrap emit_field_def texts emit_def andthen_print_assoc andthen_print_print
    by simp
qed

end
