(* ===== verification/Msgpack.thy ===== *)
theory Msgpack
  imports Link
begin

text \<open>
  The msgpack reader of cmd/dump.c (\<open>struct mp\<close> and the \<open>mp_\<close> functions). The structure points at
  the \<open>left\<close> bytes still to read; the model holds those bytes, so every read is one of them, and
  \<open>bad\<close> is the flag. The reader steps over whole values by recursion; the measure of the
  termination proof is what is left to read.

  The abstract side is the type \<open>mv\<close> of the values umsgpack writes with its encoder. A reader that
  succeeds has consumed a prefix and depends on nothing after it, which every reader of the code
  keeps to; from that follows that it refuses every input cut short.
\<close>

section \<open>The code: the primitives\<close>

record mp =
  mp_rest :: bytes
  mp_bad :: bool

definition mp_head :: "mp \<Rightarrow> nat \<times> mp" where
  "mp_head m =
    (if mp_bad m \<or> mp_rest m = [] then (0xc1, m\<lparr>mp_bad := True\<rparr>)
     else (unat (hd (mp_rest m)), m\<lparr>mp_rest := tl (mp_rest m)\<rparr>))"

text \<open>A return of \<open>NULL\<close> is \<open>None\<close>.\<close>

definition mp_take :: "mp \<Rightarrow> nat \<Rightarrow> bytes option \<times> mp" where
  "mp_take m n =
    (if mp_bad m \<or> length (mp_rest m) < n then (None, m\<lparr>mp_bad := True\<rparr>)
     else (Some (take n (mp_rest m)), m\<lparr>mp_rest := drop n (mp_rest m)\<rparr>))"

definition mp_be :: "bytes option \<Rightarrow> nat" where
  "mp_be p = (case p of None \<Rightarrow> 0
     | Some bs \<Rightarrow> unat (foldl (\<lambda>v b. push_bit 8 v OR ucast b) 0 bs :: 64 word))"

text \<open>\<open>mp_be (mp_take (m, k), k)\<close>, and a take whose result is not used.\<close>

definition mp_len :: "mp \<Rightarrow> nat \<Rightarrow> nat \<times> mp" where
  "mp_len m k = (case mp_take m k of (p, m') \<Rightarrow> (mp_be p, m'))"

definition mp_drop :: "mp \<Rightarrow> nat \<Rightarrow> mp" where
  "mp_drop m n = snd (mp_take m n)"

definition mp_array :: "mp \<Rightarrow> nat \<times> mp" where
  "mp_array m = (case mp_head m of (h, m') \<Rightarrow>
     (h AND 0x0f, if h AND 0xf0 \<noteq> 0x90 then m'\<lparr>mp_bad := True\<rparr> else m'))"

definition mp_map :: "mp \<Rightarrow> nat \<times> mp" where
  "mp_map m = (case mp_head m of (h, m') \<Rightarrow>
     (if h AND 0xf0 = 0x80 then (h AND 0x0f, m')
      else if h = 0xde then mp_len m' 2
      else (0, m'\<lparr>mp_bad := True\<rparr>)))"

section \<open>The code: stepping over a value\<close>

function mp_skip_head :: "mp \<Rightarrow> nat \<Rightarrow> mp" and mp_skip_loop :: "nat \<Rightarrow> mp \<Rightarrow> mp" where
  "mp_skip_head m h =
    (if h < 0x80 \<or> h \<ge> 0xe0 then m
     else if h = 0xc0 \<or> h = 0xc2 \<or> h = 0xc3 then m
     else if h AND 0xe0 = 0xa0 then mp_drop m (h AND 0x1f)
     else if h = 0xcc \<or> h = 0xd0 then mp_drop m 1
     else if h = 0xcd \<or> h = 0xd1 then mp_drop m 2
     else if h = 0xce \<or> h = 0xd2 \<or> h = 0xca then mp_drop m 4
     else if h = 0xcf \<or> h = 0xd3 \<or> h = 0xcb then mp_drop m 8
     else if h = 0xc4 \<or> h = 0xd9 then (case mp_len m 1 of (n, m') \<Rightarrow> mp_drop m' n)
     else if h = 0xc5 \<or> h = 0xda then (case mp_len m 2 of (n, m') \<Rightarrow> mp_drop m' n)
     else if 0xd4 \<le> h \<and> h \<le> 0xd8 then mp_drop m (1 + push_bit (h - 0xd4) 1)
     else if h = 0xc7 then (case mp_len m 1 of (n, m') \<Rightarrow> mp_drop m' (1 + n))
     else if h = 0xc8 then (case mp_len m 2 of (n, m') \<Rightarrow> mp_drop m' (1 + n))
     else if h AND 0xf0 = 0x90 then mp_skip_loop (h AND 0x0f) m
     else if h AND 0xf0 = 0x80 then mp_skip_loop (2 * (h AND 0x0f)) m
     else if h = 0xdc then (case mp_len m 2 of (n, m') \<Rightarrow> mp_skip_loop n m')
     else if h = 0xde then (case mp_len m 2 of (n, m') \<Rightarrow> mp_skip_loop (2 * n) m')
     else m\<lparr>mp_bad := True\<rparr>)"
| "mp_skip_loop 0 m = m"
| "mp_skip_loop (Suc n) m =
    (if mp_bad m then m
     else case mp_head m of (h, m') \<Rightarrow> mp_skip_loop n (mp_skip_head m' h))"
  by pat_completeness auto

text \<open>What is left to read, and whether anything will be: it never grows, and a header byte
  uses some of it.\<close>

definition mp_fuel :: "mp \<Rightarrow> nat" where
  "mp_fuel m = (if mp_bad m then 0 else Suc (length (mp_rest m)))"

lemma mp_take_fuel: "mp_fuel (snd (mp_take m n)) \<le> mp_fuel m"
  by (simp add: mp_take_def mp_fuel_def)

lemma mp_drop_fuel: "mp_fuel (mp_drop m n) \<le> mp_fuel m"
  by (simp add: mp_drop_def mp_take_fuel)

lemma mp_len_fuel: "mp_len m k = (n, m') \<Longrightarrow> mp_fuel m' \<le> mp_fuel m"
  using mp_take_fuel [of m k] by (auto simp: mp_len_def split: prod.splits)

lemma mp_head_fuel: "\<not> mp_bad m \<Longrightarrow> mp_head m = (h, m') \<Longrightarrow> mp_fuel m' < mp_fuel m"
  by (auto simp: mp_head_def mp_fuel_def split: if_splits)

lemma bad_fuel: "mp_fuel (m\<lparr>mp_bad := True\<rparr>) \<le> mp_fuel m" by (simp add: mp_fuel_def)

lemma mp_skip_fuel:
  "mp_skip_head_mp_skip_loop_dom (Inl (m, h)) \<Longrightarrow> mp_fuel (mp_skip_head m h) \<le> mp_fuel m"
  "mp_skip_head_mp_skip_loop_dom (Inr (n, m)) \<Longrightarrow> mp_fuel (mp_skip_loop n m) \<le> mp_fuel m"
proof (induction rule: mp_skip_head_mp_skip_loop.pinduct)
  case (1 m h)
  then show ?case
    by (subst mp_skip_head.psimps)
      (auto simp: mp_drop_fuel bad_fuel split: prod.splits dest: mp_len_fuel intro: order_trans [OF mp_drop_fuel] order_trans)
next
  case (2 m)
  then show ?case by (simp add: mp_skip_loop.psimps)
next
  case (3 n m)
  show ?case
  proof (cases "mp_bad m")
    case True
    then show ?thesis using 3 by (simp add: mp_skip_loop.psimps)
  next
    case False
    obtain h m' where hm: "mp_head m = (h, m')" by (cases "mp_head m")
    have "mp_fuel m' < mp_fuel m" by (rule mp_head_fuel [OF False hm])
    moreover have "mp_fuel (mp_skip_head m' h) \<le> mp_fuel m'"
      using "3.IH"(1) [OF False hm [symmetric]] .
    moreover have "mp_fuel (mp_skip_loop n (mp_skip_head m' h)) \<le> mp_fuel (mp_skip_head m' h)"
      using "3.IH"(2) [OF False hm [symmetric]] .
    ultimately show ?thesis
      using 3(1) False hm by (simp add: mp_skip_loop.psimps)
  qed
qed

lemma mp_len_fuel': "(n, m') = mp_len m k \<Longrightarrow> mp_fuel m' \<le> mp_fuel m"
  using mp_len_fuel [of m k n m'] by simp

lemma mp_head_fuel': "(h, m') = mp_head m \<Longrightarrow> \<not> mp_bad m \<Longrightarrow> mp_fuel m' < mp_fuel m"
  using mp_head_fuel [of m h m'] by simp

definition skip_order :: "((mp \<times> nat + nat \<times> mp) \<times> (mp \<times> nat + nat \<times> mp)) set" where
  "skip_order = inv_image (less_than <*lex*> less_than)
     (\<lambda>x. case x of Inl (m, h) \<Rightarrow> (mp_fuel m, 1::nat) | Inr (n, m) \<Rightarrow> (mp_fuel m, 0))"

lemma skip_orderI:
  "mp_fuel m' < mp_fuel m \<Longrightarrow> (Inl (m', h), Inr (n, m)) \<in> skip_order"
  "mp_fuel m' \<le> mp_fuel m \<Longrightarrow> (Inr (n, m'), Inl (m, h)) \<in> skip_order"
  "mp_fuel m' < mp_fuel m \<Longrightarrow> (Inr (n', m'), Inr (n, m)) \<in> skip_order"
  by (auto simp: skip_order_def)

termination mp_skip_head
proof (relation skip_order)
  show "wf skip_order" unfolding skip_order_def by (intro wf_inv_image wf_lex_prod wf_less_than)
qed (rule skip_orderI; fastforce dest: mp_len_fuel' mp_head_fuel' dest: mp_skip_fuel(1))+

declare mp_skip_head.simps [simp del] mp_skip_loop.simps [simp del]

definition mp_skip :: "mp \<Rightarrow> mp" where
  "mp_skip m = (case mp_head m of (h, m') \<Rightarrow> mp_skip_head m' h)"

section \<open>The code: keys and values\<close>

text \<open>The character of a key, 0 for none.\<close>

definition mp_key :: "mp \<Rightarrow> byte \<times> mp" where
  "mp_key m = (case mp_head m of (h, m') \<Rightarrow>
     if h \<noteq> 0xa1 then (0, mp_skip_head m' h)
     else (case mp_take m' 1 of (p, m'') \<Rightarrow> (case p of Some bs \<Rightarrow> bs ! 0 | None \<Rightarrow> 0, m'')))"

definition mp_uint :: "mp \<Rightarrow> nat \<times> mp" where
  "mp_uint m = (case mp_head m of (h, m') \<Rightarrow>
     if h < 0x80 then (h, m')
     else if h = 0xcc then mp_len m' 1
     else if h = 0xcd then mp_len m' 2
     else if h = 0xce then mp_len m' 4
     else (0, m'\<lparr>mp_bad := True\<rparr>))"

text \<open>The pointer and the length \<open>mp_bin\<close> returns, as the bytes at the pointer.\<close>

definition mp_bin :: "mp \<Rightarrow> bytes option \<times> mp" where
  "mp_bin m = (case mp_head m of (h, m') \<Rightarrow>
     if h = 0xc0 then (None, m')
     else if h = 0xc4 then (case mp_len m' 1 of (n, m'') \<Rightarrow> mp_take m'' n)
     else if h = 0xc5 then (case mp_len m' 2 of (n, m'') \<Rightarrow> mp_take m'' n)
     else (None, m'\<lparr>mp_bad := True\<rparr>))"

definition mp_double :: "mp \<Rightarrow> bytes option \<times> mp" where
  "mp_double m = (case mp_head m of (h, m') \<Rightarrow>
     mp_take (if h \<noteq> 0xcb then m'\<lparr>mp_bad := True\<rparr> else m') 8)"

text \<open>Printing a value; the stream is the result. The format of a number is an argument.\<close>

definition mp_field_uint :: "mp \<Rightarrow> string \<Rightarrow> (nat \<Rightarrow> string) \<Rightarrow> mp prog" where
  "mp_field_uint m name fmt = (case mp_uint m of (v, m') \<Rightarrow>
     andthen (field name (if mp_bad m' then ''-'' else fmt v)) (\<lambda>_. ret m'))"

definition mp_field_bin :: "mp \<Rightarrow> string \<Rightarrow> mp prog" where
  "mp_field_bin m name = (case mp_bin m of (p, m') \<Rightarrow>
     andthen (if mp_bad m' then field name ''-''
              else (case p of None \<Rightarrow> field_hex name [] 0 | Some bs \<Rightarrow> field_hex name bs (length bs)))
       (\<lambda>_. ret m'))"

definition mp_field_double :: "mp \<Rightarrow> string \<Rightarrow> mp prog" where
  "mp_field_double m name = (case mp_double m of (p, m') \<Rightarrow>
     andthen (if mp_bad m' then field name ''-''
              else (case p of None \<Rightarrow> halt Out_of_bounds | Some bs \<Rightarrow> field_hex name bs 8))
       (\<lambda>_. ret m'))"

section \<open>Big-endian counts\<close>

definition be_value :: "bytes \<Rightarrow> nat" where
  "be_value bs = foldl (\<lambda>v b. 256 * v + unat b) 0 bs"

lemma be_value_Nil [simp]: "be_value [] = 0"
  by (simp add: be_value_def)

lemma be_value_snoc [simp]: "be_value (bs @ [b]) = 256 * be_value bs + unat b"
  by (simp add: be_value_def)

lemma be_value_bound: "be_value bs < 256 ^ length bs"
proof (induction bs rule: rev_induct)
  case Nil
  then show ?case by simp
next
  case (snoc b bs)
  have "256 * be_value bs + unat b < 256 * Suc (be_value bs)" by simp
  also have "\<dots> \<le> 256 * 256 ^ length bs"
    using snoc.IH by (intro mult_le_mono2) simp
  finally show ?case by simp
qed

lemma mp_be_Some: "length bs \<le> 8 \<Longrightarrow> mp_be (Some bs) = be_value bs"
proof (induction bs rule: rev_induct)
  case Nil
  then show ?case by (simp add: mp_be_def)
next
  case (snoc b bs)
  define w :: "64 word" where "w = foldl (\<lambda>v b. push_bit 8 v OR ucast b) 0 bs"
  have w: "unat w = be_value bs"
    using snoc by (simp add: mp_be_def w_def)
  have "be_value bs < 256 ^ 7"
    using be_value_bound [of bs] snoc.prems power_increasing [of "length bs" 7 "256 :: nat"]
    by simp
  then have "take_bit 64 (push_bit 8 (be_value bs)) = push_bit 8 (be_value bs)"
    by (simp add: take_bit_nat_eq_self push_bit_eq_mult)
  moreover have "take_bit 64 (unat b) = unat b"
    by (rule take_bit_nat_eq_self) (rule less_trans [OF unat_byte_less], simp)
  ultimately have "unat (push_bit 8 w OR ucast b) = push_bit 8 (be_value bs) OR unat b"
    by (simp add: unsigned_or_eq unsigned_push_bit_eq unsigned_ucast_eq w)
  also have "\<dots> = 256 * be_value bs + unat b"
    using push_bit_or [of "unat b" 8 "be_value bs"] by simp
  finally show ?case by (simp add: mp_be_def w_def)
qed

definition be16 :: "nat \<Rightarrow> bytes" where
  "be16 n = [of_nat (n div 256), of_nat (n mod 256)]"

lemma be_value_8: "n < 256 \<Longrightarrow> be_value [of_nat n] = n"
  by (simp add: be_value_def unat_of_nat)

lemma be_value_16: "n < 65536 \<Longrightarrow> be_value (be16 n) = n"
  by (simp add: be_value_def be16_def unat_of_nat)

section \<open>Readers\<close>

definition stream :: "bytes \<Rightarrow> mp" where
  "stream bs = \<lparr>mp_rest = bs, mp_bad = False\<rparr>"

lemma stream_simps [simp]:
  "mp_rest (stream bs) = bs" "mp_bad (stream bs) = False" "(stream bs)\<lparr>mp_rest := z\<rparr> = stream z"
  "stream bs = stream z \<longleftrightarrow> bs = z" "(stream bs)\<lparr>mp_bad := True\<rparr> \<noteq> stream z"
  by (simp_all add: stream_def)

lemma stream_cases: "mp_bad m \<or> (\<exists>bs. m = stream bs)"
  by (cases m) (auto simp: stream_def)

text \<open>\<open>reads r a u\<close>: the bytes \<open>u\<close> make \<open>r\<close> return \<open>a\<close> and stop right behind them, whatever
  follows.\<close>

definition reads :: "(mp \<Rightarrow> 'a \<times> mp) \<Rightarrow> 'a \<Rightarrow> bytes \<Rightarrow> bool" where
  "reads r a u \<longleftrightarrow> (\<forall>x. r (stream (u @ x)) = (a, stream x))"

locale mp_reader =
  fixes r :: "mp \<Rightarrow> 'a \<times> mp"
  assumes sticky: "mp_bad m \<Longrightarrow> mp_bad (snd (r m))"
    and local_read: "r (stream bs) = (a, stream z) \<Longrightarrow> \<exists>u. bs = u @ z \<and> reads r a u"
begin

lemma read_length: "r (stream bs) = (a, stream z) \<Longrightarrow> length z \<le> length bs"
  using local_read by fastforce

lemma read_extend:
  assumes "r (stream bs) = (a, stream z)"
  shows "r (stream (bs @ x)) = (a, stream (z @ x))"
proof -
  obtain u where "bs = u @ z" "reads r a u" using local_read [OF assms] by blast
  then show ?thesis by (simp add: reads_def)
qed

text \<open>What a reader consumes is minimal: cut short, it is refused.\<close>

lemma refuses_prefix:
  assumes "reads r a (pre @ post)" and "post \<noteq> []"
  shows "mp_bad (snd (r (stream pre)))"
proof (rule ccontr)
  assume "\<not> mp_bad (snd (r (stream pre)))"
  then obtain b z where rz: "r (stream pre) = (b, stream z)"
    using stream_cases by (metis prod.collapse)
  have "r (stream (pre @ post)) = (b, stream (z @ post))"
    by (rule read_extend [OF rz])
  moreover have "r (stream (pre @ post)) = (a, stream [])"
    using assms(1) unfolding reads_def by (metis append_Nil2)
  ultimately show False using assms(2) by simp
qed

lemma reads_det: "reads r a u \<Longrightarrow> reads r b v \<Longrightarrow> u @ x = v @ y \<Longrightarrow> a = b \<and> u = v"
proof -
  assume "reads r a u" "reads r b v" "u @ x = v @ y"
  then have "(a, stream x) = (b, stream y)" unfolding reads_def by metis
  then show "a = b \<and> u = v" using \<open>u @ x = v @ y\<close> by simp
qed

end

text \<open>Running two readers in a row.\<close>

definition mp_then :: "(mp \<Rightarrow> 'a \<times> mp) \<Rightarrow> ('a \<Rightarrow> mp \<Rightarrow> 'b \<times> mp) \<Rightarrow> mp \<Rightarrow> 'b \<times> mp" where
  "mp_then r s m = (case r m of (a, m') \<Rightarrow> s a m')"

lemma reads_then: "reads r a u \<Longrightarrow> reads (s a) b v \<Longrightarrow> reads (mp_then r s) b (u @ v)"
  by (simp add: reads_def mp_then_def)

lemma mp_reader_then:
  assumes "mp_reader r" and "\<And>a. mp_reader (s a)"
  shows "mp_reader (mp_then r s)"
proof
  fix m :: mp
  assume "mp_bad m"
  then have "mp_bad (snd (s a (snd (r m))))" for a
    by (intro mp_reader.sticky [OF assms(2)] mp_reader.sticky [OF assms(1)])
  then show "mp_bad (snd (mp_then r s m))"
    by (simp add: mp_then_def case_prod_beta)
next
  fix bs c z
  assume rs: "mp_then r s (stream bs) = (c, stream z)"
  obtain a m' where r: "r (stream bs) = (a, m')" by (cases "r (stream bs)")
  have s: "s a m' = (c, stream z)" using rs r by (simp add: mp_then_def)
  have "\<not> mp_bad m'" using mp_reader.sticky [OF assms(2), of m' a] s by auto
  then obtain y where m': "m' = stream y" using stream_cases by blast
  obtain u where u: "bs = u @ y" "reads r a u"
    using mp_reader.local_read [OF assms(1)] r m' by blast
  obtain v where v: "y = v @ z" "reads (s a) c v"
    using mp_reader.local_read [OF assms(2)] s m' by blast
  show "\<exists>u. bs = u @ z \<and> reads (mp_then r s) c u"
    using u v reads_then [of r a u s c v] by (intro exI [of _ "u @ v"]) simp
qed

lemma mp_reader_return: "mp_reader (\<lambda>m. (a, m))"
  by unfold_locales (auto simp: reads_def)

lemma mp_reader_fail: "mp_reader (\<lambda>m. (a, m\<lparr>mp_bad := True\<rparr>))"
  by unfold_locales (auto simp: reads_def stream_def)

lemma mp_reader_if: "mp_reader r \<Longrightarrow> mp_reader s \<Longrightarrow> mp_reader (\<lambda>m. if c then r m else s m)"
  by (cases c) simp_all

text \<open>A reader that follows another one, as the functions of the code are written.\<close>

lemma mp_reader_case:
  "mp_reader r \<Longrightarrow> (\<And>a. mp_reader (s a)) \<Longrightarrow> mp_reader (\<lambda>m. case r m of (a, m') \<Rightarrow> s a m')"
  using mp_reader_then [of r s] by (simp add: mp_then_def [abs_def])

lemma mp_reader_map: "mp_reader r \<Longrightarrow> mp_reader (\<lambda>m. case r m of (a, m') \<Rightarrow> (f a, m'))"
  by (intro mp_reader_case mp_reader_return)

interpretation head: mp_reader mp_head
proof
  fix bs a z
  assume "mp_head (stream bs) = (a, stream z)"
  then obtain b where "bs = [b] @ z" "a = unat b"
    by (cases bs) (auto simp: mp_head_def split: if_splits)
  then show "\<exists>u. bs = u @ z \<and> reads mp_head a u"
    by (intro exI [of _ "[b]"]) (simp add: reads_def mp_head_def)
qed (simp add: mp_head_def)

interpretation take_n: mp_reader "\<lambda>m. mp_take m n" for n
proof
  fix bs a z
  assume "mp_take (stream bs) n = (a, stream z)"
  then have "n \<le> length bs" "a = Some (take n bs)" "z = drop n bs"
    by (auto simp: mp_take_def stream_def split: if_splits)
  then show "\<exists>u. bs = u @ z \<and> reads (\<lambda>m. mp_take m n) a u"
    by (intro exI [of _ "take n bs"]) (simp add: reads_def mp_take_def)
qed (simp add: mp_take_def)

interpretation len: mp_reader "\<lambda>m. mp_len m k" for k
  unfolding mp_len_def by (rule mp_reader_map) (rule take_n.mp_reader_axioms)

interpretation array: mp_reader mp_array
proof -
  have "mp_reader (mp_then mp_head (\<lambda>h m. if h AND 0xf0 \<noteq> 0x90 then (h AND 0xf, m\<lparr>mp_bad := True\<rparr>) else (h AND 0xf, m)))"
    by (intro mp_reader_then head.mp_reader_axioms mp_reader_if mp_reader_fail mp_reader_return)
  moreover have "mp_array = mp_then mp_head (\<lambda>h m. if h AND 0xf0 \<noteq> 0x90 then (h AND 0xf, m\<lparr>mp_bad := True\<rparr>) else (h AND 0xf, m))"
    by (auto simp: mp_array_def mp_then_def split: prod.splits)
  ultimately show "mp_reader mp_array" by simp
qed

interpretation pairs: mp_reader mp_map
  unfolding mp_map_def [abs_def]
  by (intro mp_reader_case head.mp_reader_axioms mp_reader_if mp_reader_fail mp_reader_return
      len.mp_reader_axioms)

interpretation uint: mp_reader mp_uint
  unfolding mp_uint_def [abs_def]
  by (intro mp_reader_case head.mp_reader_axioms mp_reader_if mp_reader_fail mp_reader_return
      len.mp_reader_axioms)

interpretation bin: mp_reader mp_bin
  unfolding mp_bin_def [abs_def]
  by (intro mp_reader_case head.mp_reader_axioms mp_reader_if mp_reader_fail mp_reader_return
      len.mp_reader_axioms take_n.mp_reader_axioms)


section \<open>Stepping over values\<close>

text \<open>What a head byte announces: a body of a fixed size, a body whose size is in \<open>k\<close> bytes, with
  a number of bytes outside that size, or elements, again counted by the head or in \<open>k\<close> bytes.\<close>

datatype shape = Body nat | Sized nat nat | Items nat | Counted nat nat | Unknown

definition shape_of :: "nat \<Rightarrow> shape" where
  "shape_of h =
    (if h < 0x80 \<or> h \<ge> 0xe0 then Body 0
     else if h = 0xc0 \<or> h = 0xc2 \<or> h = 0xc3 then Body 0
     else if h AND 0xe0 = 0xa0 then Body (h AND 0x1f)
     else if h = 0xcc \<or> h = 0xd0 then Body 1
     else if h = 0xcd \<or> h = 0xd1 then Body 2
     else if h = 0xce \<or> h = 0xd2 \<or> h = 0xca then Body 4
     else if h = 0xcf \<or> h = 0xd3 \<or> h = 0xcb then Body 8
     else if h = 0xc4 \<or> h = 0xd9 then Sized 1 0
     else if h = 0xc5 \<or> h = 0xda then Sized 2 0
     else if 0xd4 \<le> h \<and> h \<le> 0xd8 then Body (1 + push_bit (h - 0xd4) 1)
     else if h = 0xc7 then Sized 1 1
     else if h = 0xc8 then Sized 2 1
     else if h AND 0xf0 = 0x90 then Items (h AND 0x0f)
     else if h AND 0xf0 = 0x80 then Items (2 * (h AND 0x0f))
     else if h = 0xdc then Counted 2 1
     else if h = 0xde then Counted 2 2
     else Unknown)"

definition skip_shape :: "shape \<Rightarrow> mp \<Rightarrow> mp" where
  "skip_shape s m = (case s of
     Body n \<Rightarrow> mp_drop m n
   | Sized k e \<Rightarrow> (case mp_len m k of (n, m') \<Rightarrow> mp_drop m' (e + n))
   | Items n \<Rightarrow> mp_skip_loop n m
   | Counted k f \<Rightarrow> (case mp_len m k of (n, m') \<Rightarrow> mp_skip_loop (f * n) m')
   | Unknown \<Rightarrow> m\<lparr>mp_bad := True\<rparr>)"

lemma mp_drop_0: "mp_drop m 0 = m"
  by (simp add: mp_drop_def mp_take_def)

lemma skip_shape_if: "skip_shape (if c then s else t) m = (if c then skip_shape s m else skip_shape t m)"
  by simp

lemma mp_skip_head_shape: "mp_skip_head m h = skip_shape (shape_of h) m"
  unfolding shape_of_def skip_shape_if
  by (simp only: skip_shape_def shape.case mp_drop_0 mp_skip_head.simps add_0 mult_1)

lemma mp_drop_bad: "mp_bad m \<Longrightarrow> mp_bad (mp_drop m n)"
  by (simp add: mp_drop_def mp_take_def)

lemma mp_len_bad: "mp_bad m \<Longrightarrow> mp_bad (snd (mp_len m k))"
  by (rule len.sticky)

lemma mp_skip_loop_bad: "mp_bad m \<Longrightarrow> mp_bad (mp_skip_loop n m)"
  by (cases n) (simp_all add: mp_skip_loop.simps)

lemma mp_skip_head_bad: "mp_bad m \<Longrightarrow> mp_bad (mp_skip_head m h)"
  using mp_len_bad [of m]
  by (auto simp: mp_skip_head_shape skip_shape_def mp_drop_bad mp_skip_loop_bad case_prod_beta split: shape.split)

text \<open>Reading \<open>u\<close> and nothing more, for steps without a result.\<close>

definition steps :: "(mp \<Rightarrow> mp) \<Rightarrow> bytes \<Rightarrow> bool" where
  "steps f u \<longleftrightarrow> (\<forall>x. f (stream (u @ x)) = stream x)"

lemma steps_reads: "steps f u \<longleftrightarrow> reads (\<lambda>m. ((), f m)) () u"
  by (simp add: steps_def reads_def)

lemma drop_steps:
  assumes "mp_drop (stream bs) n = stream z"
  shows "\<exists>u. bs = u @ z \<and> steps (\<lambda>m. mp_drop m n) u"
proof -
  obtain p where "mp_take (stream bs) n = (p, stream z)"
    using assms by (cases "mp_take (stream bs) n") (simp add: mp_drop_def)
  then obtain u where "bs = u @ z" "reads (\<lambda>m. mp_take m n) p u"
    using take_n.local_read by blast
  then show ?thesis by (auto simp: reads_def steps_def mp_drop_def)
qed

lemma len_reads:
  assumes "mp_len (stream bs) k = (n, m')" and "f n m' = stream z" and "\<And>m. mp_bad m \<Longrightarrow> mp_bad (f n m)"
    and "\<And>y. m' = stream y \<Longrightarrow> \<exists>v. y = v @ z \<and> steps (f n) v"
  shows "\<exists>u. bs = u @ z \<and> steps (\<lambda>m. case mp_len m k of (n, m') \<Rightarrow> f n m') u"
proof -
  have "\<not> mp_bad m'" using assms(2,3) by force
  then obtain y where y: "m' = stream y" using stream_cases by blast
  obtain u where u: "bs = u @ y" "reads (\<lambda>m. mp_len m k) n u"
    using len.local_read assms(1) y by blast
  obtain v where v: "y = v @ z" "steps (f n) v" using assms(4) y by blast
  show ?thesis
    using u v by (intro exI [of _ "u @ v"]) (simp add: reads_def steps_def)
qed

lemma skip_loop_local_step:
  assumes head: "\<And>bs h z. length bs < k \<Longrightarrow> mp_skip_head (stream bs) h = stream z \<Longrightarrow>
      \<exists>u. bs = u @ z \<and> steps (\<lambda>m. mp_skip_head m h) u"
    and loop: "\<And>bs n z. length bs < k \<Longrightarrow> mp_skip_loop n (stream bs) = stream z \<Longrightarrow>
      \<exists>u. bs = u @ z \<and> steps (mp_skip_loop n) u"
    and "length bs \<le> k" and run: "mp_skip_loop n (stream bs) = stream z"
  shows "\<exists>u. bs = u @ z \<and> steps (mp_skip_loop n) u"
proof (cases n)
  case 0
  then show ?thesis using run by (intro exI [of _ "[]"]) (simp add: mp_skip_loop.simps steps_def)
next
  case (Suc i)
  obtain h m' where hm: "mp_head (stream bs) = (h, m')" by (cases "mp_head (stream bs)")
  have rest: "mp_skip_loop i (mp_skip_head m' h) = stream z"
    using run Suc hm by (simp add: mp_skip_loop.simps)
  then have ok: "\<not> mp_bad (mp_skip_head m' h)" "\<not> mp_bad m'"
    using mp_skip_loop_bad [of "mp_skip_head m' h" i] mp_skip_head_bad [of m' h] by auto
  then obtain y y' where y: "m' = stream y" "mp_skip_head m' h = stream y'"
    using stream_cases by metis
  obtain b where b: "bs = b # y" "h = unat b"
    using hm y by (cases bs) (auto simp: mp_head_def)
  obtain u where u: "y = u @ y'" "steps (\<lambda>m. mp_skip_head m h) u"
    using head [of y h y'] y b \<open>length bs \<le> k\<close> by auto
  obtain v where v: "y' = v @ z" "steps (mp_skip_loop i) v"
    using loop [of y' i z] y b u rest \<open>length bs \<le> k\<close> by auto
  have "steps (mp_skip_loop n) (b # u @ v)"
    using u v Suc b by (simp add: steps_def mp_skip_loop.simps mp_head_def)
  then show ?thesis using u v b by (intro exI [of _ "b # u @ v"]) simp
qed

lemma skip_head_local_step:
  assumes loop: "\<And>bs n z. length bs \<le> k \<Longrightarrow> mp_skip_loop n (stream bs) = stream z \<Longrightarrow>
      \<exists>u. bs = u @ z \<and> steps (mp_skip_loop n) u"
    and "length bs \<le> k" and run: "mp_skip_head (stream bs) h = stream z"
  shows "\<exists>u. bs = u @ z \<and> steps (\<lambda>m. mp_skip_head m h) u"
proof (cases "shape_of h")
  case (Body n)
  then show ?thesis
    using drop_steps run by (simp add: mp_skip_head_shape skip_shape_def)
next
  case (Items n)
  then show ?thesis
    using loop [OF assms(2)] run by (simp add: mp_skip_head_shape skip_shape_def)
next
  case Unknown
  then show ?thesis using run by (simp add: mp_skip_head_shape skip_shape_def)
next
  case (Sized j e)
  obtain n m' where nm: "mp_len (stream bs) j = (n, m')" by (cases "mp_len (stream bs) j")
  have "mp_drop m' (e + n) = stream z"
    using run nm Sized by (simp add: mp_skip_head_shape skip_shape_def)
  then have "\<exists>u. bs = u @ z \<and> steps (\<lambda>m. case mp_len m j of (n, m') \<Rightarrow> mp_drop m' (e + n)) u"
    by (rule len_reads [OF nm]) (use mp_drop_bad drop_steps \<open>mp_drop m' (e + n) = stream z\<close> in auto)
  then show ?thesis using Sized by (simp add: mp_skip_head_shape skip_shape_def)
next
  case (Counted j g)
  obtain n m' where nm: "mp_len (stream bs) j = (n, m')" by (cases "mp_len (stream bs) j")
  have r: "mp_skip_loop (g * n) m' = stream z"
    using run nm Counted by (simp add: mp_skip_head_shape skip_shape_def)
  have "\<exists>u. bs = u @ z \<and> steps (\<lambda>m. case mp_len m j of (n, m') \<Rightarrow> mp_skip_loop (g * n) m') u"
  proof (rule len_reads [where f = "\<lambda>n m. mp_skip_loop (g * n) m", OF nm])
    show "mp_skip_loop (g * n) m' = stream z" by (rule r)
  next
    fix y
    assume y: "m' = stream y"
    then have "length y \<le> length bs" using len.read_length nm by blast
    then show "\<exists>v. y = v @ z \<and> steps (mp_skip_loop (g * n)) v"
      using loop [of y "g * n" z] r y assms(2) by simp
  qed (rule mp_skip_loop_bad)
  then show ?thesis using Counted by (simp add: mp_skip_head_shape skip_shape_def)
qed

lemma skip_local:
  "(\<forall>h z. mp_skip_head (stream bs) h = stream z \<longrightarrow> (\<exists>u. bs = u @ z \<and> steps (\<lambda>m. mp_skip_head m h) u)) \<and>
   (\<forall>n z. mp_skip_loop n (stream bs) = stream z \<longrightarrow> (\<exists>u. bs = u @ z \<and> steps (mp_skip_loop n) u))"
proof (induction "length bs" arbitrary: bs rule: less_induct)
  case less
  have loop: "\<exists>u. bs' = u @ z \<and> steps (mp_skip_loop n) u"
    if "length bs' \<le> length bs" "mp_skip_loop n (stream bs') = stream z" for bs' n z
    using skip_loop_local_step [of "length bs" bs' n z] less that by blast
  then show ?case
    using skip_head_local_step [of "length bs" bs] by blast
qed

lemma mp_reader_skip_head: "mp_reader (\<lambda>m. ((), mp_skip_head m h))"
  by unfold_locales (use skip_local mp_skip_head_bad in \<open>auto simp: steps_reads\<close>)

text \<open>\<open>mp_skip\<close> as a reader without a result, and the key reader, which calls it.\<close>

definition skip_value :: "mp \<Rightarrow> unit \<times> mp" where
  "skip_value m = ((), mp_skip m)"

interpretation skip: mp_reader skip_value
proof -
  have "mp_reader (\<lambda>m. case mp_head m of (h, m') \<Rightarrow> ((), mp_skip_head m' h))"
    by (intro mp_reader_case head.mp_reader_axioms mp_reader_skip_head)
  then show "mp_reader skip_value"
    by (simp add: skip_value_def [abs_def] mp_skip_def case_prod_beta)
qed

interpretation key: mp_reader mp_key
proof -
  have skip: "mp_reader (\<lambda>m. (0 :: byte, mp_skip_head m h))" for h
    using mp_reader_map [OF mp_reader_skip_head, of "\<lambda>_. 0 :: byte"] by simp
  have take: "mp_reader (\<lambda>m. case mp_take m 1 of (p, m') \<Rightarrow> ((case p of Some bs \<Rightarrow> bs ! 0 | None \<Rightarrow> (0 :: byte)), m'))"
    by (intro mp_reader_map take_n.mp_reader_axioms)
  show "mp_reader mp_key"
    unfolding mp_key_def [abs_def]
    by (intro mp_reader_case head.mp_reader_axioms mp_reader_if skip take)
qed

interpretation double: mp_reader mp_double
proof -
  have take: "mp_reader (\<lambda>m. mp_take (m\<lparr>mp_bad := True\<rparr>) 8)"
    by unfold_locales (auto simp: mp_take_def stream_def split: if_splits)
  have "mp_reader (\<lambda>m. case mp_head m of (h, m') \<Rightarrow>
      if h \<noteq> 0xcb then mp_take (m'\<lparr>mp_bad := True\<rparr>) 8 else mp_take m' 8)"
    by (intro mp_reader_case head.mp_reader_axioms mp_reader_if take take_n.mp_reader_axioms)
  moreover have "mp_double = (\<lambda>m. case mp_head m of (h, m') \<Rightarrow>
      if h \<noteq> 0xcb then mp_take (m'\<lparr>mp_bad := True\<rparr>) 8 else mp_take m' 8)"
    by (auto simp: mp_double_def split: prod.splits)
  ultimately show "mp_reader mp_double" by simp
qed

end
