(* ===== verification/Msgpack_Values.thy ===== *)
theory Msgpack_Values
  imports Msgpack
begin

text \<open>
  The values umsgpack writes (\<open>mv\<close>) and their encoding (\<open>pack\<close>), and what the readers of
  cmd/dump.c make of an encoded value: \<open>mp_skip\<close> steps over exactly one of them, and the readers of
  numbers, byte strings and keys return what was packed.
\<close>

section \<open>Values\<close>

text \<open>What umsgpack writes. \<open>Atom\<close> is a value of its head byte alone, \<open>Num\<close> an integer or a
  float behind its head byte.\<close>

datatype mv =
  Atom byte
| Num byte bytes
| Str bytes
| Bin bytes
| Ext byte bytes
| Arr "mv list"
| Map "(mv \<times> mv) list"

text \<open>A count in the narrowest width: in the head byte below \<open>lim\<close>, then in one byte where the
  type has that width, then in two.\<close>

definition num_sizes :: "(byte \<times> nat) list" where
  "num_sizes = [(0xcc, 1), (0xd0, 1), (0xcd, 2), (0xd1, 2), (0xce, 4), (0xd2, 4), (0xca, 4),
     (0xcf, 8), (0xd3, 8), (0xcb, 8)]"

definition str_head :: "nat \<Rightarrow> bytes" where
  "str_head n = (if n < 32 then [of_nat (0xa0 + n)] else if n < 256 then [0xd9, of_nat n] else 0xda # be16 n)"

definition bin_head :: "nat \<Rightarrow> bytes" where
  "bin_head n = (if n < 256 then [0xc4, of_nat n] else 0xc5 # be16 n)"

definition ext_head :: "nat \<Rightarrow> bytes" where
  "ext_head n = (if n = 1 then [0xd4] else if n = 2 then [0xd5] else if n = 4 then [0xd6]
     else if n = 8 then [0xd7] else if n = 16 then [0xd8]
     else if n < 256 then [0xc7, of_nat n] else 0xc8 # be16 n)"

definition arr_head :: "nat \<Rightarrow> bytes" where
  "arr_head n = (if n < 16 then [of_nat (0x90 + n)] else 0xdc # be16 n)"

definition map_head :: "nat \<Rightarrow> bytes" where
  "map_head n = (if n < 16 then [of_nat (0x80 + n)] else 0xde # be16 n)"

fun pack :: "mv \<Rightarrow> bytes" where
  "pack (Atom b) = [b]"
| "pack (Num h body) = h # body"
| "pack (Str s) = str_head (length s) @ s"
| "pack (Bin s) = bin_head (length s) @ s"
| "pack (Ext t s) = ext_head (length s) @ t # s"
| "pack (Arr vs) = arr_head (length vs) @ concat (map pack vs)"
| "pack (Map kvs) = map_head (length kvs) @ concat (map (\<lambda>(k, v). pack k @ pack v) kvs)"

definition atom_head :: "byte \<Rightarrow> bool" where
  "atom_head b \<longleftrightarrow> unat b < 0x80 \<or> 0xe0 \<le> unat b \<or> b = 0xc0 \<or> b = 0xc2 \<or> b = 0xc3"

fun wf_mv :: "mv \<Rightarrow> bool" where
  "wf_mv (Atom b) = atom_head b"
| "wf_mv (Num h body) = ((h, length body) \<in> set num_sizes)"
| "wf_mv (Str s) = (length s < 65536)"
| "wf_mv (Bin s) = (length s < 65536)"
| "wf_mv (Ext t s) = (length s < 65536)"
| "wf_mv (Arr vs) = (length vs < 65536 \<and> list_all wf_mv vs)"
| "wf_mv (Map kvs) = (length kvs < 65536 \<and> list_all (\<lambda>(k, v). wf_mv k \<and> wf_mv v) kvs)"

lemma nat_and_low: "h AND 0x0f = h mod 16" "h AND 0x1f = h mod 32" for h :: nat
  using take_bit_eq_mask [of 4 h] take_bit_eq_mask [of 5 h]
  by (simp_all add: take_bit_eq_mod mask_eq_exp_minus_1)

lemma nat_and_high:
  "h < 256 \<Longrightarrow> h AND 0xf0 = 16 * (h div 16)" "h < 256 \<Longrightarrow> h AND 0xe0 = 32 * (h div 32)" for h :: nat
proof -
  have high: "h AND push_bit k m = push_bit k (drop_bit k h AND m)" for k m :: nat
    by (rule bit_eqI) (auto simp: bit_and_iff bit_push_bit_iff bit_drop_bit_eq)
  assume "h < 256"
  then have "h div 16 mod 16 = h div 16" "h div 32 mod 8 = h div 32"
    by (simp_all add: less_mult_imp_div_less)
  moreover have "(n::nat) AND 7 = n mod 8" for n
    using take_bit_eq_mask [of 3 n] by (simp add: take_bit_eq_mod mask_eq_exp_minus_1)
  ultimately show "h AND 0xf0 = 16 * (h div 16)" "h AND 0xe0 = 32 * (h div 32)"
    using high [of 4 15] high [of 5 7] nat_and_low(1) [of "h div 16"]
    by (simp_all add: push_bit_eq_mult drop_bit_eq_div)
qed

lemma digits_of: "n < m \<Longrightarrow> (k * m + n) div m = k" "n < m \<Longrightarrow> (k * m + n) mod m = n" for k m n :: nat
  by simp_all

lemma shape_of_fix:
  "n < 32 \<Longrightarrow> shape_of (0xa0 + n) = Body n"
  "n < 16 \<Longrightarrow> shape_of (0x90 + n) = Items n"
  "n < 16 \<Longrightarrow> shape_of (0x80 + n) = Items (2 * n)"
proof -
  assume "n < 32"
  then have "(160 + n) div 32 = 5" "(160 + n) mod 32 = n"
    using digits_of [of n 32 5] by simp_all
  then show "shape_of (0xa0 + n) = Body n"
    using \<open>n < 32\<close> by (simp add: shape_of_def nat_and_high nat_and_low)
next
  assume "n < 16"
  then have "(144 + n) div 32 = 4" "(144 + n) div 16 = 9" "(144 + n) mod 16 = n"
    "(128 + n) div 32 = 4" "(128 + n) div 16 = 8" "(128 + n) mod 16 = n"
    using digits_of [of n 16 9] digits_of [of n 16 8] digits_of [of "16 + n" 32 4] digits_of [of n 32 4]
    by simp_all
  then show "shape_of (0x90 + n) = Items n" "shape_of (0x80 + n) = Items (2 * n)"
    using \<open>n < 16\<close> by (simp_all add: shape_of_def nat_and_high nat_and_low)
qed

lemma shape_of_consts:
  "shape_of 0xc4 = Sized 1 0" "shape_of 0xc5 = Sized 2 0" "shape_of 0xd9 = Sized 1 0" "shape_of 0xda = Sized 2 0"
  "shape_of 0xc7 = Sized 1 1" "shape_of 0xc8 = Sized 2 1" "shape_of 0xdc = Counted 2 1" "shape_of 0xde = Counted 2 2"
  "shape_of 0xd4 = Body 2" "shape_of 0xd5 = Body 3" "shape_of 0xd6 = Body 5" "shape_of 0xd7 = Body 9"
  "shape_of 0xd8 = Body 17"
  "shape_of 0xcc = Body 1" "shape_of 0xd0 = Body 1" "shape_of 0xcd = Body 2" "shape_of 0xd1 = Body 2"
  "shape_of 0xce = Body 4" "shape_of 0xd2 = Body 4" "shape_of 0xca = Body 4"
  "shape_of 0xcf = Body 8" "shape_of 0xd3 = Body 8" "shape_of 0xcb = Body 8"
  by (simp_all add: shape_of_def nat_and_high push_bit_eq_mult)

lemma shape_of_num: "(h, n) \<in> set num_sizes \<Longrightarrow> shape_of (unat h) = Body n"
  by (auto simp: num_sizes_def shape_of_consts)

lemma shape_of_atom: "atom_head b \<Longrightarrow> shape_of (unat b) = Body 0"
  by (auto simp: atom_head_def shape_of_def)

text \<open>Stepping over one value is a reader of its head byte and of its shape.\<close>

lemma skip_Cons: "mp_skip (stream (b # bs)) = skip_shape (shape_of (unat b)) (stream bs)"
  by (simp add: mp_skip_def mp_head_def mp_skip_head_shape)

lemma drop_stream [simp]: "mp_drop (stream (u @ x)) (length u) = stream x"
  "n = length u \<Longrightarrow> mp_drop (stream (u @ x)) n = stream x"
  by (simp_all add: mp_drop_def mp_take_def)

lemma len_stream:
  "n < 256 \<Longrightarrow> mp_len (stream (of_nat n # x)) 1 = (n, stream x)"
  "n < 65536 \<Longrightarrow> mp_len (stream (be16 n @ x)) 2 = (n, stream x)"
proof -
  have "mp_be (Some [of_nat n]) = n" if "n < 256"
    using mp_be_Some [of "[of_nat n]"] be_value_8 [OF that] by simp
  then show "n < 256 \<Longrightarrow> mp_len (stream (of_nat n # x)) 1 = (n, stream x)"
    by (simp add: mp_len_def mp_take_def)
  have "mp_be (Some (be16 n)) = n" if "n < 65536"
    using mp_be_Some [of "be16 n"] be_value_16 [OF that] by (simp add: be16_def)
  then show "n < 65536 \<Longrightarrow> mp_len (stream (be16 n @ x)) 2 = (n, stream x)"
    by (simp add: mp_len_def mp_take_def be16_def)
qed

lemma unat_of_nat_head: "n < 32 \<Longrightarrow> unat (of_nat (0xa0 + n) :: byte) = 0xa0 + n"
  "n < 16 \<Longrightarrow> unat (of_nat (0x90 + n) :: byte) = 0x90 + n"
  "n < 16 \<Longrightarrow> unat (of_nat (0x80 + n) :: byte) = 0x80 + n"
  by (simp_all only: unat_of_nat) simp_all

lemmas len_streams = len_stream len_stream [unfolded One_nat_def]

lemma skip_str: "length s < 65536 \<Longrightarrow> steps mp_skip (str_head (length s) @ s)"
  by (auto simp: steps_def str_head_def skip_Cons unat_of_nat_head shape_of_fix shape_of_consts skip_shape_def len_streams simp del: of_nat_add)

lemma skip_bin: "length s < 65536 \<Longrightarrow> steps mp_skip (bin_head (length s) @ s)"
  by (auto simp: steps_def bin_head_def skip_Cons shape_of_consts skip_shape_def len_streams)

lemma skip_ext: "length s < 65536 \<Longrightarrow> steps mp_skip (ext_head (length s) @ t # s)"
  unfolding steps_def ext_head_def
  by (auto simp: skip_Cons shape_of_consts skip_shape_def len_streams drop_stream(2) [of _ "t # s", simplified])

lemma skip_arr_head:
  "n < 65536 \<Longrightarrow> mp_skip (stream (arr_head n @ x)) = mp_skip_loop n (stream x)"
  by (auto simp: arr_head_def skip_Cons unat_of_nat_head shape_of_fix shape_of_consts skip_shape_def len_streams simp del: of_nat_add)

lemma skip_map_head:
  "n < 65536 \<Longrightarrow> mp_skip (stream (map_head n @ x)) = mp_skip_loop (2 * n) (stream x)"
  by (auto simp: map_head_def skip_Cons unat_of_nat_head shape_of_fix shape_of_consts skip_shape_def len_streams simp del: of_nat_add)

lemma skip_loop_Suc: "mp_skip_loop (Suc n) (stream bs) = mp_skip_loop n (mp_skip (stream bs))"
  by (simp add: mp_skip_loop.simps mp_skip_def case_prod_beta)

lemma skip_loop_list:
  "list_all (\<lambda>v. steps mp_skip (pack v)) vs \<Longrightarrow> mp_skip_loop (length vs) (stream (concat (map pack vs) @ x)) = stream x"
  by (induction vs) (simp_all add: skip_loop_Suc steps_def mp_skip_loop.simps(1))

lemma skip_loop_pairs:
  "list_all (\<lambda>(k, v). steps mp_skip (pack k) \<and> steps mp_skip (pack v)) kvs \<Longrightarrow>
   mp_skip_loop (2 * length kvs) (stream (concat (map (\<lambda>(k, v). pack k @ pack v) kvs) @ x)) = stream x"
  by (induction kvs) (auto simp: skip_loop_Suc steps_def mp_skip_loop.simps(1))

text \<open>\<open>mp_skip\<close> steps over exactly one value.\<close>

lemma skip_pack: "wf_mv v \<Longrightarrow> steps mp_skip (pack v)"
proof (induction v)
  case (Atom b)
  then show ?case by (simp add: steps_def skip_Cons shape_of_atom skip_shape_def mp_drop_0)
next
  case (Num h body)
  then show ?case by (simp add: steps_def skip_Cons shape_of_num skip_shape_def)
next
  case (Str s)
  then show ?case using skip_str by simp
next
  case (Bin s)
  then show ?case using skip_bin by simp
next
  case (Ext t s)
  then show ?case using skip_ext by simp
next
  case (Arr vs)
  then have "list_all (\<lambda>v. steps mp_skip (pack v)) vs" by (auto simp: list_all_iff)
  then show ?case using Arr.prems skip_loop_list by (simp add: steps_def skip_arr_head)
next
  case (Map kvs)
  then have "list_all (\<lambda>(k, v). steps mp_skip (pack k) \<and> steps mp_skip (pack v)) kvs"
    by (fastforce simp: list_all_iff)
  then show ?case using Map.prems skip_loop_pairs by (simp add: steps_def skip_map_head)
qed

section \<open>Reading values\<close>

definition uint_of :: "mv \<Rightarrow> nat option" where
  "uint_of v = (case v of
     Atom b \<Rightarrow> if unat b < 0x80 then Some (unat b) else None
   | Num h body \<Rightarrow> if h = 0xcc \<or> h = 0xcd \<or> h = 0xce then Some (be_value body) else None
   | _ \<Rightarrow> None)"

text \<open>Nil reads as a byte string of no bytes.\<close>

definition bin_of :: "mv \<Rightarrow> bytes option" where
  "bin_of v = (case v of Atom b \<Rightarrow> if b = 0xc0 then Some [] else None | Bin s \<Rightarrow> Some s | _ \<Rightarrow> None)"

lemma head_Cons [simp]: "mp_head (stream (b # bs)) = (unat b, stream bs)"
  by (simp add: mp_head_def)

lemma pack_nonempty: "pack v \<noteq> []"
  by (cases v) (simp_all add: str_head_def bin_head_def ext_head_def arr_head_def map_head_def)

text \<open>What the first byte of a counted value can be.\<close>

lemma head_classes:
  "\<exists>b bs. str_head n = b # bs \<and> (0xa0 \<le> unat b \<and> unat b < 0xc0 \<or> b = 0xd9 \<or> b = 0xda)"
  "\<exists>b bs. bin_head n = b # bs \<and> (b = 0xc4 \<or> b = 0xc5)"
  "\<exists>b bs. ext_head n = b # bs \<and> (b = 0xc7 \<or> b = 0xc8 \<or> 0xd4 \<le> unat b \<and> unat b \<le> 0xd8)"
  "\<exists>b bs. arr_head n = b # bs \<and> (0x90 \<le> unat b \<and> unat b < 0xa0 \<or> b = 0xdc)"
  "\<exists>b bs. map_head n = b # bs \<and> (0x80 \<le> unat b \<and> unat b < 0x90 \<or> b = 0xde)"
proof -
  show "\<exists>b bs. str_head n = b # bs \<and> (0xa0 \<le> unat b \<and> unat b < 0xc0 \<or> b = 0xd9 \<or> b = 0xda)"
    using unat_of_nat_head(1) [of n] by (cases "n < 32") (simp_all add: str_head_def del: of_nat_add)
  show "\<exists>b bs. bin_head n = b # bs \<and> (b = 0xc4 \<or> b = 0xc5)"
    by (simp add: bin_head_def)
  show "\<exists>b bs. ext_head n = b # bs \<and> (b = 0xc7 \<or> b = 0xc8 \<or> 0xd4 \<le> unat b \<and> unat b \<le> 0xd8)"
    by (simp add: ext_head_def)
  show "\<exists>b bs. arr_head n = b # bs \<and> (0x90 \<le> unat b \<and> unat b < 0xa0 \<or> b = 0xdc)"
    using unat_of_nat_head(2) [of n] by (cases "n < 16") (simp_all add: arr_head_def del: of_nat_add)
  show "\<exists>b bs. map_head n = b # bs \<and> (0x80 \<le> unat b \<and> unat b < 0x90 \<or> b = 0xde)"
    using unat_of_nat_head(3) [of n] by (cases "n < 16") (simp_all add: map_head_def del: of_nat_add)
qed

text \<open>Every value but a number starts with a byte no number starts with, and so on for byte
  strings; a reader of another type refuses it at the head byte.\<close>

lemma mp_uint_refuses:
  "0x80 \<le> unat b \<Longrightarrow> unat b \<noteq> 0xcc \<Longrightarrow> unat b \<noteq> 0xcd \<Longrightarrow> unat b \<noteq> 0xce \<Longrightarrow>
     mp_bad (snd (mp_uint (stream (b # bs))))"
  by (simp add: mp_uint_def)

lemma mp_bin_refuses:
  "unat b \<noteq> 0xc0 \<Longrightarrow> unat b \<noteq> 0xc4 \<Longrightarrow> unat b \<noteq> 0xc5 \<Longrightarrow> mp_bad (snd (mp_bin (stream (b # bs))))"
  by (simp add: mp_bin_def)

lemma len_body: "length body = k \<Longrightarrow> k \<le> 8 \<Longrightarrow> mp_len (stream (body @ x)) k = (be_value body, stream x)"
  by (auto simp: mp_len_def mp_take_def mp_be_Some)

lemma mp_uint_pack:
  assumes "wf_mv v"
  shows "case uint_of v of Some n \<Rightarrow> mp_uint (stream (pack v @ x)) = (n, stream x)
     | None \<Rightarrow> mp_bad (snd (mp_uint (stream (pack v @ x))))"
proof (cases v)
  case (Atom b)
  then show ?thesis
    using assms mp_uint_refuses [of b x] by (auto simp: uint_of_def mp_uint_def atom_head_def)
next
  case (Num h body)
  then show ?thesis
    using assms mp_uint_refuses [of h "body @ x"]
    by (auto simp: uint_of_def mp_uint_def num_sizes_def len_body len_body [unfolded One_nat_def])
next
  case (Str s)
  then show ?thesis using head_classes(1) [of "length s"] by (auto simp: uint_of_def intro!: mp_uint_refuses)
next
  case (Bin s)
  then show ?thesis using head_classes(2) [of "length s"] by (auto simp: uint_of_def intro!: mp_uint_refuses)
next
  case (Ext t s)
  then show ?thesis using head_classes(3) [of "length s"] by (auto simp: uint_of_def intro!: mp_uint_refuses)
next
  case (Arr vs)
  then show ?thesis using head_classes(4) [of "length vs"] by (auto simp: uint_of_def intro!: mp_uint_refuses)
next
  case (Map kvs)
  then show ?thesis using head_classes(5) [of "length kvs"] by (auto simp: uint_of_def intro!: mp_uint_refuses)
qed

lemma take_stream: "mp_take (stream (s @ x)) (length s) = (Some s, stream x)"
  by (simp add: mp_take_def)

lemma mp_bin_Bin:
  assumes "length s < 65536"
  shows "mp_bin (stream (bin_head (length s) @ s @ x)) = (Some s, stream x)"
  using assms by (simp add: bin_head_def mp_bin_def len_streams take_stream)

text \<open>The bytes of the value, none for nil.\<close>

lemma mp_bin_pack:
  assumes "wf_mv v"
  shows "case bin_of v of
       Some s \<Rightarrow> \<exists>p. mp_bin (stream (pack v @ x)) = (p, stream x) \<and> (case p of None \<Rightarrow> [] | Some bs \<Rightarrow> bs) = s
     | None \<Rightarrow> mp_bad (snd (mp_bin (stream (pack v @ x))))"
proof (cases v)
  case (Atom b)
  then show ?thesis
    using assms by (auto simp: bin_of_def mp_bin_def atom_head_def)
next
  case (Num h body)
  then show ?thesis
    using assms mp_bin_refuses [of h "body @ x"] by (auto simp: bin_of_def num_sizes_def)
next
  case (Str s)
  then show ?thesis using head_classes(1) [of "length s"] by (auto simp: bin_of_def intro!: mp_bin_refuses)
next
  case (Bin s)
  then show ?thesis using assms mp_bin_Bin [of s x] by (simp add: bin_of_def)
next
  case (Ext t s)
  then show ?thesis using head_classes(3) [of "length s"] by (auto simp: bin_of_def intro!: mp_bin_refuses)
next
  case (Arr vs)
  then show ?thesis using head_classes(4) [of "length vs"] by (auto simp: bin_of_def intro!: mp_bin_refuses)
next
  case (Map kvs)
  then show ?thesis using head_classes(5) [of "length kvs"] by (auto simp: bin_of_def intro!: mp_bin_refuses)
qed

text \<open>The text of a field, and printing one.\<close>

definition uint_text :: "(nat \<Rightarrow> string) \<Rightarrow> mv \<Rightarrow> string" where
  "uint_text fmt v = (case uint_of v of None \<Rightarrow> ''-'' | Some n \<Rightarrow> fmt n)"

definition bin_text :: "mv \<Rightarrow> string" where
  "bin_text v = (case bin_of v of None \<Rightarrow> ''-'' | Some bs \<Rightarrow> hex_value bs)"

lemma mp_field_uint_pack:
  assumes "wf_mv v"
  shows "\<exists>m. mp_field_uint (stream (pack v @ x)) name fmt =
      andthen (print [Field name (uint_text fmt v)]) (\<lambda>_. ret m) \<and> (uint_of v \<noteq> None \<longrightarrow> m = stream x)"
  using mp_uint_pack [OF assms, of x]
  by (cases "mp_uint (stream (pack v @ x))")
     (auto simp: mp_field_uint_def uint_text_def split: option.splits)

lemma mp_field_bin_pack:
  assumes "wf_mv v"
  shows "\<exists>m. mp_field_bin (stream (pack v @ x)) name =
      andthen (print [Field name (bin_text v)]) (\<lambda>_. ret m) \<and> (bin_of v \<noteq> None \<longrightarrow> m = stream x)"
  using mp_bin_pack [OF assms, of x]
  by (cases "mp_bin (stream (pack v @ x))")
     (auto simp: mp_field_bin_def bin_text_def hex_value_def [of "[]"] split: option.splits)

lemma mp_field_bad:
  assumes "mp_bad m"
  shows "\<exists>m'. mp_bad m' \<and> mp_field_uint m name fmt = andthen (print [Field name ''-'']) (\<lambda>_. ret m')"
    and "\<exists>m'. mp_bad m' \<and> mp_field_bin m name = andthen (print [Field name ''-'']) (\<lambda>_. ret m')"
    and "\<exists>m'. mp_bad m' \<and> mp_field_double m name = andthen (print [Field name ''-'']) (\<lambda>_. ret m')"
  using uint.sticky [OF assms] bin.sticky [OF assms] double.sticky [OF assms]
  by (auto simp: mp_field_uint_def mp_field_bin_def mp_field_double_def split: prod.splits)

section \<open>Reading keys\<close>

definition key_of :: "mv \<Rightarrow> byte" where
  "key_of k = (case k of Str s \<Rightarrow> if length s = 1 then s ! 0 else 0 | _ \<Rightarrow> 0)"

lemma key_head: "unat b \<noteq> 0xa1 \<Longrightarrow> mp_key (stream (b # bs)) = (0, mp_skip (stream (b # bs)))"
  by (simp add: mp_key_def mp_skip_def)

lemma mp_key_pack:
  assumes "wf_mv k"
  shows "mp_key (stream (pack k @ x)) = (key_of k, stream x)"
proof -
  have skip: "mp_skip (stream (pack k @ x)) = stream x"
    using skip_pack [OF assms] by (simp add: steps_def)
  have other: ?thesis if "\<exists>b bs. pack k @ x = b # bs \<and> unat b \<noteq> 0xa1" "key_of k = 0"
    using that key_head skip by metis
  show ?thesis
  proof (cases k)
    case (Atom b)
    then show ?thesis using assms by (intro other) (auto simp: atom_head_def key_of_def)
  next
    case (Num h body)
    then show ?thesis using assms by (intro other) (auto simp: num_sizes_def key_of_def)
  next
    case (Str s)
    show ?thesis
    proof (cases "length s = 1")
      case True
      then obtain c where "s = [c]" by (auto simp: length_Suc_conv)
      then show ?thesis using Str by (simp add: str_head_def mp_key_def mp_take_def key_of_def)
    next
      case False
      have "\<exists>b bs. str_head (length s) = b # bs \<and> unat b \<noteq> 0xa1"
        using unat_of_nat_head(1) [of "length s"] False
        by (cases "length s < 32") (simp_all add: str_head_def del: of_nat_add)
      then show ?thesis using Str False by (intro other) (auto simp: key_of_def)
    qed
  next
    case (Bin s)
    then show ?thesis using head_classes(2) [of "length s"] by (intro other) (auto simp: key_of_def)
  next
    case (Ext t s)
    then show ?thesis using head_classes(3) [of "length s"] by (intro other) (auto simp: key_of_def)
  next
    case (Arr vs)
    then show ?thesis using head_classes(4) [of "length vs"] by (intro other) (auto simp: key_of_def)
  next
    case (Map kvs)
    then show ?thesis using head_classes(5) [of "length kvs"] by (intro other) (auto simp: key_of_def)
  qed
qed

lemma mp_map_pack:
  "n < 65536 \<Longrightarrow> mp_map (stream (map_head n @ x)) = (n, stream x)"
proof (cases "n < 16")
  case True
  then have "(128 + n) AND 0xf0 = 0x80" "(128 + n) AND 0x0f = n"
    using nat_and_high(1) [of "128 + n"] nat_and_low(1) [of "128 + n"] digits_of [of n 16 8] by simp_all
  then show ?thesis
    using True unat_of_nat_head(3) [of n] by (simp add: mp_map_def map_head_def del: of_nat_add)
next
  case False
  assume "n < 65536"
  then show ?thesis using False by (simp add: mp_map_def map_head_def len_streams nat_and_high(1))
qed

end
