(* ===== verification/Resource.thy ===== *)
theory Resource
  imports Msgpack_Values "HOL-Library.Multiset"
begin

text \<open>
  What is inside an opened link packet: \<open>print_resource\<close> and \<open>dump_linkdata\<close> of cmd/dump.c. An
  advertisement is a msgpack map read by key, so the abstract side is a finite map of values, and
  the lemmas say that the code finds every field whatever the order of the pairs.
\<close>

section \<open>The code: resources\<close>

abbreviation (input) RESOURCE :: nat where "RESOURCE \<equiv> 1"
abbreviation (input) RESOURCE_ADV :: nat where "RESOURCE_ADV \<equiv> 2"
abbreviation (input) RESOURCE_REQ :: nat where "RESOURCE_REQ \<equiv> 3"
abbreviation (input) RESOURCE_HMU :: nat where "RESOURCE_HMU \<equiv> 4"
abbreviation (input) RESOURCE_ICL :: nat where "RESOURCE_ICL \<equiv> 6"
abbreviation (input) RESOURCE_RCL :: nat where "RESOURCE_RCL \<equiv> 7"
abbreviation (input) MAPHASHLEN :: nat where "MAPHASHLEN \<equiv> 4"
abbreviation (input) EXHAUSTED :: byte where "EXHAUSTED \<equiv> 0xff"
abbreviation (input) ENVELOPELEN :: nat where "ENVELOPELEN \<equiv> 6"

definition short_plaintext :: "nat \<Rightarrow> nat \<Rightarrow> bool prog" where
  "short_plaintext len need =
    (if len \<ge> need then ret False
     else andthen (seq [field ''invalid'' ''short-plaintext'', field ''minimum_length'' (dec need)])
       (\<lambda>_. ret True))"

text \<open>\<open>order\<close>, the characters of the eleven keys, and \<open>strchr\<close> in it.\<close>

definition order :: string where
  "order = ''tdnhroilqfm''"

fun index_of :: "string \<Rightarrow> byte \<Rightarrow> nat option" where
  "index_of [] c = None"
| "index_of (x # xs) c = (if c = of_char x then Some 0 else map_option Suc (index_of xs c))"

text \<open>The loop over the pairs: the stream, the eleven streams found and \<open>twice\<close>.\<close>

primrec adv_loop :: "nat \<Rightarrow> mp \<Rightarrow> mp list \<Rightarrow> bool \<Rightarrow> mp \<times> mp list \<times> bool" where
  "adv_loop 0 m vals twice = (m, vals, twice)"
| "adv_loop (Suc n) m vals twice =
    (if mp_bad m then (m, vals, twice)
     else case mp_key m of (key, m') \<Rightarrow>
       (case (if key \<noteq> 0 then index_of order key else None) of
          Some i \<Rightarrow> adv_loop n (mp_skip m') (vals[i := m'\<lparr>mp_bad := False\<rparr>])
                      (if \<not> mp_bad (vals ! i) then True else twice)
        | None \<Rightarrow> adv_loop n (mp_skip m') vals twice))"

text \<open>\<open>%02llx\<close> is \<open>hex02\<close>, \<open>%llu\<close> is \<open>dec\<close>.\<close>

definition adv_field :: "char \<Rightarrow> mp \<Rightarrow> mp prog" where
  "adv_field c v =
    (if c = CHR ''t'' then mp_field_uint v ''transfer_size'' dec
     else if c = CHR ''d'' then mp_field_uint v ''data_size'' dec
     else if c = CHR ''n'' then mp_field_uint v ''resource_parts'' dec
     else if c = CHR ''i'' then mp_field_uint v ''segment_index'' dec
     else if c = CHR ''l'' then mp_field_uint v ''total_segments'' dec
     else if c = CHR ''f'' then mp_field_uint v ''resource_flags'' hex02
     else if c = CHR ''h'' then mp_field_bin v ''resource_hash''
     else if c = CHR ''r'' then mp_field_bin v ''resource_random''
     else if c = CHR ''o'' then mp_field_bin v ''original_hash''
     else if c = CHR ''q'' then mp_field_bin v ''request_id''
     else if c = CHR ''m'' then mp_field_bin v ''hashmap''
     else ret v)"

definition no_stream :: mp where
  "no_stream = \<lparr>mp_rest = [], mp_bad = True\<rparr>"

definition print_adv :: "mp \<Rightarrow> unit prog" where
  "print_adv m = (case mp_map m of (pairs, m1) \<Rightarrow>
     case adv_loop pairs m1 (replicate (length order) no_stream) False of (m2, vals, twice) \<Rightarrow>
       let vals' = (if twice \<or> mp_bad m2 then map (\<lambda>v. v\<lparr>mp_bad := True\<rparr>) vals else vals)
       in seq (map (\<lambda>(c, v). andthen (adv_field c v) (\<lambda>_. ret ())) (zip order vals')))"

definition print_req :: "bytes \<Rightarrow> nat \<Rightarrow> unit prog" where
  "print_req p len =
    andthen (short_plaintext len 1) (\<lambda>short. if short then ret () else
    andthen (load_byte p 0) (\<lambda>b.
    let exhausted = (b = EXHAUSTED)
    in andthen (short_plaintext len (1 + (if exhausted then MAPHASHLEN else 0) + HASHLEN)) (\<lambda>short.
       if short then ret () else
       let at = (if exhausted then 1 + MAPHASHLEN else 1)
       in seq
         [field ''hashmap_exhausted'' (yesno exhausted),
          (if exhausted then field_hex ''last_map_hash'' (drop 1 p) MAPHASHLEN
           else field ''last_map_hash'' ''-''),
          field_hex ''resource_hash'' (drop at p) HASHLEN,
          field_hex ''requested_hashes'' (drop (at + HASHLEN) p) (len - at - HASHLEN)])))"

definition print_hmu :: "bytes \<Rightarrow> nat \<Rightarrow> unit prog" where
  "print_hmu p len =
    andthen (short_plaintext len (HASHLEN + 1)) (\<lambda>short. if short then ret () else
    andthen (load (drop HASHLEN p) (len - HASHLEN)) (\<lambda>rest.
    case mp_array \<lparr>mp_rest = rest, mp_bad = False\<rparr> of (n, u) \<Rightarrow>
      let u = (if n \<noteq> 2 then u\<lparr>mp_bad := True\<rparr> else u)
      in andthen (field_hex ''resource_hash'' p HASHLEN) (\<lambda>_.
         andthen (mp_field_uint u ''segment_index'' dec) (\<lambda>u.
         andthen (mp_field_bin u ''hashmap'') (\<lambda>_. ret ())))))"

definition print_resource :: "nat \<Rightarrow> bytes \<Rightarrow> nat \<Rightarrow> unit prog" where
  "print_resource context p len =
    (if context = RESOURCE_ADV then
       andthen (load p len) (\<lambda>bs. print_adv \<lparr>mp_rest = bs, mp_bad = False\<rparr>)
     else if context = RESOURCE_REQ then print_req p len
     else if context = RESOURCE_HMU then print_hmu p len
     else if context = RESOURCE_ICL \<or> context = RESOURCE_RCL then field_hex ''resource_hash'' p len
     else ret ())"

section \<open>The code: data on a link\<close>

text \<open>The three parts of \<open>dump_linkdata\<close> after the token is open; the first two say whether the
  function returned in them.\<close>

definition print_channel :: "nat \<Rightarrow> token \<Rightarrow> bool prog" where
  "print_channel context t =
    (if context = 0x0e then
       andthen (short_plaintext (t_ptlen t) ENVELOPELEN) (\<lambda>short. if short then ret True else
       andthen (load (t_plain t) ENVELOPELEN) (\<lambda>e.
       andthen (seq
         [field_hex ''msgtype'' (t_plain t) 2,
          field ''sequence'' (dec (push_bit 8 (unat (e ! 2)) OR unat (e ! 3))),
          field ''declared_length'' (dec (push_bit 8 (unat (e ! 4)) OR unat (e ! 5))),
          field_hex ''message'' (drop ENVELOPELEN (t_plain t)) (t_ptlen t - ENVELOPELEN)])
         (\<lambda>_. ret False)))
     else ret False)"

definition print_request :: "nat \<Rightarrow> token \<Rightarrow> bool prog" where
  "print_request context t =
    (if context = 0x09 \<or> context = 0x0a then
       andthen (short_plaintext (t_ptlen t) 1) (\<lambda>short. if short then ret True else
       andthen (load (t_plain t) (t_ptlen t)) (\<lambda>bs.
       case mp_array \<lparr>mp_rest = bs, mp_bad = False\<rparr> of (n, m) \<Rightarrow>
       if context = 0x09 then
         let m = (if n \<noteq> 3 then m\<lparr>mp_bad := True\<rparr> else m)
         in andthen (mp_field_double m ''request_time'') (\<lambda>m.
            andthen (mp_field_bin m ''request_path_hash'') (\<lambda>m.
            andthen (mp_field_bin m ''request_data'') (\<lambda>_. ret False)))
       else
         let m = (if n \<noteq> 2 then m\<lparr>mp_bad := True\<rparr> else m)
         in andthen (mp_field_bin m ''request_id'') (\<lambda>m.
            andthen (mp_field_bin m ''response_data'') (\<lambda>_. ret False))))
     else ret False)"

definition print_identify :: "nat \<Rightarrow> token \<Rightarrow> bytes \<Rightarrow> unit prog" where
  "print_identify context t lid =
    (if context = 0xfb then
       if t_ptlen t \<noteq> KEYSIZE + SIGLEN then seq
         [field ''invalid'' ''identify-length'', field ''required_length'' (dec (KEYSIZE + SIGLEN))]
       else
         andthen (load (t_plain t) KEYSIZE) (\<lambda>key.
         andthen (append_from (ADDRLEN + KEYSIZE) [] lid ADDRLEN) (\<lambda>sd.
         andthen (append_from (ADDRLEN + KEYSIZE) sd (t_plain t) KEYSIZE) (\<lambda>signed_data.
         andthen (seq
           [field_hex ''identity_public'' (t_plain t) KEYSIZE,
            field_hex ''identity_hash'' (truncated_hash key ADDRLEN) ADDRLEN,
            field_hex ''identity_signed'' signed_data (ADDRLEN + KEYSIZE)]) (\<lambda>_.
         andthen (load (drop KEYSIZE (t_plain t)) SIGLEN) (\<lambda>sig.
         andthen (ed25519_verify (drop KEYHALF key) sig signed_data) (\<lambda>ok.
           field ''identity_valid'' (yesno ok)))))))
     else ret ())"

definition print_opened :: "nat \<Rightarrow> token \<Rightarrow> bytes \<Rightarrow> unit prog" where
  "print_opened context t lid =
    andthen (print_channel context t) (\<lambda>returned. if returned then ret () else
    andthen (print_request context t) (\<lambda>returned. if returned then ret () else
    andthen (print_resource context (t_plain t) (t_ptlen t)) (\<lambda>_.
    print_identify context t lid)))"

definition print_unencrypted :: "header \<Rightarrow> unit prog" where
  "print_unencrypted h = seq
    [field ''encrypted'' ''no'',
     field ''plaintext_length'' (dec (h_payload_len h)),
     field_hex ''plaintext'' (h_payload h) (h_payload_len h)]"

definition dump_linkdata :: "blob list \<Rightarrow> unit prog" where
  "dump_linkdata b =
    (if blen (b ! 1) \<noteq> KEYHALF then
       fatal (''linkdata: private key is '' @ dec (blen (b ! 1)) @ '' bytes, expected '' @ dec KEYHALF)
     else
       andthen (field_blob ''link_request'' (b ! 0)) (\<lambda>_.
       andthen (field_blob ''responder_private'' (b ! 1)) (\<lambda>_.
       andthen (parse_header (bdata (b ! 0)) (blen (b ! 0))) (\<lambda>pr. case pr of
         Inl f \<Rightarrow> fatal ''linkdata: the link request does not decode''
       | Inr rh \<Rightarrow>
       andthen (open_packet (b ! 2)) (\<lambda>r. case r of None \<Rightarrow> ret ()
       | Some h \<Rightarrow>
       andthen (link_id_of (bdata (b ! 0)) (blen (b ! 0)) rh) (\<lambda>link_id.
       andthen (load (h_destination_hash h) ADDRLEN) (\<lambda>dest.
       andthen (seq
         [print_header h,
          field_hex ''link_id'' link_id ADDRLEN,
          field ''link_id_match'' (yesno (dest = link_id))]) (\<lambda>_.
       if h_context h = RESOURCE then print_unencrypted h
       else if h_context h = 0xfa then print_unencrypted h
       else
         andthen (field ''encrypted'' ''yes'') (\<lambda>_.
         if h_payload_len h < TOKEN_OVERHEAD then
           invalid ''short-payload'' ''payload_length'' (h_payload_len h) ''minimum_length'' TOKEN_OVERHEAD
         else
           andthen (load (bdata (b ! 1)) KEYHALF) (\<lambda>scalar.
           andthen (load (h_payload rh) KEYHALF) (\<lambda>initiator_public.
           let (shared, agreed) = x25519_shared scalar initiator_public
           in andthen (if agreed then hkdf_sha256 shared link_id [] DERIVEDLEN else ret []) (\<lambda>derived.
              andthen (token_open (h_payload h) (h_payload_len h)
                         (if agreed then Some derived else None) DERIVEDLEN) (\<lambda>t.
              andthen (seq
                [print_token t,
                 print_keys (if agreed then Some shared else None) derived,
                 print_plaintext t]) (\<lambda>_.
              if \<not> t_opened t then ret () else print_opened (h_context h) t link_id))))))))))))))"

section \<open>Advertisements\<close>

definition adv_key :: "nat \<Rightarrow> mv" where
  "adv_key i = Str [of_char (order ! i)]"

definition adv_index :: "mv \<Rightarrow> nat option" where
  "adv_index k = (if key_of k \<noteq> 0 then index_of order (key_of k) else None)"

lemma length_order [simp]: "length order = 11"
  by (simp add: order_def)

lemma index_of_bytes: "index_of xs c = Some i \<Longrightarrow> i < length xs \<and> c = of_char (xs ! i)"
  by (induction xs c arbitrary: i rule: index_of.induct) (auto split: if_splits)

lemma index_of_nth: "i < length xs \<Longrightarrow> distinct (map of_char xs :: byte list) \<Longrightarrow> index_of xs (of_char (xs ! i) :: byte) = Some i"
  by (induction xs arbitrary: i) (auto simp: nth_Cons image_iff split: nat.split, metis nth_mem)

lemma order_bytes: "distinct (map of_char order :: byte list)" "0 \<notin> set (map of_char order :: byte list)"
  by (simp_all add: order_def)

lemma adv_index_iff: "adv_index k = Some i \<longleftrightarrow> i < 11 \<and> k = adv_key i"
proof
  assume a: "adv_index k = Some i"
  then have i: "i < 11" "key_of k = of_char (order ! i)" "key_of k \<noteq> 0"
    using index_of_bytes [of order "key_of k" i] by (auto simp: adv_index_def split: if_splits)
  then obtain s where "k = Str s" "length s = 1" "s ! 0 = of_char (order ! i)"
    by (cases k) (auto simp: key_of_def split: if_splits)
  then show "i < 11 \<and> k = adv_key i"
    using i by (auto simp: adv_key_def length_Suc_conv)
next
  assume i: "i < 11 \<and> k = adv_key i"
  then have "(of_char (order ! i) :: byte) \<noteq> 0"
    using order_bytes(2) by (metis image_eqI length_order list.set_map nth_mem)
  then show "adv_index k = Some i"
    using i index_of_nth [of i order] order_bytes(1) by (simp add: adv_index_def adv_key_def key_of_def)
qed

lemma adv_key_inj: "i < 11 \<Longrightarrow> j < 11 \<Longrightarrow> adv_key i = adv_key j \<Longrightarrow> i = j"
  using adv_index_iff by (metis option.inject)

text \<open>How often a key occurs, and the body of the map.\<close>

definition occ :: "nat \<Rightarrow> (mv \<times> mv) list \<Rightarrow> nat" where
  "occ i kvs = length (filter (\<lambda>kv. fst kv = adv_key i) kvs)"

definition pairs_bytes :: "(mv \<times> mv) list \<Rightarrow> bytes" where
  "pairs_bytes kvs = concat (map (\<lambda>(k, v). pack k @ pack v) kvs)"

definition held :: "mp list \<Rightarrow> nat \<Rightarrow> nat" where
  "held vals i = (if mp_bad (vals ! i) then 0 else 1)"

lemma pairs_bytes_simps [simp]:
  "pairs_bytes [] = []" "pairs_bytes ((k, v) # kvs) = pack k @ pack v @ pairs_bytes kvs"
  by (simp_all add: pairs_bytes_def)

lemma stream_good [simp]: "(stream bs)\<lparr>mp_bad := False\<rparr> = stream bs"
  by (simp add: stream_def)

lemma adv_loop_step:
  assumes "wf_mv k" and "wf_mv v"
  shows "adv_loop (Suc n) (stream (pack k @ pack v @ x)) vals twice =
    (case adv_index k of
       Some i \<Rightarrow> adv_loop n (stream x) (vals[i := stream (pack v @ x)]) (twice \<or> \<not> mp_bad (vals ! i))
     | None \<Rightarrow> adv_loop n (stream x) vals twice)"
proof -
  have "mp_skip (stream (pack v @ x)) = stream x"
    using skip_pack [OF assms(2)] by (simp add: steps_def)
  then show ?thesis
    using mp_key_pack [OF assms(1)]
    by (auto simp: adv_index_def split: option.split)
qed

lemma occ_Cons:
  "i < 11 \<Longrightarrow> occ i ((k, v) # kvs) = occ i kvs + (if adv_index k = Some i then 1 else 0)"
  by (simp add: occ_def adv_index_iff)

lemma occ_map_of: "occ i kvs = 0 \<longleftrightarrow> map_of kvs (adv_key i) = None"
  by (force simp: occ_def map_of_eq_None_iff filter_empty_conv)

lemma adv_loop_pairs:
  assumes "list_all (\<lambda>(k, v). wf_mv k \<and> wf_mv v) kvs" and "length vals = 11"
  shows "\<exists>vals' twice'. adv_loop (length kvs) (stream (pairs_bytes kvs @ x)) vals twice = (stream x, vals', twice') \<and>
    length vals' = 11 \<and> (twice' \<longleftrightarrow> twice \<or> (\<exists>i<11. 2 \<le> occ i kvs + held vals i)) \<and>
    (\<not> twice' \<longrightarrow> (\<forall>i<11. case map_of kvs (adv_key i) of
       None \<Rightarrow> vals' ! i = vals ! i | Some v \<Rightarrow> \<exists>y. vals' ! i = stream (pack v @ y)))"
  using assms
proof (induction kvs arbitrary: vals twice)
  case Nil
  then show ?case by (auto simp: occ_def held_def)
next
  case (Cons kv kvs)
  obtain k v where kv: "kv = (k, v)" by (cases kv)
  have wf: "wf_mv k" "wf_mv v" "list_all (\<lambda>(k, v). wf_mv k \<and> wf_mv v) kvs"
    using Cons.prems kv by simp_all
  define rest where "rest = stream (pairs_bytes kvs @ x)"
  have step: "adv_loop (length (kv # kvs)) (stream (pairs_bytes (kv # kvs) @ x)) vals twice =
    (case adv_index k of
       Some i \<Rightarrow> adv_loop (length kvs) rest (vals[i := stream (pack v @ pairs_bytes kvs @ x)]) (twice \<or> \<not> mp_bad (vals ! i))
     | None \<Rightarrow> adv_loop (length kvs) rest vals twice)"
    using adv_loop_step [OF wf(1,2), of "length kvs" "pairs_bytes kvs @ x"]
    unfolding rest_def by (simp add: kv del: adv_loop.simps)
  show ?case
  proof (cases "adv_index k")
    case None
    then have "occ i (kv # kvs) = occ i kvs" "map_of (kv # kvs) (adv_key i) = map_of kvs (adv_key i)"
      if "i < 11" for i
      using that adv_index_iff [of k i] by (auto simp: kv occ_Cons)
    then show ?thesis
      using Cons.IH [OF wf(3) Cons.prems(2), of twice] None unfolding step rest_def
      by (auto split: option.splits)
  next
    case (Some i)
    then have i: "i < 11" "k = adv_key i" by (simp_all add: adv_index_iff)
    define vals1 where "vals1 = vals[i := stream (pack v @ pairs_bytes kvs @ x)]"
    have l1: "length vals1 = 11" using Cons.prems(2) by (simp add: vals1_def)
    obtain vals' twice' where run: "adv_loop (length kvs) rest vals1 (twice \<or> \<not> mp_bad (vals ! i)) = (stream x, vals', twice')"
      and len: "length vals' = 11"
      and tw: "twice' \<longleftrightarrow> (twice \<or> \<not> mp_bad (vals ! i)) \<or> (\<exists>j<11. 2 \<le> occ j kvs + held vals1 j)"
      and vals': "\<not> twice' \<longrightarrow> (\<forall>j<11. case map_of kvs (adv_key j) of
         None \<Rightarrow> vals' ! j = vals1 ! j | Some v \<Rightarrow> \<exists>y. vals' ! j = stream (pack v @ y))"
      using Cons.IH [OF wf(3) l1, of "twice \<or> \<not> mp_bad (vals ! i)"] unfolding rest_def by blast
    have held1: "held vals1 j = (if j = i then 1 else held vals j)" if "j < 11" for j
      using that i Cons.prems(2) by (simp add: held_def vals1_def)
    have occ1: "occ j (kv # kvs) = occ j kvs + (if j = i then 1 else 0)" if "j < 11" for j
      using that Some by (auto simp: kv occ_Cons)
    have "(twice \<or> \<not> mp_bad (vals ! i)) \<or> (\<exists>j<11. 2 \<le> occ j kvs + held vals1 j) \<longleftrightarrow>
        twice \<or> (\<exists>j<11. 2 \<le> occ j (kv # kvs) + held vals j)"
    proof -
      have "2 \<le> occ j kvs + held vals1 j \<or> (j = i \<and> \<not> mp_bad (vals ! i)) \<longleftrightarrow> 2 \<le> occ j (kv # kvs) + held vals j"
        if "j < 11" for j
        using that held1 [OF that] occ1 [OF that] by (auto simp: held_def)
      then show ?thesis using i(1) by blast
    qed
    moreover have "\<not> twice' \<longrightarrow> (\<forall>j<11. case map_of (kv # kvs) (adv_key j) of
         None \<Rightarrow> vals' ! j = vals ! j | Some v \<Rightarrow> \<exists>y. vals' ! j = stream (pack v @ y))"
    proof (intro impI allI)
      fix j :: nat
      assume nt: "\<not> twice'" and j: "j < 11"
      show "case map_of (kv # kvs) (adv_key j) of
         None \<Rightarrow> vals' ! j = vals ! j | Some v \<Rightarrow> \<exists>y. vals' ! j = stream (pack v @ y)"
      proof (cases "j = i")
        case True
        have "\<not> 2 \<le> occ i kvs + held vals1 i" using nt tw i(1) by blast
        then have "map_of kvs (adv_key i) = None"
          using held1 [OF i(1)] occ_map_of [of i kvs] by simp
        then have "vals' ! i = vals1 ! i" using vals' nt i(1) by fastforce
        then show ?thesis using True i kv Cons.prems(2) by (auto simp: vals1_def)
      next
        case False
        then have "adv_key j \<noteq> k" "vals1 ! j = vals ! j"
          using i j adv_key_inj by (auto simp: vals1_def)
        moreover have "case map_of kvs (adv_key j) of
            None \<Rightarrow> vals' ! j = vals1 ! j | Some v \<Rightarrow> \<exists>y. vals' ! j = stream (pack v @ y)"
          using vals' nt j by blast
        ultimately show ?thesis using kv by (cases "map_of kvs (adv_key j)") simp_all
      qed
    qed
    ultimately show ?thesis
      using run len tw unfolding step by (simp add: Some vals1_def [symmetric])
  qed
qed

text \<open>The fields of an advertisement: a value for each key that is there, a dash for each that is
  not, and eleven dashes when one of the eleven is there twice.\<close>

definition adv_name :: "char \<Rightarrow> string" where
  "adv_name c =
    (if c = CHR ''t'' then ''transfer_size'' else if c = CHR ''d'' then ''data_size''
     else if c = CHR ''n'' then ''resource_parts'' else if c = CHR ''i'' then ''segment_index''
     else if c = CHR ''l'' then ''total_segments'' else if c = CHR ''f'' then ''resource_flags''
     else if c = CHR ''h'' then ''resource_hash'' else if c = CHR ''r'' then ''resource_random''
     else if c = CHR ''o'' then ''original_hash'' else if c = CHR ''q'' then ''request_id''
     else ''hashmap'')"

definition adv_text :: "char \<Rightarrow> mv \<Rightarrow> string" where
  "adv_text c v = (if c \<in> {CHR ''t'', CHR ''d'', CHR ''n'', CHR ''i'', CHR ''l''} then uint_text dec v
     else if c = CHR ''f'' then uint_text hex02 v else bin_text v)"

definition adv_twice :: "(mv \<times> mv) list \<Rightarrow> bool" where
  "adv_twice kvs \<longleftrightarrow> (\<exists>i<11. 2 \<le> occ i kvs)"

definition adv_line :: "(mv \<times> mv) list \<Rightarrow> char \<Rightarrow> line" where
  "adv_line kvs c = Field (adv_name c)
     (case map_of kvs (Str [of_char c]) of None \<Rightarrow> ''-'' | Some v \<Rightarrow> adv_text c v)"

definition dashes :: "line list" where
  "dashes = map (\<lambda>c. Field (adv_name c) ''-'') order"

definition adv_lines :: "(mv \<times> mv) list \<Rightarrow> line list" where
  "adv_lines kvs = (if adv_twice kvs then dashes else map (adv_line kvs) order)"

lemma order_cases: "c \<in> set order \<Longrightarrow> c \<in> {CHR ''t'', CHR ''d'', CHR ''n'', CHR ''h'', CHR ''r'', CHR ''o'',
    CHR ''i'', CHR ''l'', CHR ''q'', CHR ''f'', CHR ''m''}"
  by (simp add: order_def)

lemma adv_field_pack:
  assumes "c \<in> set order" and "wf_mv v"
  shows "andthen (adv_field c (stream (pack v @ x))) (\<lambda>_. ret ()) = print [Field (adv_name c) (adv_text c v)]"
proof -
  have u: "andthen (mp_field_uint (stream (pack v @ x)) name fmt) (\<lambda>_. ret ()) = print [Field name (uint_text fmt v)]"
    for name fmt using mp_field_uint_pack [OF assms(2), of x name fmt] by (auto simp: andthen_assoc)
  have b: "andthen (mp_field_bin (stream (pack v @ x)) name) (\<lambda>_. ret ()) = print [Field name (bin_text v)]"
    for name using mp_field_bin_pack [OF assms(2), of x name] by (auto simp: andthen_assoc)
  show ?thesis
    using order_cases [OF assms(1)] by (auto simp: adv_field_def adv_name_def adv_text_def u b)
qed

lemma adv_field_dash:
  assumes "c \<in> set order" and "mp_bad m"
  shows "andthen (adv_field c m) (\<lambda>_. ret ()) = print [Field (adv_name c) ''-'']"
proof -
  have u: "andthen (mp_field_uint m name fmt) (\<lambda>_. ret ()) = print [Field name ''-'']"
    for name fmt using mp_field_bad(1) [OF assms(2), of name fmt] by (auto simp: andthen_assoc)
  have b: "andthen (mp_field_bin m name) (\<lambda>_. ret ()) = print [Field name ''-'']"
    for name using mp_field_bad(2) [OF assms(2), of name] by (auto simp: andthen_assoc)
  show ?thesis
    using order_cases [OF assms(1)] by (auto simp: adv_field_def adv_name_def u b)
qed

lemma seq_prints:
  assumes "length ms = length ls" and "\<And>i. i < length ls \<Longrightarrow> ms ! i = print [ls ! i]"
  shows "seq ms = print ls"
proof -
  have "ms = map print (map (\<lambda>l. [l]) ls)"
    using assms by (intro nth_equalityI) simp_all
  then have "seq ms = print (concat (map (\<lambda>l. [l]) ls))"
    by (simp only: seq_map_print)
  then show ?thesis by (simp add: concat_map_singleton)
qed

lemma print_adv_dashes:
  assumes "mp_map m = (n, m1)" and "adv_loop n m1 (replicate 11 no_stream) False = (m2, vals, twice)"
    and "length vals = 11" and "twice \<or> mp_bad m2"
  shows "print_adv m = print dashes"
proof -
  have "seq (map (\<lambda>(c, v). andthen (adv_field c v) (\<lambda>_. ret ())) (zip order (map (\<lambda>v. v\<lparr>mp_bad := True\<rparr>) vals)))
      = print dashes"
    by (rule seq_prints) (use assms(3) in \<open>auto simp: dashes_def intro!: adv_field_dash\<close>)
  then show ?thesis
    using assms by (simp add: print_adv_def Let_def)
qed

lemma adv_loop_length: "adv_loop n m vals twice = (m', vals', twice') \<Longrightarrow> length vals' = length vals"
  by (induction n arbitrary: m vals twice) (auto split: if_splits prod.splits option.splits)

lemma held_none: "i < 11 \<Longrightarrow> held (replicate 11 no_stream) i = 0"
  by (simp add: held_def no_stream_def)

lemma print_adv_pack:
  assumes "wf_mv (Map kvs)"
  shows "print_adv (stream (pack (Map kvs) @ x)) = print (adv_lines kvs)"
proof -
  have wf: "list_all (\<lambda>(k, v). wf_mv k \<and> wf_mv v) kvs" "length kvs < 65536"
    using assms by simp_all
  have mp: "mp_map (stream (pack (Map kvs) @ x)) = (length kvs, stream (pairs_bytes kvs @ x))"
    using mp_map_pack [OF wf(2)] by (simp add: pairs_bytes_def)
  obtain vals twice where loop: "adv_loop (length kvs) (stream (pairs_bytes kvs @ x)) (replicate 11 no_stream) False
      = (stream x, vals, twice)" and len: "length vals = 11"
    and tw: "twice \<longleftrightarrow> adv_twice kvs"
    and vals: "\<not> twice \<longrightarrow> (\<forall>i<11. case map_of kvs (adv_key i) of
       None \<Rightarrow> vals ! i = replicate 11 no_stream ! i | Some v \<Rightarrow> \<exists>y. vals ! i = stream (pack v @ y))"
    using adv_loop_pairs [OF wf(1), of "replicate 11 no_stream" x False]
    by (auto simp: adv_twice_def held_none cong: conj_cong)
  show ?thesis
  proof (cases twice)
    case True
    then show ?thesis
      using print_adv_dashes [OF mp loop len] tw by (simp add: adv_lines_def)
  next
    case False
    have "seq (map (\<lambda>(c, v). andthen (adv_field c v) (\<lambda>_. ret ())) (zip order vals)) = print (map (adv_line kvs) order)"
    proof (rule seq_prints)
      fix i
      assume "i < length (map (adv_line kvs) order)"
      then have i: "i < 11" by simp
      then have c: "order ! i \<in> set order" by simp
      have wfv: "wf_mv v" if "map_of kvs (adv_key i) = Some v" for v
        using wf(1) map_of_SomeD [OF that] by (auto simp: list_all_iff)
      have "andthen (adv_field (order ! i) (vals ! i)) (\<lambda>_. ret ()) = print [adv_line kvs (order ! i)]"
      proof (cases "map_of kvs (adv_key i)")
        case None
        then have "vals ! i = no_stream" using vals False i by fastforce
        then show ?thesis
          using adv_field_dash [OF c, of no_stream] None
          by (simp add: adv_line_def adv_key_def no_stream_def)
      next
        case (Some v)
        then obtain y where "vals ! i = stream (pack v @ y)" using vals False i by fastforce
        then show ?thesis
          using adv_field_pack [OF c wfv [OF Some]] Some by (simp add: adv_line_def adv_key_def)
      qed
      then show "map (\<lambda>(c, v). andthen (adv_field c v) (\<lambda>_. ret ())) (zip order vals) ! i = print [map (adv_line kvs) order ! i]"
        using i len by simp
    qed (use len in simp)
    then show ?thesis
      using False mp loop tw by (simp add: print_adv_def adv_lines_def)
  qed
qed
text \<open>Neither the order of the pairs nor pairs with other keys matter.\<close>

lemma map_of_unique:
  "length (filter (\<lambda>kv. fst kv = a) kvs) \<le> 1 \<Longrightarrow> map_of kvs a = Some v \<longleftrightarrow> (a, v) \<in> set kvs"
proof (induction kvs)
  case Nil
  then show ?case by simp
next
  case (Cons kv kvs)
  show ?case
  proof (cases "fst kv = a")
    case True
    then have "filter (\<lambda>kv. fst kv = a) kvs = []" using Cons.prems by simp
    then have "(a, v) \<notin> set kvs" by (force simp: filter_empty_conv)
    then show ?thesis using True by (cases kv) auto
  next
    case False
    then show ?thesis using Cons by (cases kv) auto
  qed
qed

definition known :: "(mv \<times> mv) list \<Rightarrow> (mv \<times> mv) list" where
  "known kvs = filter (\<lambda>(k, v). k \<in> adv_key ` {..<11}) kvs"

lemma occ_known: "i < 11 \<Longrightarrow> occ i (known kvs) = occ i kvs"
  by (auto simp: occ_def known_def intro!: arg_cong [of _ _ length] filter_cong)

lemma occ_mset: "mset kvs = mset kvs' \<Longrightarrow> occ i kvs = occ i kvs'"
  unfolding occ_def by (metis mset_filter size_mset)

lemma adv_lines_mset:
  assumes "mset (known kvs) = mset (known kvs')"
  shows "adv_lines kvs = adv_lines kvs'"
proof -
  have occ: "occ i kvs = occ i kvs'" if "i < 11" for i
    using occ_known [OF that] occ_mset [OF assms] by metis
  have "adv_line kvs c = adv_line kvs' c" if nt: "\<not> adv_twice kvs" and c: "c \<in> set order" for c
  proof -
    obtain i where i: "i < 11" "c = order ! i" using c by (auto simp: in_set_conv_nth)
    have le: "occ i kvs \<le> 1" "occ i kvs' \<le> 1"
      using nt i occ [OF i(1)] by (auto simp: adv_twice_def not_le less_Suc_eq_le)
    have mem: "(adv_key i, v) \<in> set kvs \<longleftrightarrow> (adv_key i, v) \<in> set kvs'" for v
    proof -
      have "(adv_key i, v) \<in> set (known kvs) \<longleftrightarrow> (adv_key i, v) \<in> set (known kvs')"
        using mset_eq_setD [OF assms] by simp
      then show ?thesis using i(1) by (auto simp: known_def)
    qed
    have "map_of kvs (adv_key i) = map_of kvs' (adv_key i)"
      using map_of_unique [OF le(1) [unfolded occ_def]] map_of_unique [OF le(2) [unfolded occ_def]] mem
      by (metis option.exhaust)
    then show ?thesis using i by (simp add: adv_line_def adv_key_def)
  qed
  then show ?thesis
    using occ by (auto simp: adv_lines_def adv_twice_def)
qed

text \<open>A map that is cut short is no map: eleven dashes. The loop over the pairs is a reader.\<close>

primrec pairs_reader :: "nat \<Rightarrow> mp \<Rightarrow> unit \<times> mp" where
  "pairs_reader 0 m = ((), m)"
| "pairs_reader (Suc n) m =
    (if mp_bad m then ((), m)
     else case mp_key m of (key, m') \<Rightarrow> (case skip_value m' of (_, m'') \<Rightarrow> pairs_reader n m''))"

lemma adv_loop_reader: "fst (adv_loop n m vals twice) = snd (pairs_reader n m)"
  by (induction n arbitrary: m vals twice)
     (auto simp: skip_value_def split: prod.splits option.splits)

lemma mp_reader_guard:
  assumes "mp_reader r"
  shows "mp_reader (\<lambda>m. if mp_bad m then (a, m) else r m)"
proof
  fix bs b z
  assume "(if mp_bad (stream bs) then (a, stream bs) else r (stream bs)) = (b, stream z)"
  then have "\<exists>u. bs = u @ z \<and> reads r b u"
    using mp_reader.local_read [OF assms] by simp
  then show "\<exists>u. bs = u @ z \<and> reads (\<lambda>m. if mp_bad m then (a, m) else r m) b u"
    by (simp add: reads_def)
qed simp

lemma mp_reader_pairs: "mp_reader (pairs_reader n)"
proof (induction n)
  case 0
  then show ?case using mp_reader_return [of "()"] by (simp cong: pairs_reader.simps(1))
next
  case (Suc n)
  have inner: "mp_reader (\<lambda>m. case skip_value m of (_, m') \<Rightarrow> pairs_reader n m')"
    by (rule mp_reader_case) (rule skip.mp_reader_axioms, rule Suc)
  have "mp_reader (\<lambda>m. case mp_key m of (key, m') \<Rightarrow> (case skip_value m' of (_, m'') \<Rightarrow> pairs_reader n m''))"
    by (rule mp_reader_case [OF key.mp_reader_axioms inner])
  then have "mp_reader (\<lambda>m. if mp_bad m then ((), m) else
      (case mp_key m of (key, m') \<Rightarrow> (case skip_value m' of (_, m'') \<Rightarrow> pairs_reader n m'')))"
    by (rule mp_reader_guard)
  then show ?case by (simp add: pairs_reader.simps(2) [abs_def])
qed

definition map_reader :: "mp \<Rightarrow> unit \<times> mp" where
  "map_reader m = (case mp_map m of (n, m') \<Rightarrow> pairs_reader n m')"

lemma mp_reader_map_reader: "mp_reader map_reader"
  unfolding map_reader_def [abs_def]
  by (intro mp_reader_case pairs.mp_reader_axioms mp_reader_pairs)

lemma map_reader_pack:
  assumes "wf_mv (Map kvs)"
  shows "reads map_reader () (pack (Map kvs))"
proof -
  have wf: "list_all (\<lambda>(k, v). wf_mv k \<and> wf_mv v) kvs" "length kvs < 65536"
    using assms by simp_all
  show ?thesis
    unfolding reads_def
  proof
    fix x
    have mp: "mp_map (stream (pack (Map kvs) @ x)) = (length kvs, stream (pairs_bytes kvs @ x))"
      using mp_map_pack [OF wf(2)] by (simp add: pairs_bytes_def)
    have "snd (pairs_reader (length kvs) (stream (pairs_bytes kvs @ x))) = stream x"
      using adv_loop_pairs [OF wf(1), of "replicate 11 no_stream" x False]
        adv_loop_reader [of "length kvs" "stream (pairs_bytes kvs @ x)" "replicate 11 no_stream" False]
      by auto
    then show "map_reader (stream (pack (Map kvs) @ x)) = ((), stream x)"
      unfolding map_reader_def mp prod.case by (simp add: prod_eq_iff)
  qed
qed

lemma print_adv_cut:
  assumes "wf_mv (Map kvs)" and "pack (Map kvs) = pre @ post" and "post \<noteq> []"
  shows "print_adv (stream pre) = print dashes"
proof -
  obtain n m1 where mp: "mp_map (stream pre) = (n, m1)" by (cases "mp_map (stream pre)")
  obtain m2 vals twice where loop: "adv_loop n m1 (replicate 11 no_stream) False = (m2, vals, twice)"
    by (cases "adv_loop n m1 (replicate 11 no_stream) False")
  have "mp_bad (snd (map_reader (stream pre)))"
    using mp_reader.refuses_prefix [OF mp_reader_map_reader] map_reader_pack [OF assms(1)] assms(2,3)
    by simp
  then have "mp_bad m2"
    using adv_loop_reader [of n m1 "replicate 11 no_stream" False] loop mp
    by (simp add: map_reader_def)
  then show ?thesis
    using print_adv_dashes [OF mp loop] adv_loop_length [OF loop] by simp
qed

section \<open>The other resource packets\<close>

definition short_lines :: "nat \<Rightarrow> line list" where
  "short_lines need = [Field ''invalid'' ''short-plaintext'', Field ''minimum_length'' (dec need)]"

lemma short_plaintext_lines:
  "short_plaintext len need = (if need \<le> len then ret False else andthen (print (short_lines need)) (\<lambda>_. ret True))"
  by (simp add: short_plaintext_def short_lines_def)

definition req_lines :: "bytes \<Rightarrow> line list" where
  "req_lines m =
    (if m = [] then short_lines 1
     else let ex = (m ! 0 = 0xff); need = (if ex then 37 else 33); at = (if ex then 5 else 1)
       in if length m < need then short_lines need
          else [Field ''hashmap_exhausted'' (yesno ex),
            Field ''last_map_hash'' (if ex then hex_bytes (take 4 (drop 1 m)) else ''-''),
            Field ''resource_hash'' (hex_bytes (take 32 (drop at m))),
            Field ''requested_hashes'' (hex_value (drop (at + 32) m))])"

lemma print_req_lines: "print_req (m @ z) (length m) = print (req_lines m)"
proof (cases "m = []")
  case True
  then show ?thesis by (simp add: print_req_def req_lines_def short_plaintext_lines andthen_assoc)
next
  case False
  have b: "load_byte (m @ z) 0 = ret (m ! 0)" using False by (cases m) simp_all
  show ?thesis
    using False b
    by (cases "m ! 0 = 0xff"; cases "length m < (if m ! 0 = 0xff then 37 else 33)")
       (auto simp: print_req_def req_lines_def short_plaintext_lines andthen_assoc Let_def hex_value_length
          Suc_le_eq)
qed

definition uint_field :: "mp \<Rightarrow> string \<Rightarrow> (nat \<Rightarrow> string) \<Rightarrow> line \<times> mp" where
  "uint_field m name fmt = (case mp_uint m of (v, m') \<Rightarrow> (Field name (if mp_bad m' then ''-'' else fmt v), m'))"

definition bin_field :: "mp \<Rightarrow> string \<Rightarrow> line \<times> mp" where
  "bin_field m name = (case mp_bin m of (p, m') \<Rightarrow>
     (Field name (if mp_bad m' then ''-'' else (case p of None \<Rightarrow> ''-'' | Some bs \<Rightarrow> hex_value bs)), m'))"

definition double_field :: "mp \<Rightarrow> string \<Rightarrow> line \<times> mp" where
  "double_field m name = (case mp_double m of (p, m') \<Rightarrow>
     (Field name (case p of None \<Rightarrow> ''-'' | Some bs \<Rightarrow> hex_value bs), m'))"

lemma mp_field_lines:
  "mp_field_uint m name fmt = andthen (print [fst (uint_field m name fmt)]) (\<lambda>_. ret (snd (uint_field m name fmt)))"
  "mp_field_bin m name = andthen (print [fst (bin_field m name)]) (\<lambda>_. ret (snd (bin_field m name)))"
  by (auto simp: mp_field_uint_def uint_field_def mp_field_bin_def bin_field_def hex_value_def [of "[]"] split: prod.splits option.splits)

lemma mp_double_result: "mp_double m = (p, m') \<Longrightarrow> if mp_bad m' then p = None else (\<exists>bs. p = Some bs \<and> length bs = 8)"
  by (auto simp: mp_double_def mp_take_def split: prod.splits if_splits)

lemma mp_field_double_line:
  "mp_field_double m name = andthen (print [fst (double_field m name)]) (\<lambda>_. ret (snd (double_field m name)))"
proof -
  obtain p m' where d: "mp_double m = (p, m')" by (cases "mp_double m")
  then show ?thesis
    using mp_double_result [OF d] by (auto simp: mp_field_double_def double_field_def split: if_splits)
qed

definition check_count :: "nat \<Rightarrow> nat \<times> mp \<Rightarrow> mp" where
  "check_count n r = (if fst r \<noteq> n then (snd r)\<lparr>mp_bad := True\<rparr> else snd r)"

definition hmu_lines :: "bytes \<Rightarrow> line list" where
  "hmu_lines m =
    (if length m < 33 then short_lines 33
     else let u = check_count 2 (mp_array (stream (drop 32 m)));
              (l1, u1) = uint_field u ''segment_index'' dec;
              (l2, u2) = bin_field u1 ''hashmap''
          in [Field ''resource_hash'' (hex_bytes (take 32 m)), l1, l2])"

lemma print_hmu_lines: "print_hmu (m @ z) (length m) = print (hmu_lines m)"
proof (cases "length m < 33")
  case True
  then show ?thesis by (simp add: print_hmu_def hmu_lines_def short_plaintext_lines andthen_assoc)
next
  case False
  then have l: "load (drop 32 (m @ z)) (length m - 32) = ret (drop 32 m)" by simp
  have f: "field_hex ''resource_hash'' (m @ z) 32 = print [Field ''resource_hash'' (hex_bytes (take 32 m))]"
    using False by (simp add: hex_value_length)
  show ?thesis
    using False l f
    by (simp add: print_hmu_def hmu_lines_def short_plaintext_lines mp_field_lines check_count_def andthen_assoc
        Let_def case_prod_beta flip: stream_def)
qed


definition resource_lines :: "nat \<Rightarrow> bytes \<Rightarrow> line list" where
  "resource_lines context m =
    (if context = 2 then fst (print_adv (stream m))
     else if context = 3 then req_lines m
     else if context = 4 then hmu_lines m
     else if context = 6 \<or> context = 7 then [Field ''resource_hash'' (hex_value m)]
     else [])"

lemma adv_field_returns: "\<exists>ls. andthen (adv_field c m) (\<lambda>_. ret ()) = print ls"
proof -
  have "\<exists>l m'. adv_field c m = andthen (print l) (\<lambda>_. ret m')"
    unfolding adv_field_def mp_field_lines
    by (simp, intro conjI impI; (rule exI, rule exI, rule refl)?)
       (metis andthen_print_Nil)
  then show ?thesis by (auto simp: andthen_assoc)
qed

lemma seq_prints_ex: "\<forall>m \<in> set ms. \<exists>ls. m = print ls \<Longrightarrow> \<exists>ls. seq ms = print ls"
proof (induction ms)
  case Nil
  then show ?case using print_Nil by (metis seq.simps(1))
next
  case (Cons m ms)
  then show ?case by auto
qed

lemma print_adv_lines: "print_adv m = print (fst (print_adv m))"
proof -
  have "\<exists>ls. print_adv m = print ls"
    unfolding print_adv_def case_prod_beta Let_def
    by (rule seq_prints_ex) (auto simp: adv_field_returns)
  then show ?thesis by auto
qed

lemma print_resource_lines:
  "print_resource context (m @ z) (length m) = print (resource_lines context m)"
  using print_adv_lines [of "stream m"] print_req_lines [of m z] print_hmu_lines [of m z]
  by (auto simp: print_resource_def resource_lines_def print_Nil stream_def)

section \<open>What an opened link packet prints\<close>

text \<open>A list of lines and whether the function returns after them.\<close>

definition channel_lines :: "nat \<Rightarrow> bytes \<Rightarrow> line list \<times> bool" where
  "channel_lines context m =
    (if context \<noteq> 14 then ([], False)
     else if length m < 6 then (short_lines 6, True)
     else ([Field ''msgtype'' (hex_bytes (take 2 m)),
            Field ''sequence'' (dec (256 * unat (m ! 2) + unat (m ! 3))),
            Field ''declared_length'' (dec (256 * unat (m ! 4) + unat (m ! 5))),
            Field ''message'' (hex_value (drop 6 m))], False))"

definition request_lines :: "nat \<Rightarrow> bytes \<Rightarrow> line list \<times> bool" where
  "request_lines context m =
    (if context \<noteq> 9 \<and> context \<noteq> 10 then ([], False)
     else if m = [] then (short_lines 1, True)
     else if context = 9 then
       let (l1, m1) = double_field (check_count 3 (mp_array (stream m))) ''request_time'';
           (l2, m2) = bin_field m1 ''request_path_hash'';
           (l3, m3) = bin_field m2 ''request_data''
       in ([l1, l2, l3], False)
     else
       let (l1, m1) = bin_field (check_count 2 (mp_array (stream m))) ''request_id'';
           (l2, m2) = bin_field m1 ''response_data''
       in ([l1, l2], False))"

definition identify_lines :: "nat \<Rightarrow> bytes \<Rightarrow> bytes \<Rightarrow> line list" where
  "identify_lines context m lid =
    (if context \<noteq> 0xfb then []
     else if length m \<noteq> 128 then
       [Field ''invalid'' ''identify-length'', Field ''required_length'' (dec 128)]
     else let key = take 64 m; sd = lid @ key
       in [Field ''identity_public'' (hex_bytes key),
           Field ''identity_hash'' (hex_bytes (truncated_hash key 16)),
           Field ''identity_signed'' (hex_bytes sd),
           Field ''identity_valid'' (yesno (ed_valid (drop 32 key) (drop 64 m) sd))])"

definition opened_lines :: "nat \<Rightarrow> bytes \<Rightarrow> bytes \<Rightarrow> line list" where
  "opened_lines context m lid =
    (case channel_lines context m of (l1, r1) \<Rightarrow> l1 @ (if r1 then [] else
     case request_lines context m of (l2, r2) \<Rightarrow> l2 @ (if r2 then [] else
     resource_lines context m @ identify_lines context m lid)))"

lemma shift_8: "b < 256 \<Longrightarrow> push_bit 8 a OR b = 256 * a + b" for a b :: nat
  using push_bit_or [of b 8 a] by simp

lemma print_channel_lines:
  assumes "t_ptlen t = length m" and "t_plain t = m @ z"
  shows "print_channel context t =
    andthen (print (fst (channel_lines context m))) (\<lambda>_. ret (snd (channel_lines context m)))"
proof (cases "length m < 6")
  case True
  then show ?thesis
    using assms by (simp add: print_channel_def channel_lines_def short_plaintext_lines andthen_assoc)
next
  case False
  then have "take 6 m ! 2 = m ! 2" "take 6 m ! 3 = m ! 3" "take 6 m ! 4 = m ! 4" "take 6 m ! 5 = m ! 5"
    by simp_all
  then show ?thesis
    using False assms
    by (simp add: print_channel_def channel_lines_def short_plaintext_lines andthen_assoc shift_8 hex_value_length)
qed

lemma print_request_lines:
  assumes "t_ptlen t = length m" and "t_plain t = m @ z"
  shows "print_request context t =
    andthen (print (fst (request_lines context m))) (\<lambda>_. ret (snd (request_lines context m)))"
  using assms
  by (auto simp: print_request_def request_lines_def short_plaintext_lines andthen_assoc Let_def
      mp_field_lines mp_field_double_line check_count_def case_prod_beta Suc_le_eq simp flip: stream_def)

lemma print_identify_lines:
  assumes "t_ptlen t = length m" and "t_plain t = m @ z" and "length lid = 16"
  shows "print_identify context t lid = print (identify_lines context m lid)"
  using assms
  by (auto simp: print_identify_def identify_lines_def Let_def hex_value_length print_Nil MAXBLOB_def)

lemma print_opened_lines:
  assumes "t_ptlen t = length m" and "t_plain t = m @ z" and "length lid = 16"
  shows "print_opened context t lid = print (opened_lines context m lid)"
  using print_channel_lines [OF assms(1,2)] print_request_lines [OF assms(1,2)]
    print_identify_lines [OF assms] print_resource_lines [of _ m z] assms(1,2)
  by (simp add: print_opened_def opened_lines_def andthen_assoc case_prod_beta)

section \<open>linkdata\<close>

text \<open>The initiator's key is the first 32 bytes of the link request's payload; the code does not
  ask how long that payload is, and the array of the blob goes on with zeroes.\<close>

definition initiator_key :: "packet \<Rightarrow> bytes" where
  "initiator_key req = take 32 (p_payload req @ replicate 32 0)"

definition sealed_lines :: "packet \<Rightarrow> bytes \<Rightarrow> packet \<Rightarrow> line list" where
  "sealed_lines req priv p =
    (let pl = p_payload p; lid = link_id req; peer = initiator_key req; key = agreement priv peer lid
     in token_fields pl @ agreement_fields priv peer lid @ plaintext_fields key pl @
        (case key of None \<Rightarrow> [] | Some k \<Rightarrow> (case tok.unseal k pl of None \<Rightarrow> []
          | Some m \<Rightarrow> opened_lines (unat (p_context p)) m lid)))"

definition linkdata_lines :: "packet \<Rightarrow> bytes \<Rightarrow> packet \<Rightarrow> line list" where
  "linkdata_lines req priv p = header_fields p @
    [Field ''link_id'' (hex_bytes (link_id req)),
     Field ''link_id_match'' (yesno (p_destination p = link_id req))] @
    (if p_context p = 1 \<or> p_context p = 0xfa then
       [Field ''encrypted'' ''no'', Field ''plaintext_length'' (dec (length (p_payload p))),
        Field ''plaintext'' (hex_value (p_payload p))]
     else Field ''encrypted'' ''yes'' #
       (if length (p_payload p) < 48 then
          fault_fields (mk_fault ''short-payload'' ''payload_length'' (length (p_payload p)) ''minimum_length'' 48)
        else sealed_lines req priv p))"

definition linkdata_result :: "bytes \<Rightarrow> bytes \<Rightarrow> bytes \<Rightarrow> unit prog" where
  "linkdata_result req priv raw =
    andthen (print [Field ''link_request'' (hex_value req), Field ''responder_private'' (hex_bytes priv)]) (\<lambda>_.
    case decode_packet req of
      Inl f \<Rightarrow> fatal ''linkdata: the link request does not decode''
    | Inr rp \<Rightarrow> print (case decode_packet raw of
        Inl f \<Rightarrow> fault_fields f
      | Inr p \<Rightarrow> linkdata_lines rp priv p))"

lemma load_initiator_key:
  assumes "wf_blob b" and "decode_packet (contents b) = Inr rp"
  shows "load (p_payload rp @ after b) 32 = ret (initiator_key rp)"
proof -
  have "blen b = length (packet_bytes rp)" "blen b \<le> MAXBLOB" "wf_packet rp"
    using packet_blob [OF assms] by simp_all
  then have len: "blen b = 19 + 16 * fl_header_type (p_flags rp) + length (p_payload rp)"
    using packet_bytes_length by simp
  then have z: "length (p_payload rp) + (MAXBLOB - blen b) \<ge> 32"
    using fl_header_type_cases [of "p_flags rp"] \<open>blen b \<le> MAXBLOB\<close> by (auto simp: MAXBLOB_def)
  define n where "n = 32 - length (p_payload rp)"
  have "n \<le> MAXBLOB - blen b" "n \<le> 32" using z by (auto simp: n_def)
  then have "take n (after b) = take n (replicate 32 0)"
    by (simp add: after_def min_def)
  then show ?thesis
    using z by (simp add: initiator_key_def after_def flip: n_def)
qed

lemma opened_token:
  assumes "opens_as t key bs z" and "length lid = 16"
  shows "(if \<not> t_opened t then ret () else print_opened ctx t lid) =
    print (case key of None \<Rightarrow> [] | Some k \<Rightarrow> (case tok.unseal k bs of None \<Rightarrow> []
      | Some m \<Rightarrow> opened_lines ctx m lid))"
proof (cases key)
  case None
  then show ?thesis using assms(1) by (simp add: opens_as_def print_Nil)
next
  case (Some k)
  show ?thesis
  proof (cases "tok.unseal k bs")
    case None
    then show ?thesis using assms(1) Some by (simp add: opens_as_def print_Nil)
  next
    case m: (Some m)
    then have t: "t_opened t" "t_ptlen t = length m" "take (length m) (t_plain t) = m"
      using assms(1) Some by (simp_all add: opens_as_def)
    then have "t_plain t = m @ drop (length m) (t_plain t)"
      by (metis append_take_drop_id)
    then show ?thesis
      using print_opened_lines [OF t(2) _ assms(2)] t(1) Some m by simp
  qed
qed

lemma dump_linkdata_result:
  assumes "wf_blob (b ! 0)" "wf_blob (b ! 1)" "wf_blob (b ! 2)" and "blen (b ! 1) = 32"
  shows "dump_linkdata b = linkdata_result (contents (b ! 0)) (contents (b ! 1)) (contents (b ! 2))"
proof -
  from assms(2) obtain k z1 where k: "bdata (b ! 1) = k @ z1" "blen (b ! 1) = length k" "contents (b ! 1) = k"
    by (rule wf_blobE)
  have lk: "length k = 32" using assms(4) k by simp
  have kv: "hex_value k = hex_bytes k" using lk by (auto simp: hex_value_def)
  note facts = assms(1-3) k lk kv parse_header_blob [OF assms(1)]
  show ?thesis
  proof (cases "decode_packet (contents (b ! 0))")
    case (Inl f)
    then show ?thesis
      using facts by (simp add: dump_linkdata_def linkdata_result_def blob_value_def)
  next
    case rp: (Inr rp)
    note ok0 = rp link_id_of_blob [OF assms(1) rp] load_initiator_key [OF assms(1) rp]
    show ?thesis
    proof (cases "decode_packet (contents (b ! 2))")
      case (Inl f)
      then show ?thesis
        using facts ok0
        by (simp add: dump_linkdata_def linkdata_result_def blob_value_def open_packet_blob andthen_assoc)
    next
      case (Inr p)
      define pl where "pl = p_payload p"
      define z where "z = after (b ! 2)"
      have p: "wf_packet p" "length (p_destination p) = 16"
        using Inr by (simp_all add: decode_packet_iff wf_packet_def)
      have o: "open_packet (b ! 2) = ret (Some (header_of p z))"
        using assms(3) Inr by (simp add: open_packet_blob z_def)
      have ctx: "unat (p_context p) = 1 \<longleftrightarrow> p_context p = 1" "unat (p_context p) = 250 \<longleftrightarrow> p_context p = 250"
        by (simp_all add: word_unat_eq_iff)
      note defs = dump_linkdata_def linkdata_result_def linkdata_lines_def blob_value_def
        print_unencrypted_def hex_value_length Let_def
      consider (plain) "p_context p = 1 \<or> p_context p = 250"
        | (short) "p_context p \<noteq> 1" "p_context p \<noteq> 250" "length pl < 48"
        | (token) "p_context p \<noteq> 1" "p_context p \<noteq> 250" "48 \<le> length pl" by linarith
      then show ?thesis
      proof cases
        case plain
        then show ?thesis using facts ok0 Inr o p ctx by (auto simp: defs simp flip: pl_def)
      next
        case short
        then show ?thesis using facts ok0 Inr o p ctx by (simp add: defs flip: pl_def)
      next
        case token
        define lid where "lid = link_id rp"
        define peer where "peer = initiator_key rp"
        have "length pl \<le> MAXBLOB"
          using blob_payload [OF assms(3) Inr] by (simp add: pl_def)
        then obtain d t where dt:
          "(if snd (x25519_shared k peer) then hkdf_sha256 (fst (x25519_shared k peer)) lid [] 64 else ret []) = ret d"
          "token_open (pl @ z) (length pl) (if snd (x25519_shared k peer) then Some d else None) 64 = ret t"
          "opens_as t (agreement k peer lid) pl z"
          "print_keys (if snd (x25519_shared k peer) then Some (fst (x25519_shared k peer)) else None) d
            = print (agreement_fields k peer lid)"
          using derive_and_open [OF token(3)] by metis
        have fields: "print_token t = print (token_fields pl)"
          "print_plaintext t = print (plaintext_fields (agreement k peer lid) pl)"
          using print_token_fields [OF dt(3)] print_plaintext_fields [OF dt(3)] token(3) by simp_all
        have opened: "(if \<not> t_opened t then ret () else print_opened (unat (p_context p)) t lid) =
            print (case agreement k peer lid of None \<Rightarrow> [] | Some k \<Rightarrow> (case tok.unseal k pl of None \<Rightarrow> []
              | Some m \<Rightarrow> opened_lines (unat (p_context p)) m lid))"
          by (rule opened_token [OF dt(3)]) (simp add: lid_def)
        obtain s a where sa: "x25519_shared k peer = (s, a)" by (cases "x25519_shared k peer")
        note run = dt(1,2,4) [unfolded sa prod.sel]
        have lines: "linkdata_lines rp k p = header_fields p @
            [Field ''link_id'' (hex_bytes lid), Field ''link_id_match'' (yesno (p_destination p = lid)),
             Field ''encrypted'' ''yes''] @ token_fields pl @ agreement_fields k peer lid @
            plaintext_fields (agreement k peer lid) pl @
            (case agreement k peer lid of None \<Rightarrow> [] | Some k \<Rightarrow> (case tok.unseal k pl of None \<Rightarrow> []
              | Some m \<Rightarrow> opened_lines (unat (p_context p)) m lid))"
          unfolding lid_def peer_def pl_def
          using token [unfolded pl_def] by (simp add: linkdata_lines_def sealed_lines_def Let_def)
        have "length lid = 16" by (simp add: lid_def)
        then have "dump_linkdata b = andthen (print ([Field ''link_request'' (hex_value (contents (b ! 0))),
              Field ''responder_private'' (hex_bytes k)] @ header_fields p @
            [Field ''link_id'' (hex_bytes lid), Field ''link_id_match'' (yesno (p_destination p = lid)),
             Field ''encrypted'' ''yes''] @ token_fields pl @ agreement_fields k peer lid @
            plaintext_fields (agreement k peer lid) pl))
            (\<lambda>_. if \<not> t_opened t then ret () else print_opened (unat (p_context p)) t lid)"
          using facts ok0 [folded lid_def peer_def] Inr o p ctx token sa run fields
          by (cases a) (simp_all add: dump_linkdata_def blob_value_def hex_value_length Let_def flip: pl_def)
        then show ?thesis
          unfolding opened using rp Inr k(3) lines by (simp add: linkdata_result_def)
      qed
    qed
  qed
qed

end
