(* ===== verification/Rebuild.thy ===== *)
theory Rebuild
  imports Encode Resource
begin

text \<open>
  The two directions of cmd/dump.c together: for every kind of the encode class, the record its
  decoder prints gives back, through the kind's layout or encoder, the lines of raw it was printed
  from. \<open>put_header\<close> is the inverse of \<open>print_header\<close>, \<open>encode_packet_kind\<close> the argument
  every packet kind shares.
\<close>

section \<open>What is put back\<close>

text \<open>The record of a list of lines, and a value that spells a byte string: both ways the decoders
  print one.\<close>

fun record_of :: "line list \<Rightarrow> kv list" where
  "record_of [] = []"
| "record_of (Field n v # ls) = (n, v) # record_of ls"
| "record_of (Bare s # ls) = record_of ls"

lemma kvs_append [simp]: "record_of (xs @ ys) = record_of xs @ record_of ys"
  by (induction xs rule: record_of.induct) simp_all

definition spells :: "kv list \<Rightarrow> string \<Rightarrow> bytes \<Rightarrow> bool" where
  "spells f name bs \<longleftrightarrow> lookup f name = ret (hex_bytes bs) \<or> lookup f name = ret (hex_value bs)"

lemma put_field_spells:
  assumes "spells f name bs" and "length as + length bs \<le> MAXBLOB"
  shows "put_field (hex_bytes as) f name = ret (hex_bytes (as @ bs))"
proof (cases "bs = []")
  case True
  then show ?thesis
    using assms put_hex [OF assms(2)] by (auto simp: spells_def put_field_def hex_value_def)
next
  case False
  then have "hex_value bs = hex_bytes bs" by (simp add: hex_value_def)
  then show ?thesis
    using assms put_field_hex [OF _ assms(2), of f name] by (simp add: spells_def)
qed

text \<open>The bytes before the payload, and a record that carries the header of a packet.\<close>

definition header_bytes :: "packet \<Rightarrow> bytes" where
  "header_bytes p = [p_flags p, p_hops p] @ p_transport p @ p_destination p @ [p_context p]"

lemma packet_bytes_header: "packet_bytes p = header_bytes p @ p_payload p"
  by (simp add: packet_bytes_def header_bytes_def)

definition header_names :: "string list" where
  "header_names = [''flags'', ''hops'', ''transport_id'', ''destination_hash'', ''context'']"

definition carries :: "kv list \<Rightarrow> packet \<Rightarrow> bool" where
  "carries f p \<longleftrightarrow> spells f ''flags'' [p_flags p] \<and> lookup f ''hops'' = ret (dec (unat (p_hops p))) \<and>
     spells f ''transport_id'' (p_transport p) \<and> spells f ''destination_hash'' (p_destination p) \<and>
     lookup f ''context'' = ret (context_text (p_context p))"

lemma put_header_carries:
  assumes "carries f p" and "wf_packet p" and "length (header_bytes p) \<le> MAXBLOB"
  shows "put_header [] f = ret (hex_bytes (header_bytes p))"
proof -
  have hops: "unat (p_hops p) < 128" using assms(2) by (simp add: wf_packet_def)
  have l: "length (p_transport p) + length (p_destination p) + 3 \<le> MAXBLOB"
    using assms(3) by (simp add: header_bytes_def)
  have f: "spells f ''flags'' [p_flags p]" and h: "lookup f ''hops'' = ret (dec (unat (p_hops p)))"
    and t: "spells f ''transport_id'' (p_transport p)" and d: "spells f ''destination_hash'' (p_destination p)"
    and c: "lookup f ''context'' = ret (context_text (p_context p))"
    using assms(1) by (simp_all add: carries_def)
  have 1: "put_field [] f ''flags'' = ret (hex_bytes [p_flags p])"
    using put_field_spells [OF f, of "[]"] l by simp
  have 2: "put_hops (hex_bytes [p_flags p]) f = ret (hex_bytes [p_flags p, p_hops p])"
    using put_hops_dec [OF h hops, of "[p_flags p]"] l by simp
  have 3: "put_field (hex_bytes [p_flags p, p_hops p]) f ''transport_id'' =
      ret (hex_bytes ([p_flags p, p_hops p] @ p_transport p))"
    using l by (intro put_field_spells [OF t]) simp
  have 4: "put_field (hex_bytes ([p_flags p, p_hops p] @ p_transport p)) f ''destination_hash'' =
      ret (hex_bytes (([p_flags p, p_hops p] @ p_transport p) @ p_destination p))"
    using l by (intro put_field_spells [OF d]) simp
  have 5: "put_context (hex_bytes (([p_flags p, p_hops p] @ p_transport p) @ p_destination p)) f =
      ret (hex_bytes ((([p_flags p, p_hops p] @ p_transport p) @ p_destination p) @ [p_context p]))"
    using l by (intro put_context_text [OF c]) simp
  show ?thesis
    unfolding put_header_def 1 andthen_ret 2 3 4 5 by (simp add: header_bytes_def)
qed

lemma hex02_spells: "hex02 (unat b) = hex_bytes [b]" for b :: byte
  by (simp add: hex02_byte hex_bytes_def)

lemma carries_fields: "carries (record_of (header_fields p) @ f) p"
  by (simp add: carries_def spells_def header_fields_def hex02_spells)

lemma carries_skip: "fst kv \<notin> set header_names \<Longrightarrow> carries f p \<Longrightarrow> carries (kv # f) p"
  by (cases kv) (auto simp: carries_def spells_def header_names_def)

text \<open>A packed line: the named values one after the other.\<close>

lemma encode_tokens_packing:
  assumes "list_all2 (spells f) names parts" and "''='' \<notin> set names"
    and "length as + length (concat parts) \<le> MAXBLOB"
  shows "encode_tokens names f (hex_bytes as) True = print [Bare (hex_bytes (as @ concat parts))]"
  using assms
proof (induction names parts arbitrary: as rule: list_all2_induct)
  case Nil
  then show ?case by (simp add: emit_def)
next
  case (Cons name names bs parts)
  then have "put_field (hex_bytes as) f name = ret (hex_bytes (as @ bs))"
    by (intro put_field_spells) simp_all
  then show ?case
    using Cons.IH [of "as @ bs"] Cons.prems by auto
qed

lemma encode_tokens_packet:
  assumes "carries f p" and "wf_packet p" and "list_all2 (spells f) names parts" and "''='' \<notin> set names"
    and "p_payload p = concat parts" and "length (packet_bytes p) \<le> MAXBLOB"
  shows "encode_tokens (''='' # names) f [] False = print [Bare (hex_bytes (packet_bytes p))]"
proof -
  have l: "length (header_bytes p) + length (concat parts) \<le> MAXBLOB"
    using assms(5,6) by (simp add: packet_bytes_header)
  then have "put_header [] f = ret (hex_bytes (header_bytes p))"
    by (intro put_header_carries [OF assms(1,2)]) simp
  then show ?thesis
    using encode_tokens_packing [OF assms(3,4) l] assms(5) by (simp add: packet_bytes_header)
qed

lemma encode_tokens_emit:
  assumes "name \<noteq> ''=''" and "lookup f name = ret v"
  shows "encode_tokens (name # names) f [] False = andthen (print [Bare v]) (\<lambda>_. encode_tokens names f [] False)"
  using assms by (simp add: emit_field_def)

lemma spells_fields:
  "spells ((name, hex_bytes bs) # f) name bs" "spells ((name, hex_value bs) # f) name bs"
  by (simp_all add: spells_def)

lemma spells_skip: "n \<noteq> name \<Longrightarrow> spells f name bs \<Longrightarrow> spells ((n, v) # f) name bs"
  by (simp add: spells_def)

section \<open>Layouts\<close>

definition layout_tokens :: "string \<Rightarrow> string list" where
  "layout_tokens lay = filter (\<lambda>t. t \<noteq> []) (split_on blank lay)"

lemma encode_layout_short: "length lay < 256 \<Longrightarrow> encode_layout lay f = encode_tokens (layout_tokens lay) f [] False"
  by (simp add: encode_layout_def layout_tokens_def)

lemma plain_rebuilt:
  assumes "decode_packet raw = Inr p" and "length raw \<le> MAXBLOB"
  shows "encode_layout ''= plaintext'' (record_of (plain_fields raw)) = print [Bare (hex_bytes raw)]"
proof -
  have p: "wf_packet p" "packet_bytes p = raw" using assms(1) by (simp_all add: decode_packet_iff)
  let ?f = "record_of (plain_fields raw)"
  have f: "?f = record_of (header_fields p) @ [(''plaintext_length'', dec (length (p_payload p))), (''plaintext'', hex_value (p_payload p))]"
    using assms(1) by (simp add: plain_fields_def)
  have t: "layout_tokens ''= plaintext'' = [''='', ''plaintext'']" by code_simp
  have "spells ?f ''plaintext'' (p_payload p)"
    unfolding f by (simp add: header_fields_def spells_def)
  then have "encode_tokens [''='', ''plaintext''] ?f [] False = print [Bare (hex_bytes (packet_bytes p))]"
    using p assms(2) carries_fields by (intro encode_tokens_packet [where parts = "[p_payload p]"]) (simp_all add: f)
  then show ?thesis by (simp add: encode_layout_short t p(2))
qed

text \<open>A record read back from the lines of one packet kind: leading lines put first, then the
  packet. The premises are looked up in the lines of the kind.\<close>

lemma encode_packet_kind:
  assumes "decode_packet raw = Inr p" and "length raw \<le> MAXBLOB"
    and "layout_tokens lay = lead @ ''='' # names" and "length lay < 256"
    and "''='' \<notin> set lead" and "''='' \<notin> set names"
    and "list_all2 (\<lambda>n v. lookup f n = ret v) lead vals"
    and "carries f p" and "list_all2 (spells f) names parts" and "p_payload p = concat parts"
  shows "encode_layout lay f = print (map Bare vals @ [Bare (hex_bytes raw)])"
proof -
  have p: "wf_packet p" "packet_bytes p = raw" using assms(1) by (simp_all add: decode_packet_iff)
  have last: "encode_tokens (''='' # names) f [] False = print [Bare (hex_bytes raw)]"
    using encode_tokens_packet [OF assms(8) p(1) assms(9,6,10)] assms(2) p(2) by simp
  have "encode_tokens (lead @ ''='' # names) f [] False = print (map Bare vals @ [Bare (hex_bytes raw)])"
    using assms(7,5)
  proof (induction lead vals rule: list_all2_induct)
    case Nil
    then show ?case using last by simp
  next
    case (Cons n ns v vs)
    then show ?case by (auto simp: emit_field_def)
  qed
  then show ?thesis using assms(3,4) by (simp add: encode_layout_short)
qed

lemma spells_dash: "spells ((name, ''-'') # f) name []"
  by (simp add: spells_def hex_value_def)

lemma announce_rebuilt:
  assumes "decode_packet raw = Inr p" and "decode_announcement (fl_context_flag (p_flags p)) (p_payload p) = Inr a"
    and "length raw \<le> MAXBLOB"
  shows "encode_layout ''= public_key name_hash random_hash ratchet signature app_data''
    (record_of (announce_fields raw)) = print [Bare (hex_bytes raw)]"
proof -
  let ?f = "record_of (announce_fields raw)"
  have pl: "p_payload p = announcement_bytes a" using assms(2) by (simp add: ann.dec_iff)
  have t: "layout_tokens ''= public_key name_hash random_hash ratchet signature app_data'' =
      [] @ [''='', ''public_key'', ''name_hash'', ''random_hash'', ''ratchet'', ''signature'', ''app_data'']"
    by code_simp
  have f: "?f = record_of (header_fields p) @ record_of (drop 11 (announcement_fields p a))"
    using assms(1,2) by (simp add: announce_fields_def announcement_fields_def header_fields_def)
  have c: "carries ?f p" unfolding f by (rule carries_fields)
  have s: "list_all2 (spells ?f) [''public_key'', ''name_hash'', ''random_hash'', ''ratchet'', ''signature'', ''app_data'']
      [an_public_key a, an_name_hash a, an_random_hash a, an_ratchet a, an_signature a, an_app_data a]"
    unfolding f by (simp add: announcement_fields_def header_fields_def spells_def)
  show ?thesis
    using encode_packet_kind [OF assms(1,3) t _ _ _ _ c s] pl by (simp add: announcement_bytes_def)
qed

lemma pathrequest_rebuilt:
  assumes "decode_packet raw = Inr p" and "decode_path_request (p_payload p) = Inr r"
    and "length raw \<le> MAXBLOB"
  shows "encode_layout ''= wanted_hash requester_id tag'' (record_of (pathrequest_fields raw)) = print [Bare (hex_bytes raw)]"
proof -
  let ?f = "record_of (pathrequest_fields raw)"
  have pl: "p_payload p = pr_wanted r @ pr_requester r @ pr_tag r"
    using assms(2) take_drop_split [of 16 32 "p_payload p"]
    by (auto simp: decode_path_request_def split: if_splits) (metis append_assoc append_take_drop_id)
  have t: "layout_tokens ''= wanted_hash requester_id tag'' = [] @ [''='', ''wanted_hash'', ''requester_id'', ''tag'']"
    by code_simp
  have f: "?f = record_of (header_fields p) @ record_of (path_request_fields r)"
    using assms(1,2) by (simp add: pathrequest_fields_def)
  have c: "carries ?f p" unfolding f by (rule carries_fields)
  have s: "list_all2 (spells ?f) [''wanted_hash'', ''requester_id'', ''tag''] [pr_wanted r, pr_requester r, pr_tag r]"
    unfolding f by (simp add: path_request_fields_def header_fields_def spells_def)
  show ?thesis using encode_packet_kind [OF assms(1,3) t _ _ _ _ c s] pl by simp
qed

lemma token_parts:
  assumes "48 \<le> length bs"
  shows "bs = take 16 bs @ take (length bs - 48) (drop 16 bs) @ drop (length bs - 32) bs"
proof -
  have "drop (length bs - 48) (drop 16 bs) = drop (length bs - 32) bs" using assms by simp
  then show ?thesis by (metis append_take_drop_id)
qed

lemma group_rebuilt:
  assumes "decode_packet raw = Inr p" and "48 \<le> length (p_payload p)" and "length raw \<le> MAXBLOB"
  shows "encode_layout ''group_key = iv ciphertext hmac'' (record_of (group_fields key raw)) =
    print [Bare (hex_bytes key), Bare (hex_bytes raw)]"
proof -
  let ?f = "record_of (group_fields key raw)"
  obtain g where f: "?f = (''group_key'', hex_bytes key) # record_of (header_fields p) @ record_of (token_fields (p_payload p)) @ g"
    using assms(1,2) by (simp add: group_fields_def group_packet_fields_def)
  have t: "layout_tokens ''group_key = iv ciphertext hmac'' = [''group_key''] @ ''='' # [''iv'', ''ciphertext'', ''hmac'']"
    by code_simp
  have c: "carries ?f p" unfolding f by (intro carries_skip carries_fields) (simp add: header_names_def)
  have s: "list_all2 (spells ?f) [''iv'', ''ciphertext'', ''hmac'']
      [take 16 (p_payload p), take (length (p_payload p) - 48) (drop 16 (p_payload p)), drop (length (p_payload p) - 32) (p_payload p)]"
    unfolding f by (simp add: token_fields_def header_fields_def spells_def)
  have v: "list_all2 (\<lambda>n v. lookup ?f n = ret v) [''group_key''] [hex_bytes key]" by (simp add: f)
  show ?thesis using encode_packet_kind [OF assms(1,3) t _ _ _ v c s] token_parts [OF assms(2)] by simp
qed


lemma encrypted_rebuilt:
  assumes "decode_packet raw = Inr p" and "80 \<le> length (p_payload p)" and "length raw \<le> MAXBLOB"
  shows "encode_layout ''recipient_private ratchet_private = ephemeral_public iv ciphertext hmac''
      (record_of (encrypted_fields priv ratchet raw)) =
    print [Bare (hex_bytes priv), Bare (hex_value ratchet), Bare (hex_bytes raw)]"
proof -
  let ?f = "record_of (encrypted_fields priv ratchet raw)"
  let ?names = "[''ephemeral_public'', ''iv'', ''ciphertext'', ''hmac'']"
  define pl where "pl = p_payload p"
  obtain g where f: "?f = (''recipient_private'', hex_bytes priv) # (''ratchet_private'', hex_value ratchet) #
      record_of (header_fields p) @ (''ephemeral_public'', hex_bytes (take 32 pl)) # record_of (token_fields (drop 32 pl)) @ g"
    using assms(1,2) by (simp add: encrypted_fields_def encrypted_packet_fields_def Let_def flip: pl_def)
  have t: "layout_tokens ''recipient_private ratchet_private = ephemeral_public iv ciphertext hmac'' =
      [''recipient_private'', ''ratchet_private''] @ ''='' # ?names"
    by code_simp
  have c: "carries ?f p" unfolding f by (intro carries_skip carries_fields) (simp_all add: header_names_def)
  have s: "list_all2 (spells ?f) ?names [take 32 pl, take 16 (drop 32 pl),
      take (length (drop 32 pl) - 48) (drop 16 (drop 32 pl)), drop (length (drop 32 pl) - 32) (drop 32 pl)]"
    unfolding f by (simp add: token_fields_def header_fields_def spells_def)
  have v: "list_all2 (\<lambda>n v. lookup ?f n = ret v) [''recipient_private'', ''ratchet_private'']
      [hex_bytes priv, hex_value ratchet]" by (simp add: f)
  have "pl = take 32 pl @ drop 32 pl" by simp
  also have "drop 32 pl = take 16 (drop 32 pl) @
      take (length (drop 32 pl) - 48) (drop 16 (drop 32 pl)) @ drop (length (drop 32 pl) - 32) (drop 32 pl)"
    using assms(2) by (intro token_parts) (simp add: pl_def)
  finally have pl: "p_payload p = concat [take 32 pl, take 16 (drop 32 pl),
      take (length (drop 32 pl) - 48) (drop 16 (drop 32 pl)), drop (length (drop 32 pl) - 32) (drop 32 pl)]"
    by (simp only: concat.simps append_Nil2 pl_def)
  show ?thesis using encode_packet_kind [OF assms(1,3) t _ _ _ v c s pl] by simp
qed

lemma linkrequest_rebuilt:
  assumes "decode_packet raw = Inr p" and "length (p_payload p) = 64 \<or> length (p_payload p) = 67"
    and "length raw \<le> MAXBLOB"
  shows "encode_layout ''= x25519_public ed25519_public signalling'' (record_of (linkrequest_fields raw)) =
    print [Bare (hex_bytes raw)]"
proof -
  let ?f = "record_of (linkrequest_fields raw)"
  let ?names = "[''x25519_public'', ''ed25519_public'', ''signalling'']"
  define pl where "pl = p_payload p"
  obtain g where f: "?f = record_of (header_fields p) @ (''x25519_public'', hex_bytes (take 32 pl)) #
      (''ed25519_public'', hex_bytes (take 32 (drop 32 pl))) # record_of (signalling_fields (drop 64 pl)) @ g"
    using assms(1,2) by (auto simp: linkrequest_fields_def simp flip: pl_def)
  have t: "layout_tokens ''= x25519_public ed25519_public signalling'' = [] @ ''='' # ?names" by code_simp
  have c: "carries ?f p" unfolding f by (rule carries_fields)
  have s: "list_all2 (spells ?f) ?names [take 32 pl, take 32 (drop 32 pl), drop 64 pl]"
    unfolding f by (simp add: signalling_fields_def header_fields_def spells_def hex_value_def Let_def)
  have pl: "p_payload p = concat [take 32 pl, take 32 (drop 32 pl), drop 64 pl]"
    using take_drop_split [of 32 64 pl] by (simp add: pl_def) (metis append_assoc append_take_drop_id)
  show ?thesis using encode_packet_kind [OF assms(1,3) t _ _ _ _ c s pl] by simp
qed

lemma linkproof_rebuilt:
  assumes "decode_packet req = Inr rp" and "decode_packet raw = Inr p"
    and "length (p_payload p) = 96 \<or> length (p_payload p) = 99" and "length raw \<le> MAXBLOB"
  shows "encode_layout ''link_request signer_public = signature x25519_public signalling''
      (record_of (fst (linkproof_result req key raw))) =
    print [Bare (hex_value req), Bare (hex_bytes key), Bare (hex_bytes raw)]"
proof -
  let ?f = "record_of (fst (linkproof_result req key raw))"
  let ?names = "[''signature'', ''x25519_public'', ''signalling'']"
  define pl where "pl = p_payload p"
  obtain g where f: "?f = (''link_request'', hex_value req) # (''signer_public'', hex_bytes key) #
      record_of (header_fields p) @ [(''link_id'', hex_bytes (link_id rp)),
        (''link_id_match'', yesno (p_destination p = link_id rp)), (''signature'', hex_bytes (take 64 pl)),
        (''x25519_public'', hex_bytes (take 32 (drop 64 pl)))] @ record_of (signalling_fields (drop 96 pl)) @ g"
    using assms(1-3) by (auto simp: linkproof_result_def linkproof_packet_fields_def Let_def simp flip: pl_def)
  have t: "layout_tokens ''link_request signer_public = signature x25519_public signalling'' =
      [''link_request'', ''signer_public''] @ ''='' # ?names" by code_simp
  have c: "carries ?f p" unfolding f by (intro carries_skip carries_fields) (simp_all add: header_names_def)
  have s: "list_all2 (spells ?f) ?names [take 64 pl, take 32 (drop 64 pl), drop 96 pl]"
    unfolding f by (simp add: signalling_fields_def header_fields_def spells_def hex_value_def Let_def)
  have v: "list_all2 (\<lambda>n v. lookup ?f n = ret v) [''link_request'', ''signer_public''] [hex_value req, hex_bytes key]"
    by (simp add: f)
  have pl: "p_payload p = concat [take 64 pl, take 32 (drop 64 pl), drop 96 pl]"
    using take_drop_split [of 64 96 pl] by (simp add: pl_def) (metis append_assoc append_take_drop_id)
  show ?thesis using encode_packet_kind [OF assms(2,4) t _ _ _ v c s pl] by simp
qed

lemma proof_rebuilt:
  assumes "decode_packet proved = Inr pp" and "decode_packet raw = Inr p"
    and "length (p_payload p) = 64 \<or> length (p_payload p) = 96"
    and "length key = (if on_link p then 32 else 64)" and "length raw \<le> MAXBLOB"
  shows "encode_layout ''proved_packet signer_public = proof_hash signature''
      (record_of (fst (proof_result proved key raw))) =
    print [Bare (hex_value proved), Bare (hex_bytes key), Bare (hex_bytes raw)]"
proof -
  let ?f = "record_of (fst (proof_result proved key raw))"
  let ?names = "[''proof_hash'', ''signature'']"
  define pl where "pl = p_payload p"
  define h where "h = (if length pl = 96 then take 32 pl else [])"
  define sig where "sig = (if length pl = 96 then drop 32 pl else pl)"
  have hs: "p_payload p = concat [h, sig]" by (simp add: h_def sig_def pl_def)
  have ph: "(if length pl = 96 then hex_bytes (take 32 pl) else ''-'') = hex_value h"
    using assms(3) by (auto simp: h_def hex_value_def pl_def)
  have r: "proof_packet_result pp key p = print (proof_packet_fields pp (if on_link p then key else drop 32 key) p)"
    using assms(3,4) by (auto simp: proof_packet_result_def)
  obtain form m1 m2 v1 v2 n1 n2 g where f: "?f = (''proved_packet'', hex_value proved) # (''signer_public'', hex_bytes key) #
      record_of (header_fields p) @ [(''form'', form), (''packet_hash'', m1), (''proof_hash'', hex_value h),
      (''hash_match'', m2), (n1, v1), (n2, v2), (''signature'', hex_bytes sig)] @ g"
    and n: "n1 \<noteq> ''signature''" "n2 \<noteq> ''signature''"
    using assms(1,2) r ph
    by (cases "on_link p") (auto simp: proof_result_def proof_packet_fields_def Let_def sig_def simp flip: pl_def)
  have t: "layout_tokens ''proved_packet signer_public = proof_hash signature'' =
      [''proved_packet'', ''signer_public''] @ ''='' # ?names" by code_simp
  have c: "carries ?f p" unfolding f by (intro carries_skip carries_fields) (simp_all add: header_names_def)
  have s: "list_all2 (spells ?f) ?names [h, sig]"
    unfolding f using n by (simp add: header_fields_def spells_def)
  have v: "list_all2 (\<lambda>n v. lookup ?f n = ret v) [''proved_packet'', ''signer_public''] [hex_value proved, hex_bytes key]"
    by (simp add: f)
  show ?thesis using encode_packet_kind [OF assms(2,5) t _ _ _ v c s hs] by simp
qed

lemma resourceproof_rebuilt:
  assumes "decode_packet raw = Inr p" and "length (p_payload p) = 64" and "length raw \<le> MAXBLOB"
  shows "encode_layout ''advertised_hash = resource_hash resource_proof'' (record_of (resourceproof_fields hash raw)) =
    print [Bare (hex_bytes hash), Bare (hex_bytes raw)]"
proof -
  let ?f = "record_of (resourceproof_fields hash raw)"
  let ?names = "[''resource_hash'', ''resource_proof'']"
  define pl where "pl = p_payload p"
  obtain g where f: "?f = (''advertised_hash'', hex_bytes hash) # record_of (header_fields p) @
      (''resource_hash'', hex_bytes (take 32 pl)) # (''resource_proof'', hex_bytes (drop 32 pl)) # g"
    using assms(1,2) by (simp add: resourceproof_fields_def resourceproof_packet_fields_def flip: pl_def)
  have t: "layout_tokens ''advertised_hash = resource_hash resource_proof'' = [''advertised_hash''] @ ''='' # ?names"
    by code_simp
  have c: "carries ?f p" unfolding f by (intro carries_skip carries_fields) (simp_all add: header_names_def)
  have s: "list_all2 (spells ?f) ?names [take 32 pl, drop 32 pl]"
    unfolding f by (simp add: header_fields_def spells_def)
  have v: "list_all2 (\<lambda>n v. lookup ?f n = ret v) [''advertised_hash''] [hex_bytes hash]" by (simp add: f)
  have pl: "p_payload p = concat [take 32 pl, drop 32 pl]" by (simp add: pl_def)
  show ?thesis using encode_packet_kind [OF assms(1,3) t _ _ _ v c s pl] by simp
qed

text \<open>The kinds that hold no packet print a value again.\<close>

lemma encode_values:
  assumes "layout_tokens lay = names" and "length lay < 256" and "''='' \<notin> set names"
    and "list_all2 (\<lambda>n v. lookup f n = ret v) names vals"
  shows "encode_layout lay f = print (map Bare vals)"
proof -
  have "encode_tokens names f [] False = print (map Bare vals)"
    using assms(4,3)
  proof (induction names vals rule: list_all2_induct)
    case Nil
    then show ?case by (simp add: print_Nil)
  next
    case (Cons n ns v vs)
    then show ?case by (auto simp: emit_field_def)
  qed
  then show ?thesis using assms(1,2) by (simp add: encode_layout_short)
qed

lemma identity_rebuilt: "encode_layout ''public_key'' (record_of (identity_fields key)) = print [Bare (hex_bytes key)]"
proof -
  have t: "layout_tokens ''public_key'' = [''public_key'']" by code_simp
  show ?thesis
    using encode_values [OF t, of "record_of (identity_fields key)" "[hex_bytes key]"] by (simp add: identity_fields_def)
qed

lemma keyset_rebuilt: "encode_layout ''private_key'' (record_of (keyset_fields priv)) = print [Bare (hex_bytes priv)]"
proof -
  have t: "layout_tokens ''private_key'' = [''private_key'']" by code_simp
  show ?thesis
    using encode_values [OF t, of "record_of (keyset_fields priv)" "[hex_bytes priv]"] by (simp add: keyset_fields_def)
qed

lemma lookup_append: "name \<notin> fst ` set g \<Longrightarrow> lookup (g @ f) name = lookup f name"
  by (induction g name rule: lookup.induct) auto

lemma name_fields_names: "fst ` set (record_of (name_fields name)) \<subseteq> {''app_name'', ''aspect''}"
proof -
  have "fst ` set (record_of (map (\<lambda>c. Field ''aspect'' (hex_value c)) cs)) \<subseteq> {''aspect''}" for cs
    by (induction cs) auto
  then show ?thesis by (auto simp: name_fields_def component_fields_def split: list.splits)
qed

lemma destination_rebuilt:
  "encode_layout ''name identity_hash'' (record_of (destination_fields name identity)) =
    print [Bare (hex_value name), Bare (hex_value identity)]"
proof -
  have t: "layout_tokens ''name identity_hash'' = [''name'', ''identity_hash'']" by code_simp
  have "''identity_hash'' \<notin> fst ` set (record_of (name_fields name))"
    using name_fields_names [of name] by auto
  then have "lookup (record_of (destination_fields name identity)) ''identity_hash'' = ret (hex_value identity)"
    by (simp add: destination_fields_def lookup_append)
  then show ?thesis
    using encode_values [OF t, of "record_of (destination_fields name identity)" "[hex_value name, hex_value identity]"]
    by (simp add: destination_fields_def)
qed

section \<open>linkdata rebuilt\<close>

lemma linkdata_rebuilt:
  assumes "decode_packet req = Inr rp" and "decode_packet raw = Inr p" and "length raw \<le> MAXBLOB"
    and "p_context p = 1 \<or> p_context p = 0xfa \<or> 48 \<le> length (p_payload p)"
  shows "encode_linkdata (record_of (fst (linkdata_result req priv raw))) =
    print [Bare (hex_value req), Bare (hex_bytes priv), Bare (hex_bytes raw)]"
proof -
  let ?f = "record_of (fst (linkdata_result req priv raw))"
  define pl where "pl = p_payload p"
  have p: "wf_packet p" "packet_bytes p = raw" using assms(2) by (simp_all add: decode_packet_iff)
  have l: "length (header_bytes p) + length pl \<le> MAXBLOB"
    using assms(3) p(2) packet_bytes_header [of p] by (simp add: pl_def flip: length_append)
  define m where "m = yesno (p_destination p = link_id rp)"
  obtain g where f: "?f = (''link_request'', hex_value req) # (''responder_private'', hex_bytes priv) #
      record_of (header_fields p) @ (''link_id'', hex_bytes (link_id rp)) # (''link_id_match'', m) # g"
    and g: "g = (if p_context p = 1 \<or> p_context p = 0xfa then
        [(''encrypted'', ''no''), (''plaintext_length'', dec (length pl)), (''plaintext'', hex_value pl)]
      else (''encrypted'', ''yes'') # record_of (sealed_lines rp priv p))"
    using assms(1,2,4) by (auto simp: linkdata_result_def linkdata_lines_def m_def simp flip: pl_def)
  have "carries ?f p" unfolding f by (intro carries_skip carries_fields) (simp_all add: header_names_def)
  moreover have "length (header_bytes p) \<le> MAXBLOB" using l by linarith
  ultimately have h: "put_header [] ?f = ret (hex_bytes (header_bytes p))"
    by (intro put_header_carries [OF _ p(1)])
  have lead: "lookup ?f ''link_request'' = ret (hex_value req)" "lookup ?f ''responder_private'' = ret (hex_bytes priv)"
    by (simp_all add: f)
  have enc: "lookup ?f ''encrypted'' = ret (if p_context p = 1 \<or> p_context p = 0xfa then ''no'' else ''yes'')"
    by (simp add: f g header_fields_def)
  have raw: "header_bytes p @ pl = raw" using p(2) by (simp add: packet_bytes_header pl_def)
  show ?thesis
  proof (cases "p_context p = 1 \<or> p_context p = 0xfa")
    case True
    then have "spells ?f ''plaintext'' pl" by (simp add: f g header_fields_def spells_def)
    then have "put_field (hex_bytes (header_bytes p)) ?f ''plaintext'' = ret (hex_bytes raw)"
      using put_field_spells [OF _ l, of ?f "''plaintext''"] raw by simp
    then show ?thesis using True h lead enc by (simp add: encode_linkdata_def emit_field_def emit_def)
  next
    case False
    then have pl48: "48 \<le> length pl" using assms(4) by (simp add: pl_def)
    obtain g' where g': "g = (''encrypted'', ''yes'') # record_of (token_fields pl) @ g'"
      using False by (simp add: g sealed_lines_def Let_def flip: pl_def)
    let ?a = "take 16 pl" and ?b = "take (length pl - 48) (drop 16 pl)" and ?c = "drop (length pl - 32) pl"
    have s: "spells ?f ''iv'' ?a" "spells ?f ''ciphertext'' ?b" "spells ?f ''hmac'' ?c"
      by (simp_all add: f g' header_fields_def token_fields_def spells_def)
    have sum: "length ?a + length ?b + length ?c = length pl" using pl48 by simp
    have 1: "put_field (hex_bytes (header_bytes p)) ?f ''iv'' = ret (hex_bytes (header_bytes p @ ?a))"
      using l sum by (intro put_field_spells [OF s(1)]) linarith
    have 2: "put_field (hex_bytes (header_bytes p @ ?a)) ?f ''ciphertext'' = ret (hex_bytes ((header_bytes p @ ?a) @ ?b))"
      using l sum unfolding length_append by (intro put_field_spells [OF s(2)]) (unfold length_append, linarith)
    have 3: "put_field (hex_bytes ((header_bytes p @ ?a) @ ?b)) ?f ''hmac'' = ret (hex_bytes (((header_bytes p @ ?a) @ ?b) @ ?c))"
      using l sum unfolding length_append by (intro put_field_spells [OF s(3)]) (unfold length_append, linarith)
    have "((header_bytes p @ ?a) @ ?b) @ ?c = raw"
      using token_parts [OF pl48] raw by (metis append_assoc)
    then show ?thesis
      using False h lead enc 1 2 3 by (simp add: encode_linkdata_def emit_field_def emit_def)
  qed
qed

section \<open>ifac rebuilt from its lines\<close>

text \<open>A blob as a file can hold it: a line is never empty, so what is not absent has bytes.\<close>

definition canonical :: "blob \<Rightarrow> bool" where
  "canonical b \<longleftrightarrow> wf_blob b \<and> (absent b \<or> contents b \<noteq> [])"

lemma get_blob_value:
  assumes "canonical b" and "lookup f name = ret (blob_value b)"
  shows "get_blob f name = ret b"
proof -
  have "wf_blob b" using assms(1) by (simp add: canonical_def)
  then show ?thesis
  proof (cases rule: wf_blob_cases)
    case (present bs)
    then have "bs \<noteq> []" using assms(1) by (simp add: canonical_def)
    then have "hex_bytes bs \<noteq> ''-''" using hex_value_dash [of bs] by (simp add: hex_value_def)
    then show ?thesis
      using present assms(2) decode_hex_hex [of bs zero_blob name] \<open>bs \<noteq> []\<close>
      by (simp add: get_blob_def blob_value_def hex_value_def zero_blob_def)
  next
    case absent
    then show ?thesis using assms(2) by (simp add: get_blob_def blob_value_def hex_value_def zero_blob_def absent_blob_def contents_def)
  qed
qed


lemma unwrapped_length: "2 + sz \<le> length frame \<Longrightarrow> length (ifac_unwrap key sz frame) = length frame - sz"
  by (cases frame; cases "tl frame") (auto simp: ifac_unwrap_def Let_def set_head_def)

lemma frame_code_length: "2 + sz \<le> length frame \<Longrightarrow> length (frame_code sz frame) = sz"
  by (simp add: frame_code_def)

text \<open>The size line of raw holds the one byte the decoder took from it. The flag in the first byte
  of a frame is set, whether the frame had it or not.\<close>

lemma ifac_rebuilt:
  fixes c :: byte
  assumes names: "canonical nn" "canonical nk"
    and code: "1 \<le> unat c" "unat c \<le> 64"
    and frame: "2 + unat c < length frame" "length frame \<le> MAXBLOB"
  shows "encode_ifac (record_of (ifac_lines nn nk (unat c) frame)) = print [Bare (blob_value nn), Bare (blob_value nk),
    Bare (hex_bytes [c]), Bare (hex_bytes (set_head (\<lambda>b. b OR 0x80) frame))]"
proof -
  let ?f = "record_of (ifac_lines nn nk (unat c) frame)"
  define key where "key = network_key (origin_of nn nk)"
  define code where "code = frame_code (unat c) frame"
  define pkt where "pkt = ifac_unwrap key (unat c) frame"
  have lens: "length code = unat c" "length pkt = length frame - unat c"
    using frame(1) by (simp_all add: code_def pkt_def frame_code_length unwrapped_length)
  have cb: "canonical (blob_of code)" "canonical (blob_of pkt)"
    using lens assms(3-6) by (auto simp: canonical_def)
  obtain g where f: "?f = [(''netname'', blob_value nn), (''netkey'', blob_value nk), (''ifac_origin'', hex_bytes (origin_of nn nk)),
      (''ifac_key'', hex_bytes key), (''ifac_size'', dec (unat c)), (''frame_length'', dec (length frame)),
      (''ifac'', hex_bytes code), (''packet'', hex_bytes pkt)] @ g"
    by (simp add: ifac_lines_def Let_def flip: key_def code_def pkt_def)
  have v: "blob_value (blob_of code) = hex_bytes code" "blob_value (blob_of pkt) = hex_bytes pkt"
    using cb by (simp_all add: canonical_def blob_value_def hex_value_def)
  have "encode_ifac ?f = print [Bare (blob_value nn), Bare (blob_value nk), Bare (hex_bytes [of_nat (blen (blob_of code))]),
      Bare (hex_bytes (ifac_wrap (network_key (origin_of nn nk)) (contents (blob_of code)) (contents (blob_of pkt))))]"
  proof (rule encode_ifac_lines)
    show "get_blob ?f ''netname'' = ret nn" by (rule get_blob_value [OF names(1)]) (simp add: f)
    show "get_blob ?f ''netkey'' = ret nk" by (rule get_blob_value [OF names(2)]) (simp add: f)
    show "get_blob ?f ''ifac'' = ret (blob_of code)" by (rule get_blob_value [OF cb(1)]) (simp add: f v)
    show "get_blob ?f ''packet'' = ret (blob_of pkt)" by (rule get_blob_value [OF cb(2)]) (simp add: f v)
    show "lookup ?f ''netname'' = ret (blob_value nn)" "lookup ?f ''netkey'' = ret (blob_value nk)"
      by (simp_all add: f)
  qed (use names cb lens assms(3-6) in \<open>simp_all add: canonical_def\<close>)
  moreover have "ifac_wrap key code pkt = set_head (\<lambda>b. b OR 0x80) frame"
    unfolding code_def pkt_def using frame(1) by (intro ifac_wrap_unwrap) simp
  ultimately show ?thesis
    using lens(1) by (simp flip: key_def)
qed

end
