(* ===== verification/Reread.thy ===== *)
theory Reread
  imports Rebuild
begin

text \<open>
  Files written and read again: \<open>readraw\<close> of the lines of a list of blobs gives the blobs,
  \<open>readexpect\<close> of the text of a record gives the record, and the records the decoders print are
  such that it does.
\<close>

section \<open>Lines written and read back\<close>

definition plain_text :: "string \<Rightarrow> bool" where
  "plain_text s \<longleftrightarrow> newline \<notin> set s \<and> CR \<notin> set s \<and> NUL \<notin> set s"

lemma plain_text_append [simp]: "plain_text (s @ t) \<longleftrightarrow> plain_text s \<and> plain_text t"
  by (auto simp: plain_text_def)

lemma plain_text_Nil [simp]: "plain_text []"
  by (simp add: plain_text_def)

lemma fgets_line: "newline \<notin> set l \<Longrightarrow> length l < n \<Longrightarrow> fgets n (l @ newline # s) = (l @ [newline], s)"
  by (induction l arbitrary: n) (auto simp: less_Suc_eq_0_disj gr0_conv_Suc split: prod.splits, (case_tac n; auto)+)

lemma file_lines_lines:
  assumes "\<And>l. l \<in> set ls \<Longrightarrow> newline \<notin> set l \<and> length l \<le> n"
  shows "file_lines n (concat (map (\<lambda>l. l @ [newline]) ls)) = map (\<lambda>l. l @ [newline]) ls"
  using assms
proof (induction ls)
  case Nil
  then show ?case by (simp add: file_lines.simps)
next
  case (Cons l ls)
  then have "fgets (Suc n) (l @ newline # concat (map (\<lambda>l. l @ [newline]) ls)) =
      (l @ [newline], concat (map (\<lambda>l. l @ [newline]) ls))"
    by (intro fgets_line) (auto simp: less_Suc_eq_le)
  then show ?case
    using Cons by (subst file_lines.simps) simp
qed

lemma strip_eol_line: "plain_text l \<Longrightarrow> strip_eol (l @ [newline]) = l"
proof -
  assume a: "plain_text l"
  have "dropWhile (\<lambda>c. c = newline \<or> c = CR) (rev l) = rev l"
  proof (cases "rev l")
    case (Cons c cs)
    then have "c \<in> set l" by (metis list.set_intros(1) set_rev)
    then show ?thesis using a Cons by (auto simp: plain_text_def)
  qed simp
  then show ?thesis by (simp add: strip_eol_def)
qed

lemma readline_line: "plain_text l \<Longrightarrow> readline sz path k (l @ [newline]) = ret l"
proof -
  assume a: "plain_text l"
  have "newline \<noteq> NUL" by (simp add: newline_def NUL_def)
  then have "takeWhile (\<lambda>c. c \<noteq> NUL) (l @ [newline]) = l @ [newline]"
    using a by (intro takeWhile_eq_all_conv [THEN iffD2]) (auto simp: plain_text_def)
  then show ?thesis
    using strip_eol_line [OF a] by (simp add: readline_def)
qed

section \<open>raw read back\<close>

lemma digit_plain: "n < 16 \<Longrightarrow> digit n \<noteq> newline \<and> digit n \<noteq> CR \<and> digit n \<noteq> NUL \<and> digit n \<noteq> blank"
  using of_char_digit [of n]
  by (auto simp: newline_def CR_def NUL_def blank_def split: if_splits dest!: arg_cong [where f = "of_char :: char \<Rightarrow> nat"])

lemma digit_not_blank [simp]:
  "n < 16 \<Longrightarrow> newline \<noteq> digit n" "n < 16 \<Longrightarrow> CR \<noteq> digit n" "n < 16 \<Longrightarrow> NUL \<noteq> digit n" "n < 16 \<Longrightarrow> blank \<noteq> digit n"
  using digit_plain by force+

lemma hex_bytes_plain: "plain_text (hex_bytes bs)" "blank \<notin> set (hex_bytes bs)"
  by (induction bs) (simp_all add: hex_bytes_Cons hex_byte_def plain_text_def)

lemma hex_value_plain: "plain_text (hex_value bs)" "blank \<notin> set (hex_value bs)"
  using hex_bytes_plain by (auto simp: hex_value_def plain_text_def newline_def CR_def NUL_def blank_def)

lemma hex_value_bound: "length bs \<le> n \<Longrightarrow> length (hex_value bs) \<le> 2 * n + 1"
  by (simp add: hex_value_def)

lemma readraw_lines_values:
  assumes "\<forall>b \<in> set bs. canonical b" and "length out + length bs \<le> mx"
  shows "readraw_lines path mx (map (\<lambda>b. blob_value b @ [newline]) bs) k (length out)
      (out @ replicate (mx - length out) zero_blob) =
    ret (out @ bs @ replicate (mx - length out - length bs) zero_blob, length out + length bs)"
  using assms
proof (induction bs arbitrary: k out)
  case Nil
  then show ?case by simp
next
  case (Cons b bs)
  have b: "canonical b" and n: "length out < mx" using Cons.prems by auto
  have nth: "(out @ replicate (mx - length out) zero_blob) ! length out = zero_blob"
    using n by (simp add: nth_append)
  have z: "zero_blob\<lparr>blen := 0, absent := False\<rparr> = zero_blob" by (simp add: zero_blob_def)
  have upd: "(out @ replicate (mx - length out) zero_blob)[length out := b] =
      (out @ [b]) @ replicate (mx - length (out @ [b])) zero_blob"
    using n by (simp add: list_update_append Suc_diff_Suc [symmetric])
  have ne: "blob_value b \<noteq> []" by (simp add: blob_value_def hex_value_def)
  have rl: "readline RAWLINE path k (blob_value b @ [newline]) = ret (blob_value b)"
    unfolding blob_value_def by (rule readline_line) (rule hex_value_plain)
  have step: "readraw_lines path mx (map (\<lambda>b. blob_value b @ [newline]) (b # bs)) k (length out)
      (out @ replicate (mx - length out) zero_blob) =
    readraw_lines path mx (map (\<lambda>b. blob_value b @ [newline]) bs) (k + 1) (length out + 1)
      ((out @ replicate (mx - length out) zero_blob)[length out := b])"
  proof -
    have "wf_blob b" using b by (simp add: canonical_def)
    then show ?thesis
    proof (cases rule: wf_blob_cases)
      case (present ds)
      then have d: "ds \<noteq> []" using b by (simp add: canonical_def)
      then have v: "blob_value b = hex_bytes ds" using present by (simp add: blob_value_def hex_value_def)
      moreover have "hex_bytes ds \<noteq> ''-''" using d hex_value_dash [of ds] by (simp add: hex_value_def)
      moreover have "decode_hex zero_blob (hex_bytes ds) path = ret b"
        unfolding present(2) using present(1) by (intro decode_hex_hex) (simp_all add: zero_blob_def)
      ultimately show ?thesis using rl ne n nth z d by (simp add: Let_def)
    next
      case absent
      then have v: "blob_value b = ''-''" by (simp add: blob_value_def hex_value_def)
      have "zero_blob\<lparr>absent := True\<rparr> = b" by (simp add: absent zero_blob_def absent_blob_def)
      then show ?thesis using rl ne n nth z v by (simp add: Let_def)
    qed
  qed
  show ?case
    unfolding step upd using Cons.IH [of "out @ [b]" "k + 1"] Cons.prems by simp
qed

text \<open>What \<open>cat raw\<close> would show: a line per blob.\<close>

definition raw_lines :: "blob list \<Rightarrow> line list" where
  "raw_lines bs = map (\<lambda>b. Bare (blob_value b)) bs"

lemma render_raw_lines: "render (raw_lines bs) = concat (map (\<lambda>l. l @ [newline]) (map blob_value bs))"
  by (simp add: render_def raw_lines_def comp_def)

lemma canonical_wf: "canonical b \<Longrightarrow> wf_blob b"
  by (simp add: canonical_def)

lemma readraw_written:
  assumes "\<forall>b \<in> set bs. canonical b" and "length bs \<le> mx"
  shows "readraw path (Some (render (raw_lines bs))) (replicate mx zero_blob) mx =
    ret (bs @ replicate (mx - length bs) zero_blob, length bs)"
proof -
  have "newline \<notin> set l \<and> length l \<le> RAWLINE - 2" if l: "l \<in> set (map blob_value bs)" for l
  proof -
    obtain b where b: "b \<in> set bs" "l = hex_value (contents b)" using l by (auto simp: blob_value_def)
    then have "wf_blob b" using assms(1) by (simp add: canonical_def)
    then have "length (contents b) \<le> MAXBLOB" using contents_length wf_blob_len by simp
    then have "length l \<le> 2 * MAXBLOB + 1" unfolding b(2) by (rule hex_value_bound)
    moreover have "newline \<notin> set l" using hex_value_plain(1) [of "contents b"] by (simp add: b(2) plain_text_def)
    ultimately show ?thesis by (simp add: RAWLINE_def)
  qed
  then have "file_lines (RAWLINE - 2) (render (raw_lines bs)) = map (\<lambda>l. l @ [newline]) (map blob_value bs)"
    unfolding render_raw_lines by (rule file_lines_lines)
  then show ?thesis
    using readraw_lines_values [OF assms(1), of "[]" mx path 1] assms(2) by (simp add: readraw_def comp_def)
qed

section \<open>expect read back\<close>

text \<open>\<open>No value ever contains a space\<close>: what a name and a value have to be for a line to be read
  back as it was printed.\<close>

definition word_text :: "string \<Rightarrow> bool" where
  "word_text v \<longleftrightarrow> length v < KVVALUE \<and> plain_text v \<and> blank \<notin> set v"

definition name_text :: "string \<Rightarrow> bool" where
  "name_text n \<longleftrightarrow> n \<noteq> [] \<and> length n < KVNAME \<and> plain_text n \<and> blank \<notin> set n"

fun wf_line :: "line \<Rightarrow> bool" where
  "wf_line (Field n v) \<longleftrightarrow> name_text n \<and> word_text v"
| "wf_line (Bare s) \<longleftrightarrow> False"

definition line_text :: "line \<Rightarrow> string" where
  "line_text l = (case l of Field n v \<Rightarrow> pad FIELDW n @ [blank] @ v | Bare s \<Rightarrow> s)"

lemma render_line_text: "render_line l = line_text l @ [newline]"
  by (cases l) (simp_all add: line_text_def)

lemma blank_plain: "blank \<noteq> newline" "blank \<noteq> CR" "blank \<noteq> NUL"
  by (simp_all add: blank_def newline_def CR_def NUL_def)

lemma line_text_plain: "wf_line l \<Longrightarrow> plain_text (line_text l)"
  using blank_plain by (cases l) (auto simp: line_text_def pad_def plain_text_def name_text_def word_text_def)

lemma line_text_length: "wf_line l \<Longrightarrow> length (line_text l) \<le> EXPECTLINE - 2"
  by (cases l) (auto simp: line_text_def pad_def name_text_def word_text_def KVNAME_def KVVALUE_def EXPECTLINE_def MAXBLOB_def FIELDW_def)

lemma split_line:
  assumes "wf_line (Field n v)"
  shows "takeWhile (\<lambda>c. c \<noteq> blank) (line_text (Field n v)) = n"
    and "dropWhile (\<lambda>c. c = blank) (dropWhile (\<lambda>c. c \<noteq> blank) (line_text (Field n v))) = v"
proof -
  have lt: "line_text (Field n v) = n @ blank # replicate (FIELDW - length n) blank @ v"
    by (simp add: line_text_def pad_def replicate_app_Cons_same)
  have n: "\<And>c. c \<in> set n \<Longrightarrow> c \<noteq> blank" using assms by (auto simp: name_text_def)
  have v: "dropWhile (\<lambda>c. c = blank) v = v" using assms by (cases v) (auto simp: word_text_def)
  show "takeWhile (\<lambda>c. c \<noteq> blank) (line_text (Field n v)) = n"
    unfolding lt using n by (subst takeWhile_append2) auto
  have "dropWhile (\<lambda>c. c \<noteq> blank) (line_text (Field n v)) = blank # replicate (FIELDW - length n) blank @ v"
    unfolding lt using n by (subst dropWhile_append2) auto
  then show "dropWhile (\<lambda>c. c = blank) (dropWhile (\<lambda>c. c \<noteq> blank) (line_text (Field n v))) = v"
    using v by (simp add: dropWhile_append)
qed

lemma readexpect_lines_written:
  assumes "list_all wf_line ls" and "length out + length ls \<le> mx"
  shows "readexpect_lines path mx (map (\<lambda>l. line_text l @ [newline]) ls) k out = ret (out @ record_of ls)"
  using assms
proof (induction ls arbitrary: k out)
  case Nil
  then show ?case by simp
next
  case (Cons l ls)
  have wf: "wf_line l" using Cons.prems by simp
  then obtain n v where l: "l = Field n v" by (cases l) auto
  have rl: "readline EXPECTLINE path k (line_text l @ [newline]) = ret (line_text l)"
    by (rule readline_line) (rule line_text_plain [OF wf])
  have ne: "line_text l \<noteq> []" by (simp add: l line_text_def pad_def)
  have nv: "n \<noteq> []" "length n < KVNAME" "length v < KVVALUE" using wf l by (simp_all add: name_text_def word_text_def)
  have "readexpect_lines path mx (map (\<lambda>l. line_text l @ [newline]) (l # ls)) k out =
      readexpect_lines path mx (map (\<lambda>l. line_text l @ [newline]) ls) (k + 1) (out @ [(n, v)])"
    using rl ne nv Cons.prems(2) split_line [of n v] wf l by (simp add: Let_def)
  then show ?case using Cons.IH [of "out @ [(n, v)]" "k + 1"] Cons.prems l by simp
qed

lemma readexpect_written:
  assumes "list_all wf_line ls" and "length ls \<le> mx"
  shows "readexpect path (Some (render ls)) mx = ret (record_of ls)"
proof -
  have "newline \<notin> set t \<and> length t \<le> EXPECTLINE - 2" if "t \<in> set (map line_text ls)" for t
    using that assms(1) line_text_plain line_text_length by (auto simp: list_all_iff plain_text_def)
  then have "file_lines (EXPECTLINE - 2) (concat (map (\<lambda>l. l @ [newline]) (map line_text ls))) =
      map (\<lambda>l. l @ [newline]) (map line_text ls)"
    by (rule file_lines_lines)
  moreover have "render ls = concat (map (\<lambda>l. l @ [newline]) (map line_text ls))"
    by (simp add: render_def render_line_text [abs_def] comp_def)
  ultimately show ?thesis
    using readexpect_lines_written [OF assms(1), of "[]" mx path 1] assms(2) by (simp add: readexpect_def comp_def)
qed

section \<open>The values of a record are words\<close>

lemma word_hex [simp]: "length bs \<le> MAXBLOB \<Longrightarrow> word_text (hex_bytes bs)"
  by (simp add: word_text_def hex_bytes_plain KVVALUE_def)

lemma word_hex_value [simp]: "length bs \<le> MAXBLOB \<Longrightarrow> word_text (hex_value bs)"
  using hex_value_plain [of bs] hex_value_bound [of bs MAXBLOB] by (simp add: word_text_def KVVALUE_def)

lemma dec_length: "n < 10 ^ Suc k \<Longrightarrow> length (dec n) \<le> Suc k"
proof (induction k arbitrary: n)
  case 0
  then show ?case by (subst dec.simps) simp
next
  case (Suc k)
  then have "n div 10 < 10 ^ Suc k" by (simp add: less_mult_imp_div_less)
  then show ?case using Suc.IH [of "n div 10"] by (subst dec.simps) simp
qed

lemma dec_plain: "plain_text (dec n)" "blank \<notin> set (dec n)"
proof -
  have "\<not> is_digit newline" "\<not> is_digit CR" "\<not> is_digit NUL" "\<not> is_digit blank"
    by (simp_all add: is_digit_def newline_def CR_def NUL_def blank_def)
  then show "plain_text (dec n)" "blank \<notin> set (dec n)"
    using dec_digits [of n] by (auto simp: plain_text_def)
qed

lemma word_dec: "n < 10 ^ 20 \<Longrightarrow> word_text (dec n)"
  using dec_length [of n 19] dec_plain [of n] by (simp add: word_text_def KVVALUE_def MAXBLOB_def)

lemma word_char_list: "length s < 40 \<Longrightarrow> list_all (\<lambda>c. c \<notin> {newline, CR, NUL, blank}) s \<Longrightarrow> word_text s"
  by (auto simp: word_text_def plain_text_def list_all_iff KVVALUE_def MAXBLOB_def)

lemma word_dash [simp]: "word_text ''-''"
  by (rule word_char_list) code_simp+

lemma word_yesno [simp]: "word_text (yesno b)"
  by (cases b) (simp_all add: yesno_def, (rule word_char_list; code_simp)+)

lemma word_tables:
  "\<forall>v \<in> set (xport_types @ dest_types @ packet_types @ map snd contexts). word_text v"
proof -
  have "list_all (\<lambda>s. length s < 40 \<and> list_all (\<lambda>c. c \<notin> {newline, CR, NUL, blank}) s)
      (xport_types @ dest_types @ packet_types @ map snd contexts)"
    by code_simp
  then show ?thesis using word_char_list unfolding list_all_iff by blast
qed

lemma word_flag_tables [simp]:
  "word_text (xport_types ! fl_transport_type f)" "word_text (dest_types ! fl_destination_type f)"
  "word_text (packet_types ! fl_packet_type f)"
proof -
  have "fl_transport_type f < length xport_types" "fl_destination_type f < length dest_types"
    "fl_packet_type f < length packet_types"
    using flag_bounds [of f] by (simp_all add: xport_types_def dest_types_def packet_types_def del: flag_bounds)
  then show "word_text (xport_types ! fl_transport_type f)" "word_text (dest_types ! fl_destination_type f)"
    "word_text (packet_types ! fl_packet_type f)"
    using word_tables nth_mem by (auto simp del: nth_mem)
qed

lemma word_hex02 [simp]: "word_text (hex02 (unat b))" for b :: byte
  by (simp add: hex02_spells MAXBLOB_def)

lemma word_context [simp]: "word_text (context_text c)"
proof (cases "context_name (unat c)")
  case (Some n)
  then have "n \<in> set (map snd contexts)" by (force simp: context_name_def dest: map_of_SomeD)
  then show ?thesis using Some bspec [OF word_tables, of n] by (simp add: context_text_def)
next
  case None
  then show ?thesis by (simp add: context_text_def)
qed

end
