(* ===== verification/Program.thy ===== *)
theory Program
  imports Reread
begin

text \<open>
  The program as it is run: the table of kinds and \<open>main\<close> of cmd/dump.c over the arguments and a
  file system. The lemmas are about whole runs: which file gives which output, that every run ends
  in an exit of the process, and that the encoder gives back the file the decoder read.
\<close>

section \<open>The code\<close>

record kind =
  k_name :: string
  k_blobs :: nat
  k_decode :: "blob list \<Rightarrow> unit prog"
  k_encode :: "(kv list \<Rightarrow> unit prog) option"
  k_layout :: "string option"

definition kinds :: "kind list" where
  "kinds =
    [\<lparr>k_name = ''identity'', k_blobs = 1, k_decode = dump_identity, k_encode = None,
      k_layout = Some ''public_key''\<rparr>,
     \<lparr>k_name = ''keyset'', k_blobs = 1, k_decode = dump_keyset, k_encode = None,
      k_layout = Some ''private_key''\<rparr>,
     \<lparr>k_name = ''destination'', k_blobs = 2, k_decode = dump_destination, k_encode = None,
      k_layout = Some ''name identity_hash''\<rparr>,
     \<lparr>k_name = ''signature'', k_blobs = 3, k_decode = dump_signature, k_encode = None, k_layout = None\<rparr>,
     \<lparr>k_name = ''sign'', k_blobs = 2, k_decode = dump_sign, k_encode = None, k_layout = None\<rparr>,
     \<lparr>k_name = ''announce'', k_blobs = 1, k_decode = dump_announce, k_encode = None,
      k_layout = Some ''= public_key name_hash random_hash ratchet signature app_data''\<rparr>,
     \<lparr>k_name = ''plain'', k_blobs = 1, k_decode = dump_plain, k_encode = None,
      k_layout = Some ''= plaintext''\<rparr>,
     \<lparr>k_name = ''pathrequest'', k_blobs = 1, k_decode = dump_pathrequest, k_encode = None,
      k_layout = Some ''= wanted_hash requester_id tag''\<rparr>,
     \<lparr>k_name = ''encrypted'', k_blobs = 3, k_decode = dump_encrypted, k_encode = None,
      k_layout = Some ''recipient_private ratchet_private = ephemeral_public iv ciphertext hmac''\<rparr>,
     \<lparr>k_name = ''group'', k_blobs = 2, k_decode = dump_group, k_encode = None,
      k_layout = Some ''group_key = iv ciphertext hmac''\<rparr>,
     \<lparr>k_name = ''linkrequest'', k_blobs = 1, k_decode = dump_linkrequest, k_encode = None,
      k_layout = Some ''= x25519_public ed25519_public signalling''\<rparr>,
     \<lparr>k_name = ''linkproof'', k_blobs = 3, k_decode = dump_linkproof, k_encode = None,
      k_layout = Some ''link_request signer_public = signature x25519_public signalling''\<rparr>,
     \<lparr>k_name = ''linkdata'', k_blobs = 3, k_decode = dump_linkdata, k_encode = Some encode_linkdata,
      k_layout = None\<rparr>,
     \<lparr>k_name = ''proof'', k_blobs = 3, k_decode = dump_proof, k_encode = None,
      k_layout = Some ''proved_packet signer_public = proof_hash signature''\<rparr>,
     \<lparr>k_name = ''resourceproof'', k_blobs = 2, k_decode = dump_resourceproof, k_encode = None,
      k_layout = Some ''advertised_hash = resource_hash resource_proof''\<rparr>,
     \<lparr>k_name = ''ifac'', k_blobs = 4, k_decode = dump_ifac, k_encode = Some encode_ifac,
      k_layout = None\<rparr>]"

text \<open>The two directions of a kind. \<open>readraw\<close> is given the static blobs of the program.\<close>

definition decode_kind :: "kind \<Rightarrow> string \<Rightarrow> string option \<Rightarrow> unit prog" where
  "decode_kind k path file =
    andthen (readraw path file (replicate MAXBLOBS zero_blob) MAXBLOBS) (\<lambda>(blobs, n).
      if n \<noteq> k_blobs k then
        fatal (k_name k @ '': expected '' @ dec (k_blobs k) @ '' blob'' @
          (if k_blobs k = 1 then '''' else ''s'') @ '', got '' @ dec n)
      else k_decode k blobs)"

definition encode_kind :: "kind \<Rightarrow> string \<Rightarrow> string option \<Rightarrow> unit prog" where
  "encode_kind k path file =
    (if k_encode k = None \<and> k_layout k = None then
       fatal (''kind '' @ k_name k @ '' is not of the encode class'')
     else andthen (readexpect path file MAXFIELDS) (\<lambda>fields.
       case k_encode k of
         Some encode \<Rightarrow> encode fields
       | None \<Rightarrow> (case k_layout k of Some lay \<Rightarrow> encode_layout lay fields | None \<Rightarrow> halt Out_of_bounds)))"

text \<open>\<open>main\<close> over the arguments, \<open>argv[0]\<close> included, and a file system: the content of each path
  that can be opened. The value is the exit status; the usage text goes to standard error.\<close>

definition run_kind :: "bool \<Rightarrow> string \<Rightarrow> string \<Rightarrow> (string \<Rightarrow> string option) \<Rightarrow> nat prog" where
  "run_kind encode kind path fs =
    (case find (\<lambda>k. k_name k = kind) kinds of
       None \<Rightarrow> fatal (''unknown kind '' @ kind)
     | Some k \<Rightarrow> andthen (if encode then encode_kind k path (fs path) else decode_kind k path (fs path))
         (\<lambda>_. ret 0))"

definition main :: "string list \<Rightarrow> (string \<Rightarrow> string option) \<Rightarrow> nat prog" where
  "main argv fs =
    (if length argv = 2 \<and> argv ! 1 = ''-l'' then
       andthen (print (map (\<lambda>k. Bare (k_name k)) kinds)) (\<lambda>_. ret 0)
     else if length argv = 4 \<and> argv ! 1 = ''-e'' then run_kind True (argv ! 2) (argv ! 3) fs
     else if length argv = 3 then run_kind False (argv ! 1) (argv ! 2) fs
     else ret 2)"

text \<open>What the shell sees: the exit status, if the process exits at all rather than aborts or runs
  into undefined behaviour.\<close>

definition exit_status :: "nat prog \<Rightarrow> nat option" where
  "exit_status m = (case snd m of
     Inr n \<Rightarrow> Some n
   | Inl s \<Rightarrow> (case s of Fatal msg \<Rightarrow> Some 1 | Abort \<Rightarrow> None | Out_of_bounds \<Rightarrow> None))"

section \<open>Every run ends in an exit\<close>

definition clean :: "'a prog \<Rightarrow> bool" where
  "clean m \<longleftrightarrow> snd m \<noteq> Inl Abort \<and> snd m \<noteq> Inl Out_of_bounds"

lemma clean_basic [simp, intro]: "clean (ret a)" "clean (print ls)" "clean (fatal msg)"
  by (simp_all add: clean_def)

lemma clean_andthen:
  "clean m \<Longrightarrow> (\<And>a. snd m = Inr a \<Longrightarrow> clean (f a)) \<Longrightarrow> clean (andthen m f)"
  by (auto simp: clean_def andthen_def split: prod.splits sum.splits)

lemma clean_exit: "clean m \<Longrightarrow> exit_status m = (case snd m of Inr n \<Rightarrow> Some n | Inl s \<Rightarrow> Some 1)"
  by (auto simp: clean_def exit_status_def split: sum.splits stop.splits)

lemma clean_lookup [simp, intro]: "clean (lookup f name)"
  by (induction f name rule: lookup.induct) auto

lemma clean_put [simp, intro]: "clean (put out hex)" "clean (put_byte out v)"
  by (simp_all add: put_byte_def put_def)

lemma clean_put_bytes [simp, intro]: "clean (put_bytes out bs)"
  by (induction bs arbitrary: out) (auto intro: clean_andthen)

lemma clean_put_fields [simp, intro]:
  "clean (put_field out f name)" "clean (put_hops out f)" "clean (put_context out f)" "clean (emit_field f name)"
  by (auto simp: put_field_def put_hops_def put_context_def emit_field_def intro!: clean_andthen split: option.splits prod.splits)

lemma clean_put_header [simp, intro]: "clean (put_header out f)"
  by (auto simp: put_header_def intro!: clean_andthen)

lemma clean_encode_tokens [simp, intro]: "clean (encode_tokens names f out packing)"
  by (induction names arbitrary: out packing) (auto simp: emit_def intro!: clean_andthen)

lemma clean_encode_layout [simp, intro]: "clean (encode_layout lay f)"
  by (simp add: encode_layout_def)

lemma clean_encode_linkdata [simp, intro]: "clean (encode_linkdata f)"
  by (auto simp: encode_linkdata_def emit_def intro!: clean_andthen)

lemma clean_unhex_pairs [simp, intro]: "clean (unhex_pairs loc s)"
  by (induction loc s rule: unhex_pairs.induct) (auto simp: Let_def intro!: clean_andthen)

lemma clean_decode_hex [simp, intro]: "clean (decode_hex b s loc)"
  by (auto simp: decode_hex_def intro!: clean_andthen)

lemma clean_readline [simp, intro]: "clean (readline sz path k buf)"
  by (simp add: readline_def Let_def)

lemma clean_readraw [simp, intro]: "clean (readraw path file out mx)"
proof -
  have "clean (readraw_lines path mx bufs k n out)" for bufs k n out
    by (induction bufs arbitrary: k n out) (auto simp: Let_def intro!: clean_andthen)
  then show ?thesis by (simp add: readraw_def split: option.splits)
qed

lemma clean_readexpect [simp, intro]: "clean (readexpect path file mx)"
proof -
  have "clean (readexpect_lines path mx bufs k out)" for bufs k out
    by (induction bufs arbitrary: k out) (auto simp: Let_def intro!: clean_andthen)
  then show ?thesis by (simp add: readexpect_def split: option.splits)
qed

text \<open>Reading a record prints nothing: it gives a value or stops.\<close>

lemma ret_inj [simp]: "ret a = ret b \<longleftrightarrow> a = b" "ret a \<noteq> fatal msg" "fatal msg \<noteq> ret a"
  by (simp_all add: ret_def fatal_def halt_def)

definition silent :: "'a prog \<Rightarrow> bool" where
  "silent m \<longleftrightarrow> (\<exists>a. m = ret a) \<or> (\<exists>msg. m = fatal msg)"

lemma silent_basic [simp, intro]: "silent (ret a)" "silent (fatal msg)"
  by (auto simp: silent_def)

lemma silent_andthen: "silent m \<Longrightarrow> (\<And>a. m = ret a \<Longrightarrow> silent (f a)) \<Longrightarrow> silent (andthen m f)"
  by (auto simp: silent_def)

lemma silent_lookup [simp, intro]: "silent (lookup f name)"
  by (induction f name rule: lookup.induct) auto

lemma silent_unhex_pairs [simp, intro]: "silent (unhex_pairs loc s)"
  by (induction loc s rule: unhex_pairs.induct) (auto simp: Let_def intro!: silent_andthen)

lemma silent_get_blob: "silent (get_blob f name)"
  by (auto simp: get_blob_def decode_hex_def intro!: silent_andthen)

lemma get_blob_cases:
  obtains b v where "get_blob f name = ret b" "wf_blob b" "lookup f name = ret v"
  | msg where "get_blob f name = fatal msg"
proof (cases "\<exists>msg. get_blob f name = fatal msg")
  case True
  then show ?thesis using that(2) by blast
next
  case False
  then obtain b where b: "get_blob f name = ret b" using silent_get_blob [of f name] by (auto simp: silent_def)
  have "zero_blob\<lparr>absent := True\<rparr> = absent_blob" by (simp add: zero_blob_def absent_blob_def)
  moreover have "snd (get_blob f name) = Inr b" by (simp add: b)
  ultimately have "wf_blob b"
    by (auto simp: get_blob_def snd_andthen_Inr zero_blob_def split: if_splits dest!: decode_hex_wf)
  moreover obtain v where "lookup f name = ret v"
    using silent_lookup [of f name] b by (auto simp: silent_def get_blob_def)
  ultimately show ?thesis using that(1) b by blast
qed

lemma clean_encode_ifac [simp, intro]: "clean (encode_ifac f)"
proof (cases rule: get_blob_cases [of f "''netname''"])
  case nn: (1 nn v1)
  show ?thesis
  proof (cases rule: get_blob_cases [of f "''netkey''"])
    case nk: (1 nk v2)
    show ?thesis
    proof (cases rule: get_blob_cases [of f "''ifac''"])
      case c: (1 cb v3)
      show ?thesis
      proof (cases rule: get_blob_cases [of f "''packet''"])
        case p: (1 pb v4)
        show ?thesis
        proof (cases "2 \<le> blen pb \<and> 1 \<le> blen cb \<and> blen cb \<le> 64 \<and> blen pb + blen cb \<le> MAXBLOB")
          case True
          then show ?thesis
            using encode_ifac_lines [OF nn(1) nk(1) nn(2) nk(2) c(1,2) _ _ p(1,2) _ _ nn(3) nk(3)] by simp
        next
          case False
          then show ?thesis using nn(1) nk(1) c(1) p(1) by (auto simp: encode_ifac_def Let_def not_le)
        qed
      qed (use nn nk c in \<open>simp add: encode_ifac_def\<close>)
    qed (use nn nk in \<open>simp add: encode_ifac_def\<close>)
  qed (use nn in \<open>simp add: encode_ifac_def\<close>)
qed (simp add: encode_ifac_def)

text \<open>The decoders, on the blobs \<open>readraw\<close> builds.\<close>

lemma clean_dump_ifac:
  assumes "wf_blob (b ! 0)" "wf_blob (b ! 1)" "wf_blob (b ! 2)" "wf_blob (b ! 3)"
  shows "clean (dump_ifac b)"
proof (cases "absent (b ! 0) \<and> absent (b ! 1) \<or> blen (b ! 2) \<noteq> 1")
  case True
  then show ?thesis by (auto simp: dump_ifac_def)
next
  case False
  then have "length (contents (b ! 2)) = 1" using contents_length [OF assms(3)] by simp
  then obtain c where c: "contents (b ! 2) = [c]" by (auto simp: length_Suc_conv)
  then have b2: "load_byte (bdata (b ! 2)) 0 = ret c"
    using wf_blob_padding [OF assms(3)] by simp
  show ?thesis
  proof (cases "1 \<le> unat c \<and> unat c \<le> 64 \<and> 2 + unat c < blen (b ! 3)")
    case True
    then show ?thesis using dump_ifac_lines [OF assms _ c] False by simp
  next
    case guards: False
    then show ?thesis using False b2 by (auto simp: dump_ifac_def Let_def not_le not_less Suc_le_eq)
  qed
qed

lemma clean_results:
  "clean (linkproof_result req key raw)" "clean (proof_result req key raw)" "clean (linkdata_result req key raw)"
  by (auto simp: linkproof_result_def proof_result_def proof_packet_result_def linkdata_result_def
      intro!: clean_andthen split: sum.splits)

definition wf_blobs :: "nat \<Rightarrow> blob list \<Rightarrow> bool" where
  "wf_blobs n b \<longleftrightarrow> n \<le> length b \<and> (\<forall>i < n. wf_blob (b ! i))"

lemma clean_dumps:
  "wf_blob (b ! 0) \<Longrightarrow> clean (dump_identity b)"
  "wf_blob (b ! 0) \<Longrightarrow> clean (dump_keyset b)"
  "wf_blob (b ! 0) \<Longrightarrow> wf_blob (b ! 1) \<Longrightarrow> clean (dump_destination b)"
  "wf_blob (b ! 0) \<Longrightarrow> wf_blob (b ! 1) \<Longrightarrow> wf_blob (b ! 2) \<Longrightarrow> clean (dump_signature b)"
  "wf_blob (b ! 0) \<Longrightarrow> wf_blob (b ! 1) \<Longrightarrow> clean (dump_sign b)"
  "wf_blob (b ! 0) \<Longrightarrow> clean (dump_announce b)"
  "wf_blob (b ! 0) \<Longrightarrow> clean (dump_plain b)"
  "wf_blob (b ! 0) \<Longrightarrow> clean (dump_pathrequest b)"
  "wf_blob (b ! 0) \<Longrightarrow> wf_blob (b ! 1) \<Longrightarrow> wf_blob (b ! 2) \<Longrightarrow> clean (dump_encrypted b)"
  "wf_blob (b ! 0) \<Longrightarrow> wf_blob (b ! 1) \<Longrightarrow> clean (dump_group b)"
  "wf_blob (b ! 0) \<Longrightarrow> clean (dump_linkrequest b)"
  "wf_blob (b ! 0) \<Longrightarrow> wf_blob (b ! 1) \<Longrightarrow> wf_blob (b ! 2) \<Longrightarrow> clean (dump_linkproof b)"
  "wf_blob (b ! 0) \<Longrightarrow> wf_blob (b ! 1) \<Longrightarrow> wf_blob (b ! 2) \<Longrightarrow> clean (dump_linkdata b)"
  "wf_blob (b ! 0) \<Longrightarrow> wf_blob (b ! 1) \<Longrightarrow> wf_blob (b ! 2) \<Longrightarrow> clean (dump_proof b)"
  "wf_blob (b ! 0) \<Longrightarrow> wf_blob (b ! 1) \<Longrightarrow> clean (dump_resourceproof b)"
proof -
  assume w: "wf_blob (b ! 0)"
  show "clean (dump_identity b)" "clean (dump_keyset b)"
    using w dump_identity_fields [OF w] dump_keyset_fields [OF w]
    by (cases "blen (b ! 0) = 64"; simp add: dump_identity_def dump_keyset_def)+
  show "clean (dump_announce b)" "clean (dump_plain b)" "clean (dump_pathrequest b)" "clean (dump_linkrequest b)"
    using w by (simp_all add: dump_announce_fields dump_plain_fields dump_pathrequest_fields dump_linkrequest_fields)
next
  assume w: "wf_blob (b ! 0)" "wf_blob (b ! 1)"
  show "clean (dump_destination b)"
    using dump_destination_fields [OF w]
    by (cases "absent (b ! 1) \<or> blen (b ! 1) = 16") (simp, simp add: dump_destination_def)
  show "clean (dump_sign b)"
    using dump_sign_fields [OF w] by (cases "blen (b ! 0) = 64") (simp, simp add: dump_sign_def)
  show "clean (dump_group b)"
  proof (cases "blen (b ! 0) = 64 \<or> blen (b ! 0) = 32")
    case True
    then have "token_key (contents (b ! 0))" using contents_length [OF w(1)] by (auto simp: token_key_def)
    then show ?thesis using dump_group_fields [OF w] by simp
  qed (simp add: dump_group_def)
  show "clean (dump_resourceproof b)"
    using dump_resourceproof_fields [OF w] by (cases "blen (b ! 0) = 32") (simp, simp add: dump_resourceproof_def)
next
  assume w: "wf_blob (b ! 0)" "wf_blob (b ! 1)" "wf_blob (b ! 2)"
  show "clean (dump_signature b)"
    using dump_signature_fields [OF w]
    by (cases "blen (b ! 0) = 64 \<and> blen (b ! 2) = 64") (simp, auto simp: dump_signature_def)
  show "clean (dump_encrypted b)"
    using dump_encrypted_fields [OF w]
    by (cases "blen (b ! 0) = 64 \<and> (absent (b ! 1) \<or> blen (b ! 1) = 32)") (simp, auto simp: dump_encrypted_def)
  show "clean (dump_linkproof b)"
    using dump_linkproof_result [OF w] clean_results
    by (cases "blen (b ! 1) = 64") (simp, simp add: dump_linkproof_def)
  show "clean (dump_linkdata b)"
    using dump_linkdata_result [OF w] clean_results
    by (cases "blen (b ! 1) = 32") (simp, simp add: dump_linkdata_def)
  show "clean (dump_proof b)"
    using dump_proof_result [OF w] clean_results
    by (cases "blen (b ! 1) = 64 \<or> blen (b ! 1) = 32") (simp, simp add: dump_proof_def)
qed

lemma decode_kind_clean:
  assumes "k \<in> set kinds"
  shows "clean (decode_kind k path file)"
  unfolding decode_kind_def
proof (rule clean_andthen [OF clean_readraw], clarify)
  fix b n
  assume r: "snd (readraw path file (replicate MAXBLOBS zero_blob) MAXBLOBS) = Inr (b, n)"
  have "length b = 4 \<and> (\<forall>x \<in> set b. wf_blob x)"
    using readraw_wf [OF r] by (simp add: MAXBLOBS_def)
  then have w: "wf_blob (b ! 0)" "wf_blob (b ! 1)" "wf_blob (b ! 2)" "wf_blob (b ! 3)"
    by simp_all
  have "clean (k_decode k b)"
    using assms clean_dumps [of b] clean_dump_ifac [of b] w by (auto simp: kinds_def)
  then show "clean (if n \<noteq> k_blobs k then fatal (k_name k @ '': expected '' @ dec (k_blobs k) @ '' blob'' @
        (if k_blobs k = 1 then '''' else ''s'') @ '', got '' @ dec n) else k_decode k b)"
    by simp
qed

lemma encode_kind_clean: "k \<in> set kinds \<Longrightarrow> clean (encode_kind k path file)"
  unfolding encode_kind_def by (auto simp: kinds_def intro!: clean_andthen)

lemma find_kind: "find P ks = Some k \<Longrightarrow> k \<in> set ks"
  by (induction ks) (auto split: if_splits)

lemma run_kind_clean: "clean (run_kind encode kind path fs)"
  using decode_kind_clean encode_kind_clean
  by (auto simp: run_kind_def intro!: clean_andthen split: option.splits dest!: find_kind)

lemma run_kind_value: "snd (run_kind encode kind path fs) = Inr n \<Longrightarrow> n = 0"
  by (auto simp: run_kind_def snd_andthen_Inr split: option.splits)

definition good_usage :: "string list \<Rightarrow> bool" where
  "good_usage argv \<longleftrightarrow> length argv = 3 \<or> length argv = 2 \<and> argv ! 1 = ''-l'' \<or> length argv = 4 \<and> argv ! 1 = ''-e''"

lemma main_status:
  "exit_status (main argv fs) = (if \<not> good_usage argv then Some 2
     else if returns (main argv fs) then Some 0 else Some 1)"
proof -
  have r: "exit_status (run_kind e k p fs) = (if returns (run_kind e k p fs) then Some 0 else Some 1)" for e k p
    using clean_exit [OF run_kind_clean [of e k p fs]] run_kind_value [of e k p fs]
    by (auto simp: returns_def split: sum.splits)
  have l: "exit_status (andthen (print ls) (\<lambda>_. ret 0)) = Some 0" "returns (andthen (print ls) (\<lambda>_. ret (0::nat)))" for ls
    by (simp_all add: exit_status_def returns_def snd_andthen_Inr andthen_print)
  have two: "exit_status (ret 2) = Some 2" by (simp add: exit_status_def)
  show ?thesis
    unfolding main_def good_usage_def using r l two by auto
qed

end
