(* ===== verification/Records.thy ===== *)
theory Records
  imports Reread
begin

text \<open>Every record a decoder prints is a record the program reads back: each field has a name and a
  value that are words, and no line is longer than the buffers of \<open>readexpect\<close>. One lemma per kind,
  over the lines the theories of the kinds give it; \<open>print_resource\<close> needs that no reader of msgpack
  leaves more bytes than it found.\<close>

section \<open>The records of the kinds\<close>

definition wf_record :: "line list \<Rightarrow> bool" where
  "wf_record ls \<longleftrightarrow> list_all wf_line ls"

lemma wf_record_simps [simp]:
  "wf_record []" "wf_record (l # ls) \<longleftrightarrow> wf_line l \<and> wf_record ls"
  "wf_record (ls @ ls') \<longleftrightarrow> wf_record ls \<and> wf_record ls'"
  by (simp_all add: wf_record_def)

lemma name_char_list: "s \<noteq> [] \<Longrightarrow> length s < 32 \<Longrightarrow> list_all (\<lambda>c. c \<notin> {newline, CR, NUL, blank}) s \<Longrightarrow> name_text s"
  by (auto simp: name_text_def plain_text_def list_all_iff KVNAME_def)

text \<open>Every name the program prints before the first blank.\<close>

definition field_names :: "string list" where
  "field_names =
    [''flags'', ''header_type'', ''context_flag'', ''transport_type'', ''destination_type'', ''packet_type'',
     ''hops'', ''transport_id'', ''destination_hash'', ''context'', ''payload_length'', ''plaintext'', ''plaintext_length'',
     ''wanted_hash'', ''requester_id'', ''tag'', ''unique_tag'', ''accepted'', ''public_key'', ''name_hash'',
     ''random_hash'', ''ratchet'', ''signature'', ''app_data'', ''identity_hash'', ''expected_hash'',
     ''destination_match'', ''signed_data'', ''signature_valid'', ''x25519_public'', ''ed25519_public'',
     ''private_key'', ''x25519_private'', ''ed25519_private'', ''name'', ''app_name'', ''aspect'', ''iv'', ''ciphertext'', ''hmac'', ''hmac_valid'',
     ''group_key'', ''signing_key'', ''encryption_key'', ''recipient_private'', ''ratchet_private'', ''ephemeral_public'',
     ''ratchet_public'', ''shared_key'', ''signalling'', ''mode'', ''mtu'', ''link_id'', ''link_id_match'',
     ''link_request'', ''signer_public'', ''signer_ed25519'', ''proved_packet'', ''form'', ''packet_hash'', ''proof_hash'', ''hash_match'',
     ''proof_destination'', ''advertised_hash'', ''resource_hash'', ''resource_proof'',
     ''netname'', ''netkey'', ''ifac_origin'', ''ifac_key'', ''ifac_size'', ''frame_length'', ''ifac'', ''packet'',
     ''expected_ifac'', ''ifac_valid'', ''encrypted'', ''responder_private'', ''invalid'', ''minimum_length'',
     ''transfer_size'', ''data_size'', ''resource_parts'', ''segment_index'', ''total_segments'', ''resource_flags'',
     ''resource_random'', ''original_hash'', ''request_id'', ''hashmap'', ''hashmap_exhausted'', ''last_map_hash'',
     ''requested_hashes'', ''msgtype'', ''sequence'', ''declared_length'', ''message'', ''request_time'',
     ''request_path_hash'', ''request_data'', ''response_data'', ''required_length'', ''identity_public'',
     ''identity_signed'', ''identity_valid'']"

lemma field_names_text: "list_all name_text field_names"
proof -
  have "list_all (\<lambda>s. s \<noteq> [] \<and> length s < 32 \<and> list_all (\<lambda>c. c \<notin> {newline, CR, NUL, blank}) s) field_names"
    by code_simp
  then show ?thesis using name_char_list unfolding list_all_iff by blast
qed

lemmas names_text [simp] = field_names_text [unfolded field_names_def list.pred_inject]

lemma word_len: "n \<le> MAXBLOB \<Longrightarrow> word_text (dec n)"
  by (rule word_dec) (simp add: MAXBLOB_def)

lemma word_less: "n < 2 ^ 64 \<Longrightarrow> word_text (dec n)"
  by (rule word_dec) simp

lemma word_fixed [simp]: "word_text ''set''" "word_text ''unset''" "word_text ''no''" "word_text ''yes''" "word_text ''aes256_cbc''"
  "word_text ''explicit''" "word_text ''implicit''" "word_text ''short-plaintext''" "word_text ''identify-length''"
  by ((rule word_char_list; code_simp)+)

lemma word_hex_nat:
  assumes "n < 2 ^ 64"
  shows "word_text (hex02 n)"
proof -
  have l: "length (hex_nat n) \<le> Suc k" if "n < 16 ^ Suc k" for n k
    using that
  proof (induction k arbitrary: n)
    case 0
    then show ?case by (subst hex_nat.simps) simp
  next
    case (Suc k)
    then have "n div 16 < 16 ^ Suc k" by (simp add: less_mult_imp_div_less)
    then show ?case using Suc.IH [of "n div 16"] by (subst hex_nat.simps) simp
  qed
  have p: "plain_text (hex_nat n) \<and> blank \<notin> set (hex_nat n)" for n
  proof (induction n rule: hex_nat.induct)
    case (1 n)
    then show ?case by (subst hex_nat.simps, subst (2) hex_nat.simps) (auto simp: plain_text_def)
  qed
  have z: "newline \<noteq> CHR ''0''" "CR \<noteq> CHR ''0''" "NUL \<noteq> CHR ''0''" "blank \<noteq> CHR ''0''"
    by (simp_all add: newline_def CR_def NUL_def blank_def)
  show ?thesis
    using l [of n 15] p [of n] z assms by (auto simp: hex02_def word_text_def plain_text_def KVVALUE_def MAXBLOB_def)
qed

lemma small_lengths: "length (bs :: bytes) \<le> 64 \<Longrightarrow> length bs \<le> MAXBLOB"
  by (simp add: MAXBLOB_def)

lemma header_record:
  assumes "wf_packet p" and "length (p_payload p) \<le> MAXBLOB"
  shows "wf_record (header_fields p)"
proof -
  have "length (p_transport p) \<le> MAXBLOB" "length (p_destination p) \<le> MAXBLOB" "fl_header_type (p_flags p) + 1 < 2 ^ 64"
    using assms(1) fl_header_type_cases [of "p_flags p"] by (auto simp: wf_packet_def MAXBLOB_def)
  then show ?thesis using assms by (simp add: header_fields_def word_len word_less wf_packet_def)
qed

lemma decoded_record:
  assumes "decode_packet raw = Inr p" and "length raw \<le> MAXBLOB"
  shows "wf_record (header_fields p)" "length (p_payload p) \<le> MAXBLOB"
  using decode_packet_payload [OF assms(1)] assms header_record [of p] by (auto simp: decode_packet_iff)

lemma plain_record:
  assumes "decode_packet raw = Inr p" and "length raw \<le> MAXBLOB"
  shows "wf_record (plain_fields raw)"
  using decoded_record [OF assms] assms(1) by (simp add: plain_fields_def word_len)

lemma word_min [simp]: "length bs \<le> MAXBLOB \<Longrightarrow> word_text (hex_bytes (take n bs))"
  "length bs \<le> MAXBLOB \<Longrightarrow> word_text (hex_bytes (drop n bs))"
  "length bs \<le> MAXBLOB \<Longrightarrow> word_text (hex_value (take n bs))"
  "length bs \<le> MAXBLOB \<Longrightarrow> word_text (hex_value (drop n bs))"
  by (simp_all add: min.coboundedI1)

lemma pathrequest_record:
  assumes "decode_packet raw = Inr p" and "decode_path_request (p_payload p) = Inr r" and "length raw \<le> MAXBLOB"
  shows "wf_record (pathrequest_fields raw)"
proof -
  note h = decoded_record [OF assms(1,3)]
  have "length (pr_wanted r) \<le> 16" "length (pr_requester r) \<le> MAXBLOB" "length (pr_tag r) \<le> MAXBLOB"
    using assms(2) h(2) by (auto simp: decode_path_request_def MAXBLOB_def split: if_splits)
  moreover have "min (length (pr_tag r)) 16 \<le> 16" by simp
  then have "length (unique_tag r) \<le> 32" using calculation(1) unfolding unique_tag_def by (simp, linarith)
  ultimately show ?thesis using h assms(1,2) by (simp add: pathrequest_fields_def path_request_fields_def MAXBLOB_def)
qed

lemma announce_record:
  assumes "decode_packet raw = Inr p" and "decode_announcement (fl_context_flag (p_flags p)) (p_payload p) = Inr a"
    and "length raw \<le> MAXBLOB"
  shows "wf_record (announce_fields raw)"
proof -
  note h = decoded_record [OF assms(1,3)]
  have wf: "wf_announcement (fl_context_flag (p_flags p)) a" "p_payload p = announcement_bytes a"
    using assms(2) by (simp_all add: ann.dec_iff)
  have "length (p_destination p) = 16" using assms(1) by (simp add: decode_packet_iff wf_packet_def)
  then have "length (signed_part (p_destination p) a) \<le> MAXBLOB"
    using signed_part_length [OF wf(1)] h(2) wf(2) by fastforce
  moreover have "length (an_app_data a) \<le> MAXBLOB"
    using h(2) by (simp add: wf(2) announcement_bytes_def)
  moreover have "length (an_public_key a) = 64" "length (an_name_hash a) = 10" "length (an_random_hash a) = 10"
    "length (an_ratchet a) \<le> 32" "length (an_signature a) = 64"
    using wf(1) by (auto simp: wf_announcement_def)
  ultimately show ?thesis
    using h assms(1,2) by (simp add: announce_fields_def announcement_fields_def announced_destination_def MAXBLOB_def)
qed

lemma identity_record: "length key = 64 \<Longrightarrow> wf_record (identity_fields key)"
  by (simp add: identity_fields_def MAXBLOB_def)

lemma keyset_record: "length priv = 64 \<Longrightarrow> wf_record (keyset_fields priv)"
  by (simp add: keyset_fields_def identity_record MAXBLOB_def)

lemma split_on_lengths: "y \<in> set (split_on c xs) \<Longrightarrow> length y \<le> length xs"
  by (induction c xs arbitrary: y rule: split_on.induct) (force split: list.splits if_splits)+

lemma component_record:
  "name_text first \<Longrightarrow> \<forall>c \<in> set cs. length c \<le> MAXBLOB \<Longrightarrow> wf_record (component_fields first cs)"
  by (cases cs) (auto simp: component_fields_def wf_record_def list_all_iff)

lemma component_length: "length (component_fields first cs) = length cs"
  by (cases cs) (simp_all add: component_fields_def)

lemma destination_record:
  assumes "length name \<le> MAXBLOB" and "length identity \<le> 16"
  shows "wf_record (destination_fields name identity)"
proof -
  have "\<forall>y \<in> set (split_on 0x2e name). length y \<le> MAXBLOB"
    using assms(1) by (auto dest: split_on_lengths)
  then have "wf_record (name_fields name)" unfolding name_fields_def by (intro component_record) simp_all
  then show ?thesis using assms by (simp add: destination_fields_def dest_hash_of_def MAXBLOB_def)
qed

lemma token_record: "length bs \<le> MAXBLOB \<Longrightarrow> wf_record (token_fields bs)"
  by (simp add: token_fields_def min.coboundedI1)

lemma plaintext_record: "length bs \<le> MAXBLOB \<Longrightarrow> wf_record (plaintext_fields key bs)"
  using unseal_length [of _ bs] by (fastforce simp: plaintext_fields_def word_len split: option.splits)

lemma agreement_record: "wf_record (agreement_fields scalar peer salt)"
  using agreement_token_key [of scalar peer salt]
  by (auto simp: agreement_fields_def token_key_def mac_half_def cipher_half_def MAXBLOB_def split: option.splits)

lemma group_record:
  assumes "decode_packet raw = Inr p" and "length raw \<le> MAXBLOB" and "length key \<le> 64" and "48 \<le> length (p_payload p)"
  shows "wf_record (group_fields key raw)"
  using decoded_record [OF assms(1,2)] assms
  by (simp add: group_fields_def group_packet_fields_def token_record plaintext_record mac_half_def cipher_half_def MAXBLOB_def)

lemma crypto_base_length: "length (crypto_scalarmult_base s) = 32"
  by simp

lemma encrypted_record:
  assumes "decode_packet raw = Inr p" and "length raw \<le> MAXBLOB" and "length priv = 64" and "length ratchet \<le> 32"
    and "80 \<le> length (p_payload p)"
  shows "wf_record (encrypted_fields priv ratchet raw)"
proof -
  note h = decoded_record [OF assms(1,2)]
  then have t: "wf_record (token_fields (drop 32 (p_payload p)))" "\<And>key. wf_record (plaintext_fields key (drop 32 (p_payload p)))"
    by (simp_all add: token_record plaintext_record)
  have m: "length priv \<le> MAXBLOB" "length ratchet \<le> MAXBLOB" "length (crypto_scalarmult_base ratchet) \<le> MAXBLOB"
    "length (truncated_hash (keyset_public priv) 16) \<le> MAXBLOB"
    using assms by (simp_all add: MAXBLOB_def)
  show ?thesis
    using h t m assms(1,5) agreement_record
    by (simp add: encrypted_fields_def encrypted_packet_fields_def Let_def min.coboundedI1)
qed

lemma signalling_record: "length s \<le> MAXBLOB \<Longrightarrow> wf_record (signalling_fields s)"
proof -
  assume l: "length s \<le> MAXBLOB"
  have v: "signalling_value s < 2 ^ 24" by (rule signalling_value_bound)
  have "signalling_value s div 2 ^ 21 \<le> signalling_value s" "signalling_value s mod 2 ^ 21 \<le> signalling_value s"
    by (rule div_le_dividend, rule mod_less_eq_dividend)
  moreover have "n < 2 ^ 64" if "n \<le> signalling_value s" for n
    using that v by (rule le_less_trans [OF _ less_trans]) simp
  ultimately have "signalling_value s div 2 ^ 21 < 2 ^ 64" "signalling_value s mod 2 ^ 21 < 2 ^ 64"
    by blast+
  then show ?thesis using l by (simp add: signalling_fields_def Let_def word_hex_nat word_less)
qed

lemma linkrequest_record:
  assumes "decode_packet raw = Inr p" and "length raw \<le> MAXBLOB"
    and "length (p_payload p) = 64 \<or> length (p_payload p) = 67"
  shows "wf_record (linkrequest_fields raw)"
proof -
  note h = decoded_record [OF assms(1,2)]
  have "wf_record (signalling_fields (drop 64 (p_payload p)))" using h(2) by (intro signalling_record) simp
  moreover have "length (link_id p) \<le> MAXBLOB" by (simp add: MAXBLOB_def)
  moreover have "length (drop 32 (p_payload p)) \<le> MAXBLOB" using h(2) by simp
  ultimately show ?thesis using h assms(1,3) by (auto simp: linkrequest_fields_def)
qed

lemma linkproof_record:
  assumes "decode_packet req = Inr rp" and "decode_packet raw = Inr p" and "length req \<le> MAXBLOB" and "length raw \<le> MAXBLOB"
    and "length key = 64" and "length (p_payload p) = 96 \<or> length (p_payload p) = 99"
  shows "wf_record (fst (linkproof_result req key raw))"
proof -
  note h = decoded_record [OF assms(2,4)]
  have "wf_record (signalling_fields (drop 96 (p_payload p)))" using h(2) by (intro signalling_record) simp
  moreover have "length (linkproof_signed rp (drop 32 key) (p_payload p)) \<le> MAXBLOB"
    using assms(5,6) by (auto simp: linkproof_signed_def MAXBLOB_def)
  moreover have "length (link_id rp) \<le> MAXBLOB" "length (drop 64 (p_payload p)) \<le> MAXBLOB" "length key \<le> MAXBLOB"
    using h(2) assms(5) by (simp_all add: MAXBLOB_def)
  ultimately show ?thesis
    using h assms by (auto simp: linkproof_result_def linkproof_packet_fields_def Let_def)
qed

lemma proof_record:
  assumes "decode_packet proved = Inr pp" and "decode_packet raw = Inr p" and "length proved \<le> MAXBLOB" and "length raw \<le> MAXBLOB"
    and "length key = (if on_link p then 32 else 64)" and "length (p_payload p) = 64 \<or> length (p_payload p) = 96"
  shows "wf_record (fst (proof_result proved key raw))"
proof -
  note h = decoded_record [OF assms(2,4)]
  have m: "length key \<le> MAXBLOB" "length (packet_hash pp) \<le> MAXBLOB" "length (p_destination pp) \<le> MAXBLOB"
    using assms(5) decode_packet_wf [OF assms(1)] by (auto simp: MAXBLOB_def wf_packet_def)
  show ?thesis
    using h m assms by (auto simp: proof_result_def proof_packet_result_def proof_packet_fields_def Let_def)
qed

lemma resourceproof_record:
  assumes "decode_packet raw = Inr p" and "length raw \<le> MAXBLOB" and "length hash = 32" and "length (p_payload p) = 64"
  shows "wf_record (resourceproof_fields hash raw)"
  using decoded_record [OF assms(1,2)] assms
  by (simp add: resourceproof_fields_def resourceproof_packet_fields_def MAXBLOB_def)

lemma ifac_record:
  assumes "wf_blob nn" and "wf_blob nk" and "2 + sz < length frame" and "sz \<le> 64" and "length frame \<le> MAXBLOB"
  shows "wf_record (ifac_lines nn nk sz frame)"
proof -
  have b: "length (contents nn) \<le> MAXBLOB" "length (contents nk) \<le> MAXBLOB"
    using assms(1,2) by (simp_all add: contents_length wf_blob_len)
  have o: "length (origin_of nn nk) \<le> MAXBLOB" by (simp add: origin_of_def MAXBLOB_def)
  have p: "length (ifac_unwrap key sz frame) \<le> MAXBLOB" "length (frame_code sz frame) \<le> MAXBLOB"
    "length (ifac_of key sz packet) \<le> MAXBLOB" for key packet
    using assms(3-5) by (simp_all add: unwrapped_length frame_code_length ifac_of_def MAXBLOB_def)
  have k: "length (network_key (origin_of nn nk)) \<le> MAXBLOB" by (simp add: MAXBLOB_def)
  have s: "word_text (dec sz)" "word_text (dec (length frame))"
    using assms(4,5) by (simp_all add: word_len MAXBLOB_def)
  show ?thesis
    using b o p k s by (simp add: ifac_lines_def Let_def blob_value_def)
qed

text \<open>No reader leaves more to read than it found, whether it went bad or not.\<close>

abbreviation rest_length :: "mp \<Rightarrow> nat" where
  "rest_length m \<equiv> length (mp_rest m)"

lemma rest_basic:
  "rest_length (snd (mp_take m n)) \<le> rest_length m" "rest_length (mp_drop m n) \<le> rest_length m"
  "rest_length (snd (mp_len m n)) \<le> rest_length m" "rest_length (snd (mp_head m)) \<le> rest_length m"
  by (simp_all add: mp_take_def mp_drop_def mp_len_def mp_head_def case_prod_beta)

lemma rest_head_of_loop:
  assumes "\<And>m' n. mp_fuel m' \<le> mp_fuel m \<Longrightarrow> rest_length (mp_skip_loop n m') \<le> rest_length m'"
  shows "rest_length (mp_skip_head m h) \<le> rest_length m"
proof (cases "shape_of h")
  case (Body n)
  then show ?thesis by (simp add: mp_skip_head_shape skip_shape_def rest_basic)
next
  case (Sized k e)
  then show ?thesis
    using rest_basic(2) [of "snd (mp_len m k)"] rest_basic(3) [of m k] order_trans
    by (simp add: mp_skip_head_shape skip_shape_def case_prod_beta) blast
next
  case (Items n)
  then show ?thesis using assms [of m] by (simp add: mp_skip_head_shape skip_shape_def)
next
  case (Counted k f)
  have "mp_fuel (snd (mp_len m k)) \<le> mp_fuel m" by (rule mp_len_fuel) (rule surjective_pairing)
  then show ?thesis
    using Counted assms [of "snd (mp_len m k)"] rest_basic(3) [of m k] order_trans
    by (simp add: mp_skip_head_shape skip_shape_def case_prod_beta) blast
next
  case Unknown
  then show ?thesis by (simp add: mp_skip_head_shape skip_shape_def)
qed

lemma rest_skip:
  "rest_length (mp_skip_head m h) \<le> rest_length m" "rest_length (mp_skip_loop n m) \<le> rest_length m"
proof -
  have loop: "rest_length (mp_skip_loop n m) \<le> rest_length m" for n m
  proof (induction "mp_fuel m" arbitrary: n m rule: less_induct)
    case less
    show ?case
    proof (cases n)
      case 0
      then show ?thesis by (simp add: mp_skip_loop.simps)
    next
      case (Suc k)
      show ?thesis
      proof (cases "mp_bad m")
        case True
        then show ?thesis using Suc by (simp add: mp_skip_loop.simps)
      next
        case False
        obtain h m1 where h: "mp_head m = (h, m1)" by (cases "mp_head m")
        define m2 where "m2 = mp_skip_head m1 h"
        have f1: "mp_fuel m1 < mp_fuel m" by (rule mp_head_fuel [OF False h])
        have r2: "rest_length m2 \<le> rest_length m1"
          unfolding m2_def using less f1 by (intro rest_head_of_loop) simp
        have "mp_fuel m2 \<le> mp_fuel m1"
          using r2 mp_skip_head_bad [of m1 h] by (auto simp: mp_fuel_def m2_def)
        then have "rest_length (mp_skip_loop k m2) \<le> rest_length m2" using less f1 by simp
        moreover have "mp_skip_loop n m = mp_skip_loop k m2"
          using Suc False h by (simp add: mp_skip_loop.simps m2_def)
        ultimately show ?thesis using r2 rest_basic(4) [of m] h by simp
      qed
    qed
  qed
  then show "rest_length (mp_skip_head m h) \<le> rest_length m" "rest_length (mp_skip_loop n m) \<le> rest_length m"
    by (auto intro: rest_head_of_loop)
qed

lemma rest_readers:
  "rest_length (mp_skip m) \<le> rest_length m" "rest_length (snd (mp_key m)) \<le> rest_length m"
  "rest_length (snd (mp_map m)) \<le> rest_length m" "rest_length (snd (mp_array m)) \<le> rest_length m"
  "rest_length (snd (mp_uint m)) \<le> rest_length m" "rest_length (snd (mp_bin m)) \<le> rest_length m"
  "rest_length (snd (mp_double m)) \<le> rest_length m"
proof -
  define m' where "m' = snd (mp_head m)"
  have h: "rest_length m' \<le> rest_length m" by (simp add: m'_def rest_basic)
  have s: "rest_length (mp_skip_head m' x) \<le> rest_length m" "rest_length (snd (mp_take m' n)) \<le> rest_length m"
    "rest_length (snd (mp_len m' n)) \<le> rest_length m" "rest_length (snd (mp_take (snd (mp_len m' n)) k)) \<le> rest_length m"
    "rest_length (snd (mp_take (m'\<lparr>mp_bad := True\<rparr>) n)) \<le> rest_length m" for x n k
    using h rest_skip(1) [of m' x] rest_basic(1) [of m' n] rest_basic(3) [of m' n] rest_basic(1) [of "snd (mp_len m' n)" k]
      rest_basic(1) [of "m'\<lparr>mp_bad := True\<rparr>" n] by simp_all
  show "rest_length (mp_skip m) \<le> rest_length m" "rest_length (snd (mp_key m)) \<le> rest_length m"
    "rest_length (snd (mp_map m)) \<le> rest_length m" "rest_length (snd (mp_array m)) \<le> rest_length m"
    "rest_length (snd (mp_uint m)) \<le> rest_length m" "rest_length (snd (mp_bin m)) \<le> rest_length m"
    "rest_length (snd (mp_double m)) \<le> rest_length m"
    using h s by (simp_all add: mp_skip_def mp_key_def mp_map_def mp_array_def mp_uint_def mp_bin_def mp_double_def
        case_prod_beta flip: m'_def)
qed

text \<open>What the readers return is printable.\<close>

lemma mp_len_bound: "k \<le> 4 \<Longrightarrow> fst (mp_len m k) < 2 ^ 64"
proof -
  assume k: "k \<le> 4"
  have "be_value bs < 2 ^ 64" if "length bs = k" for bs
  proof -
    have "be_value bs < 256 ^ k" using be_value_bound [of bs] that by simp
    also have "\<dots> \<le> 256 ^ 4" using k by (intro power_increasing) simp_all
    also have "\<dots> < (2::nat) ^ 64" by simp
    finally show ?thesis .
  qed
  then show ?thesis
    using k mp_be_Some by (auto simp: mp_len_def mp_take_def mp_be_def [of None])
qed

lemma mp_uint_bound: "fst (mp_uint m) < 2 ^ 64"
  using mp_len_bound [of 1] mp_len_bound [of 2] mp_len_bound [of 4] by (auto simp: mp_uint_def case_prod_beta)

lemma uint_field_record:
  "name_text name \<Longrightarrow> (\<And>v. v < 2 ^ 64 \<Longrightarrow> word_text (fmt v)) \<Longrightarrow> wf_line (fst (uint_field m name fmt))"
  using mp_uint_bound [of m] by (simp add: uint_field_def case_prod_beta)

lemma mp_take_bytes: "fst (mp_take m n) = Some bs \<Longrightarrow> length bs \<le> rest_length m"
  by (auto simp: mp_take_def split: if_splits)

lemma mp_bin_bytes: "fst (mp_bin m) = Some bs \<Longrightarrow> length bs \<le> rest_length m"
proof -
  assume a: "fst (mp_bin m) = Some bs"
  obtain m' n where "fst (mp_take m' n) = Some bs" "rest_length m' \<le> rest_length m"
  proof -
    have "rest_length (snd (mp_len (snd (mp_head m)) k)) \<le> rest_length m" for k
      using rest_basic(3) [of "snd (mp_head m)" k] rest_basic(4) [of m] by linarith
    then show ?thesis using a that by (auto simp: mp_bin_def case_prod_beta split: if_splits)
  qed
  then show ?thesis using mp_take_bytes [of m' n bs] by linarith
qed

lemma bin_field_record:
  "name_text name \<Longrightarrow> rest_length m \<le> MAXBLOB \<Longrightarrow> wf_line (fst (bin_field m name))"
  using mp_bin_bytes [of m] by (fastforce simp: bin_field_def case_prod_beta split: option.splits)

lemma double_field_record: "name_text name \<Longrightarrow> wf_line (fst (double_field m name))"
  using mp_double_result [of m "fst (mp_double m)" "snd (mp_double m)"]
  by (fastforce simp: double_field_def case_prod_beta MAXBLOB_def split: option.splits if_splits)

lemma field_rest:
  "rest_length (snd (uint_field m name fmt)) \<le> rest_length m" "rest_length (snd (bin_field m name)) \<le> rest_length m"
  "rest_length (snd (double_field m name)) \<le> rest_length m" "rest_length (check_count n (mp_array m)) \<le> rest_length m"
  using rest_readers by (simp_all add: uint_field_def bin_field_def double_field_def check_count_def case_prod_beta)

lemma adv_loop_rest:
  assumes "adv_loop n m vals twice = (m2, vals', twice')"
    and "rest_length m \<le> k" and "\<forall>v \<in> set vals. rest_length v \<le> k"
  shows "\<forall>v \<in> set vals'. rest_length v \<le> k"
  using assms
proof (induction n arbitrary: m vals twice)
  case 0
  then show ?case by simp
next
  case (Suc n)
  show ?case
  proof (cases "mp_bad m")
    case True
    then show ?thesis using Suc.prems by simp
  next
    case False
    obtain key m1 where key: "mp_key m = (key, m1)" by (cases "mp_key m")
    have r1: "rest_length m1 \<le> k" using rest_readers(2) [of m] key Suc.prems(2) by simp
    then have r2: "rest_length (mp_skip m1) \<le> k" using rest_readers(1) [of m1] by simp
    show ?thesis
    proof (cases "if key \<noteq> 0 then index_of order key else None")
      case None
      then have "adv_loop n (mp_skip m1) vals twice = (m2, vals', twice')"
        using Suc.prems(1) False key by simp
      then show ?thesis using Suc.IH r2 Suc.prems(3) by blast
    next
      case (Some i)
      have "\<forall>v \<in> set (vals[i := m1\<lparr>mp_bad := False\<rparr>]). rest_length v \<le> k"
        using set_update_subset_insert [of vals i "m1\<lparr>mp_bad := False\<rparr>"] Suc.prems(3) r1 by auto
      moreover have "adv_loop n (mp_skip m1) (vals[i := m1\<lparr>mp_bad := False\<rparr>])
          (if \<not> mp_bad (vals ! i) then True else twice) = (m2, vals', twice')"
        using Suc.prems(1) False key Some by simp
      ultimately show ?thesis using Suc.IH r2 by blast
    qed
  qed
qed

lemma adv_field_line:
  assumes "c \<in> set order"
  shows "\<exists>l. andthen (adv_field c v) (\<lambda>_. ret ()) = print [l] \<and> (rest_length v \<le> MAXBLOB \<longrightarrow> wf_line l)"
proof -
  have u: "\<exists>l. andthen (mp_field_uint v name fmt) (\<lambda>_. ret ()) = print [l] \<and> (rest_length v \<le> MAXBLOB \<longrightarrow> wf_line l)"
    if "name_text name" "\<And>n. n < 2 ^ 64 \<Longrightarrow> word_text (fmt n)" for name fmt
    using uint_field_record [OF that] by (auto simp: mp_field_lines andthen_assoc)
  have b: "\<exists>l. andthen (mp_field_bin v name) (\<lambda>_. ret ()) = print [l] \<and> (rest_length v \<le> MAXBLOB \<longrightarrow> wf_line l)"
    if "name_text name" for name
    using bin_field_record [OF that, of v] by (auto simp: mp_field_lines andthen_assoc)
  show ?thesis
    using order_cases [OF assms] u [OF _ word_less] u [OF _ word_hex_nat] b by (auto simp: adv_field_def)
qed

lemma seq_lines:
  "\<forall>m \<in> set ms. \<exists>l. m = print [l] \<and> P l \<Longrightarrow> \<exists>ls. seq ms = print ls \<and> length ls = length ms \<and> list_all P ls"
proof (induction ms)
  case Nil
  show ?case by (intro exI [of _ "[]"]) (simp add: print_Nil)
next
  case (Cons m ms)
  then obtain l ls where "m = print [l]" "P l" "seq ms = print ls" "length ls = length ms" "list_all P ls"
    by auto
  then show ?case by (intro exI [of _ "l # ls"]) simp
qed

lemma adv_record:
  assumes "rest_length m \<le> MAXBLOB"
  shows "wf_record (fst (print_adv m)) \<and> length (fst (print_adv m)) = 11"
proof -
  obtain n m1 where map: "mp_map m = (n, m1)" by (cases "mp_map m")
  obtain m2 vals twice where loop: "adv_loop n m1 (replicate (length order) no_stream) False = (m2, vals, twice)"
    by (cases "adv_loop n m1 (replicate (length order) no_stream) False")
  define vals' where "vals' = (if twice \<or> mp_bad m2 then map (\<lambda>v. v\<lparr>mp_bad := True\<rparr>) vals else vals)"
  have lv: "length vals' = 11" using adv_loop_length [OF loop] by (simp add: vals'_def)
  have "rest_length m1 \<le> MAXBLOB" using rest_readers(3) [of m] map assms by simp
  then have "\<forall>v \<in> set vals. rest_length v \<le> MAXBLOB"
    by (intro adv_loop_rest [OF loop]) (simp_all add: no_stream_def)
  then have rest: "\<forall>v \<in> set vals'. rest_length v \<le> MAXBLOB" by (auto simp: vals'_def)
  have "\<forall>p \<in> set (map (\<lambda>(c, v). andthen (adv_field c v) (\<lambda>_. ret ())) (zip order vals')). \<exists>l. p = print [l] \<and> wf_line l"
    using adv_field_line rest by (fastforce dest: set_zip_leftD set_zip_rightD)
  from seq_lines [OF this] obtain ls where
    "seq (map (\<lambda>(c, v). andthen (adv_field c v) (\<lambda>_. ret ())) (zip order vals')) = print ls"
    "length ls = 11" "list_all wf_line ls"
    using lv by auto
  moreover have "print_adv m = seq (map (\<lambda>(c, v). andthen (adv_field c v) (\<lambda>_. ret ())) (zip order vals'))"
    unfolding print_adv_def map prod.case loop Let_def vals'_def ..
  ultimately show ?thesis by (simp add: wf_record_def)
qed

lemma short_record: "need \<le> 64 \<Longrightarrow> wf_record (short_lines need) \<and> length (short_lines need) = 2"
  by (simp add: short_lines_def word_len MAXBLOB_def)

lemma resource_record:
  assumes "length m \<le> MAXBLOB"
  shows "wf_record (resource_lines context m) \<and> length (resource_lines context m) \<le> 11"
proof -
  have req: "wf_record (req_lines m) \<and> length (req_lines m) \<le> 11"
    using assms short_record [of 1] short_record [of 33] short_record [of 37]
    by (auto simp: req_lines_def Let_def min.coboundedI1)
  define u where "u = check_count 2 (mp_array (stream (drop 32 m)))"
  have u: "rest_length u \<le> MAXBLOB"
    using field_rest(4) [of 2 "stream (drop 32 m)"] assms by (simp add: u_def)
  have "wf_line (fst (uint_field u ''segment_index'' dec))" by (rule uint_field_record) (simp_all add: word_less)
  moreover have "rest_length (snd (uint_field u ''segment_index'' dec)) \<le> MAXBLOB"
    using field_rest(1) [of u "''segment_index''" dec] u by simp
  then have "wf_line (fst (bin_field (snd (uint_field u ''segment_index'' dec)) ''hashmap''))"
    by (intro bin_field_record) simp_all
  ultimately have hmu: "wf_record (hmu_lines m) \<and> length (hmu_lines m) \<le> 11"
    using assms short_record [of 33] by (auto simp: hmu_lines_def Let_def case_prod_beta simp flip: u_def)
  show ?thesis
    using req hmu adv_record [of "stream m"] assms by (auto simp: resource_lines_def)
qed

lemma channel_record:
  assumes "length m \<le> MAXBLOB"
  shows "wf_record (fst (channel_lines context m)) \<and> length (fst (channel_lines context m)) \<le> 4"
proof -
  have "256 * unat a + unat b < 2 ^ 64" for a b :: byte
  proof -
    have "256 * unat a + unat b < 256 * 256 + 256" using unat_byte_less [of a] unat_byte_less [of b] by linarith
    then show ?thesis by simp
  qed
  then show ?thesis using assms short_record [of 6] by (auto simp: channel_lines_def word_less)
qed

lemma request_record:
  assumes "length m \<le> MAXBLOB"
  shows "wf_record (fst (request_lines context m)) \<and> length (fst (request_lines context m)) \<le> 3"
proof -
  have u: "rest_length (check_count n (mp_array (stream m))) \<le> MAXBLOB" for n
    using field_rest(4) [of n "stream m"] assms by simp
  have d: "wf_line (fst (double_field u ''request_time''))" for u by (rule double_field_record) simp
  have r: "rest_length (snd (double_field u name)) \<le> MAXBLOB" "rest_length (snd (bin_field u name)) \<le> MAXBLOB"
    if "rest_length u \<le> MAXBLOB" for u name
    using field_rest(2,3) [of u name] that by simp_all
  show ?thesis
    using u d r bin_field_record short_record [of 1]
    by (auto simp: request_lines_def Let_def case_prod_beta)
qed

lemma identify_record:
  "length lid = 16 \<Longrightarrow> wf_record (identify_lines context m lid) \<and> length (identify_lines context m lid) \<le> 4"
  by (simp add: identify_lines_def Let_def word_len MAXBLOB_def)

text \<open>The context picks at most one of the four parts.\<close>

lemma opened_record:
  assumes "length m \<le> MAXBLOB" and "length lid = 16"
  shows "wf_record (opened_lines context m lid) \<and> length (opened_lines context m lid) \<le> 11"
proof -
  note r = channel_record [OF assms(1), of "context"] request_record [OF assms(1), of "context"]
    resource_record [OF assms(1), of "context"] identify_record [OF assms(2), of "context" m]
  have c: "context \<noteq> 14 \<Longrightarrow> channel_lines context m = ([], False)"
    "context \<noteq> 9 \<and> context \<noteq> 10 \<Longrightarrow> request_lines context m = ([], False)"
    "context \<notin> {2, 3, 4, 6, 7} \<Longrightarrow> resource_lines context m = []"
    "context \<noteq> 0xfb \<Longrightarrow> identify_lines context m lid = []"
    by (simp_all add: channel_lines_def request_lines_def resource_lines_def identify_lines_def)
  have "length (opened_lines context m lid) \<le> length (fst (channel_lines context m)) +
      length (fst (request_lines context m)) + length (resource_lines context m) + length (identify_lines context m lid)"
    by (auto simp: opened_lines_def case_prod_beta)
  also have "\<dots> \<le> 11"
  proof (cases "context \<in> {2, 3, 4, 6, 7}")
    case True
    then have "context \<noteq> 14" "context \<noteq> 9 \<and> context \<noteq> 10" "context \<noteq> 0xfb" by auto
    then show ?thesis using r c by simp
  next
    case False
    then show ?thesis using r c(3) by simp
  qed
  finally show ?thesis using r by (auto simp: opened_lines_def case_prod_beta)
qed

lemma linkdata_record:
  assumes "decode_packet req = Inr rp" and "decode_packet raw = Inr p" and "length req \<le> MAXBLOB" and "length raw \<le> MAXBLOB"
    and "length priv = 32" and "p_context p = 1 \<or> p_context p = 0xfa \<or> 48 \<le> length (p_payload p)"
  shows "wf_record (fst (linkdata_result req priv raw)) \<and> length (fst (linkdata_result req priv raw)) \<le> MAXFIELDS"
proof -
  note h = decoded_record [OF assms(2,4)]
  define pl where "pl = p_payload p"
  define lid where "lid = link_id rp"
  have l: "length lid = 16" "length pl \<le> MAXBLOB" using h(2) by (simp_all add: lid_def pl_def)
  define key where "key = agreement priv (initiator_key rp) lid"
  define tail where "tail = (case key of None \<Rightarrow> [] | Some k \<Rightarrow> (case tok.unseal k pl of None \<Rightarrow> []
      | Some m \<Rightarrow> opened_lines (unat (p_context p)) m lid))"
  have t: "wf_record tail \<and> length tail \<le> 11"
    using opened_record [OF _ l(1)] unseal_length [of _ pl] l(2) by (fastforce simp: tail_def split: option.splits)
  have lens: "length (header_fields p) = 11" "length (token_fields pl) = 3"
    "length (agreement_fields priv (initiator_key rp) lid) = 3" "length (plaintext_fields key pl) \<le> 3"
    by (auto simp: header_fields_def token_fields_def agreement_fields_def plaintext_fields_def split: option.splits)
  have "wf_record (sealed_lines rp priv p) \<and> length (sealed_lines rp priv p) \<le> 20"
    using t lens token_record [OF l(2)] plaintext_record [OF l(2)] agreement_record
    by (simp add: sealed_lines_def Let_def tail_def flip: pl_def lid_def key_def)
  moreover have "word_text (hex_bytes lid)" "word_text (hex_bytes priv)"
    using l(1) assms(5) by (simp_all add: MAXBLOB_def)
  ultimately show ?thesis
    using h assms lens(1) word_len [OF l(2)] l(2)
    by (auto simp: linkdata_result_def linkdata_lines_def pl_def MAXFIELDS_def simp flip: lid_def)
qed

end
