(* ===== verification/Roundtrip.thy ===== *)
theory Roundtrip
  imports Program Records
begin

text \<open>What a kind of the encode class prints of a file, \<open>dump -e\<close> turns back into the file. \<open>rounds\<close>
  says it of a kind and the blobs it is given; one lemma per kind of the table shows it from
  \<open>rebuildable\<close>, the condition under which the decoder runs to its end with no fault; the last section
  joins it with the readers to two runs of the program.\<close>

section \<open>There and back\<close>

definition encode_record :: "kind \<Rightarrow> kv list \<Rightarrow> unit prog" where
  "encode_record k f = (case k_encode k of Some e \<Rightarrow> e f
     | None \<Rightarrow> (case k_layout k of Some lay \<Rightarrow> encode_layout lay f | None \<Rightarrow> halt Out_of_bounds))"

definition padded :: "blob list \<Rightarrow> blob list" where
  "padded bs = bs @ replicate (MAXBLOBS - length bs) zero_blob"

definition rounds :: "kind \<Rightarrow> blob list \<Rightarrow> bool" where
  "rounds k bs \<longleftrightarrow> (\<exists>ls. k_decode k (padded bs) = print ls \<and> wf_record ls \<and> length ls \<le> MAXFIELDS \<and>
     encode_record k (record_of ls) = print (raw_lines bs))"

lemma roundsI:
  "k_decode k (padded bs) = print ls \<Longrightarrow> wf_record ls \<Longrightarrow> length ls \<le> MAXFIELDS \<Longrightarrow>
   encode_record k (record_of ls) = print (raw_lines bs) \<Longrightarrow> rounds k bs"
  by (auto simp: rounds_def)

lemma padded_nth: "i < length bs \<Longrightarrow> padded bs ! i = bs ! i"
  by (simp add: padded_def nth_append)

text \<open>What the kinds of the encode class need of raw: it decodes, with no fault and no fatal end.
  A destination has at most 36 components, as \<open>MAXFIELDS\<close> fields are read back; a frame has the
  flag of an access code.\<close>

definition packet_with :: "blob \<Rightarrow> (packet \<Rightarrow> bool) \<Rightarrow> bool" where
  "packet_with b P = (case decode_packet (contents b) of Inl f \<Rightarrow> False | Inr p \<Rightarrow> P p)"

definition payload_length :: "packet \<Rightarrow> nat" where
  "payload_length p = length (p_payload p)"

definition rebuildable :: "string \<Rightarrow> blob list \<Rightarrow> bool" where
  "rebuildable name b =
    (if name = ''identity'' \<or> name = ''keyset'' then blen (b ! 0) = 64
     else if name = ''destination'' then
       (absent (b ! 1) \<or> blen (b ! 1) = 16) \<and> length (split_on 0x2e (contents (b ! 0))) \<le> 36
     else if name = ''announce'' then packet_with (b ! 0) (\<lambda>p.
       case decode_announcement (fl_context_flag (p_flags p)) (p_payload p) of Inl f \<Rightarrow> False | Inr a \<Rightarrow> True)
     else if name = ''plain'' then packet_with (b ! 0) (\<lambda>p. True)
     else if name = ''pathrequest'' then packet_with (b ! 0) (\<lambda>p. 16 \<le> payload_length p)
     else if name = ''encrypted'' then
       blen (b ! 0) = 64 \<and> (absent (b ! 1) \<or> blen (b ! 1) = 32) \<and> packet_with (b ! 2) (\<lambda>p. 80 \<le> payload_length p)
     else if name = ''group'' then
       token_key (contents (b ! 0)) \<and> packet_with (b ! 1) (\<lambda>p. 48 \<le> payload_length p)
     else if name = ''linkrequest'' then packet_with (b ! 0) (\<lambda>p. payload_length p = 64 \<or> payload_length p = 67)
     else if name = ''linkproof'' then
       blen (b ! 1) = 64 \<and> packet_with (b ! 0) (\<lambda>p. True) \<and>
       packet_with (b ! 2) (\<lambda>p. payload_length p = 96 \<or> payload_length p = 99)
     else if name = ''linkdata'' then
       blen (b ! 1) = 32 \<and> packet_with (b ! 0) (\<lambda>p. True) \<and>
       packet_with (b ! 2) (\<lambda>p. p_context p = 1 \<or> p_context p = 0xfa \<or> 48 \<le> payload_length p)
     else if name = ''proof'' then
       packet_with (b ! 0) (\<lambda>p. True) \<and>
       packet_with (b ! 2) (\<lambda>p. (payload_length p = 64 \<or> payload_length p = 96) \<and>
         blen (b ! 1) = (if on_link p then 32 else 64))
     else if name = ''resourceproof'' then
       blen (b ! 0) = 32 \<and> packet_with (b ! 1) (\<lambda>p. payload_length p = 64)
     else if name = ''ifac'' then
       \<not> (absent (b ! 0) \<and> absent (b ! 1)) \<and> blen (b ! 2) = 1 \<and>
       1 \<le> unat (hd (contents (b ! 2))) \<and> unat (hd (contents (b ! 2))) \<le> 64 \<and>
       2 + unat (hd (contents (b ! 2))) < blen (b ! 3) \<and> hd (contents (b ! 3)) OR 0x80 = hd (contents (b ! 3))
     else False)"

lemma canonical_value: "canonical b \<Longrightarrow> contents b \<noteq> [] \<Longrightarrow> blob_value b = hex_bytes (contents b)"
  by (simp add: blob_value_def hex_value_def)

lemma packet_value: "decode_packet (contents b) = Inr p \<Longrightarrow> blob_value b = hex_bytes (contents b)"
  by (auto simp: blob_value_def hex_value_def decode_packet_def)

lemma sized_value: "wf_blob b \<Longrightarrow> 0 < blen b \<Longrightarrow> blob_value b = hex_bytes (contents b)"
  using contents_length [of b] by (auto simp: blob_value_def hex_value_def)

lemma contents_bound: "wf_blob b \<Longrightarrow> length (contents b) \<le> MAXBLOB"
  by (simp add: contents_length wf_blob_len)

lemma packet_withE:
  assumes "packet_with b P"
  obtains p where "decode_packet (contents b) = Inr p" "P p"
  using assms by (auto simp: packet_with_def split: sum.splits)

lemma header_count: "length (header_fields p) = 11"
  by (simp add: header_fields_def)

lemma token_counts: "length (token_fields bs) = 3" "length (plaintext_fields key bs) \<le> 3"
  "length (agreement_fields s q salt) = 3" "length (signalling_fields sg) = 3"
  by (auto simp: token_fields_def plaintext_fields_def agreement_fields_def signalling_fields_def Let_def split: option.splits)

text \<open>One lemma per kind; the blobs are named.\<close>

lemma identity_rounds:
  assumes "k_decode k = dump_identity" "k_encode k = None" "k_layout k = Some ''public_key''"
    and "wf_blob b" "blen b = 64"
  shows "rounds k [b]"
proof (rule roundsI)
  show "k_decode k (padded [b]) = print (identity_fields (contents b))"
    using assms by (simp add: dump_identity_fields padded_def)
  show "wf_record (identity_fields (contents b))"
    using assms by (intro identity_record) (simp add: contents_length)
  show "encode_record k (record_of (identity_fields (contents b))) = print (raw_lines [b])"
    using assms by (simp add: encode_record_def identity_rebuilt raw_lines_def sized_value)
qed (simp add: identity_fields_def MAXFIELDS_def)

lemma keyset_rounds:
  assumes "k_decode k = dump_keyset" "k_encode k = None" "k_layout k = Some ''private_key''"
    and "wf_blob b" "blen b = 64"
  shows "rounds k [b]"
proof (rule roundsI)
  show "k_decode k (padded [b]) = print (keyset_fields (contents b))"
    using assms by (simp add: dump_keyset_fields padded_def)
  show "wf_record (keyset_fields (contents b))"
    using assms by (intro keyset_record) (simp add: contents_length)
  show "encode_record k (record_of (keyset_fields (contents b))) = print (raw_lines [b])"
    using assms by (simp add: encode_record_def keyset_rebuilt raw_lines_def sized_value)
qed (simp add: keyset_fields_def identity_fields_def MAXFIELDS_def)

lemma destination_rounds:
  assumes "k_decode k = dump_destination" "k_encode k = None" "k_layout k = Some ''name identity_hash''"
    and "wf_blob b" "wf_blob c" "absent c \<or> blen c = 16" "length (split_on 0x2e (contents b)) \<le> 36"
  shows "rounds k [b, c]"
proof (rule roundsI)
  have l: "length (contents c) \<le> 16"
    using assms(5,6) contents_length [of c] by (auto simp: wf_blob_def)
  show "k_decode k (padded [b, c]) = print (destination_fields (contents b) (contents c))"
    using assms by (simp add: dump_destination_fields padded_def)
  show "wf_record (destination_fields (contents b) (contents c))"
    using assms(4) l by (intro destination_record contents_bound)
  show "encode_record k (record_of (destination_fields (contents b) (contents c))) = print (raw_lines [b, c])"
    using assms(2,3) by (simp add: encode_record_def destination_rebuilt raw_lines_def blob_value_def)
  show "length (destination_fields (contents b) (contents c)) \<le> MAXFIELDS"
    using assms(7) by (simp add: destination_fields_def name_fields_def component_length MAXFIELDS_def)
qed

lemma plain_rounds:
  assumes "k_decode k = dump_plain" "k_encode k = None" "k_layout k = Some ''= plaintext''"
    and "wf_blob b" "decode_packet (contents b) = Inr p"
  shows "rounds k [b]"
proof (rule roundsI)
  show "k_decode k (padded [b]) = print (plain_fields (contents b))"
    using assms by (simp add: dump_plain_fields padded_def)
  show "wf_record (plain_fields (contents b))" using assms(4,5) by (intro plain_record contents_bound)
  show "encode_record k (record_of (plain_fields (contents b))) = print (raw_lines [b])"
    using assms by (simp add: encode_record_def plain_rebuilt contents_bound raw_lines_def packet_value)
  show "length (plain_fields (contents b)) \<le> MAXFIELDS"
    using assms(5) by (simp add: plain_fields_def header_count MAXFIELDS_def)
qed

lemma announce_rounds:
  assumes "k_decode k = dump_announce" "k_encode k = None"
    "k_layout k = Some ''= public_key name_hash random_hash ratchet signature app_data''"
    and "wf_blob b" "decode_packet (contents b) = Inr p"
    "decode_announcement (fl_context_flag (p_flags p)) (p_payload p) = Inr a"
  shows "rounds k [b]"
proof (rule roundsI)
  show "k_decode k (padded [b]) = print (announce_fields (contents b))"
    using assms by (simp add: dump_announce_fields padded_def)
  show "wf_record (announce_fields (contents b))" using assms(4-6) by (intro announce_record contents_bound)
  show "encode_record k (record_of (announce_fields (contents b))) = print (raw_lines [b])"
    using assms by (simp add: encode_record_def announce_rebuilt contents_bound raw_lines_def packet_value)
  show "length (announce_fields (contents b)) \<le> MAXFIELDS"
    using assms(5,6) by (simp add: announce_fields_def announcement_fields_def header_count MAXFIELDS_def)
qed

lemma pathrequest_rounds:
  assumes "k_decode k = dump_pathrequest" "k_encode k = None" "k_layout k = Some ''= wanted_hash requester_id tag''"
    and "wf_blob b" "decode_packet (contents b) = Inr p" "16 \<le> payload_length p"
  shows "rounds k [b]"
proof -
  obtain r where r: "decode_path_request (p_payload p) = Inr r"
    using assms(6) by (cases "32 < length (p_payload p)") (auto simp: decode_path_request_def payload_length_def)
  show ?thesis
  proof (rule roundsI)
    show "k_decode k (padded [b]) = print (pathrequest_fields (contents b))"
      using assms by (simp add: dump_pathrequest_fields padded_def)
    show "wf_record (pathrequest_fields (contents b))" using assms(4,5) r by (intro pathrequest_record contents_bound)
    show "encode_record k (record_of (pathrequest_fields (contents b))) = print (raw_lines [b])"
      using assms r by (simp add: encode_record_def pathrequest_rebuilt contents_bound raw_lines_def packet_value)
    show "length (pathrequest_fields (contents b)) \<le> MAXFIELDS"
      using assms(5) r by (simp add: pathrequest_fields_def path_request_fields_def header_count MAXFIELDS_def)
  qed
qed

lemma token_bounds:
  "length (plaintext_fields key bs) \<le> 8" "length (agreement_fields s q salt) = 3" "length (signalling_fields sg) = 3"
  using token_counts(2) [of key bs] token_counts(3,4) by simp_all

lemma fault_count: "length (fault_fields f) \<le> 5" "length (length_fault_fields n a b c d) \<le> 5"
  by (cases f) (simp_all add: fault_fields_def length_fault_fields_def)

lemma length_fields:
  "length (linkproof_packet_fields rp key p) \<le> 25"
  "length (group_fields key raw) \<le> 25"
  "length (encrypted_fields key r raw) \<le> 30"
  "length (linkrequest_fields raw) \<le> 25"
  "length (resourceproof_fields key raw) \<le> 25"
  by (auto simp: linkproof_packet_fields_def group_fields_def group_packet_fields_def encrypted_fields_def
      encrypted_packet_fields_def linkrequest_fields_def resourceproof_fields_def resourceproof_packet_fields_def
      Let_def header_count token_counts intro: order_trans [OF fault_count(1)] order_trans [OF fault_count(2)]
      token_bounds(1) split: sum.splits)

lemma encrypted_rounds:
  assumes "k_decode k = dump_encrypted" "k_encode k = None"
    "k_layout k = Some ''recipient_private ratchet_private = ephemeral_public iv ciphertext hmac''"
    and "wf_blob b" "wf_blob c" "wf_blob d" "blen b = 64" "absent c \<or> blen c = 32"
    and "decode_packet (contents d) = Inr p" "80 \<le> payload_length p"
  shows "rounds k [b, c, d]"
proof (rule roundsI)
  show "k_decode k (padded [b, c, d]) = print (encrypted_fields (contents b) (contents c) (contents d))"
    using assms by (simp add: dump_encrypted_fields padded_def)
  have "length (contents b) = 64" "length (contents c) \<le> 32"
    using assms(4-8) contents_length [of c] contents_length [of b] by (auto simp: wf_blob_def)
  then show "wf_record (encrypted_fields (contents b) (contents c) (contents d))"
    using assms(6,9,10) by (intro encrypted_record contents_bound) (simp_all add: payload_length_def)
  have "80 \<le> length (p_payload p)" using assms(10) by (simp add: payload_length_def)
  note e = encrypted_rebuilt [OF assms(9) this contents_bound [OF assms(6)]]
  show "encode_record k (record_of (encrypted_fields (contents b) (contents c) (contents d))) = print (raw_lines [b, c, d])"
    using assms(2,3,4,7) e packet_value [OF assms(9)]
    by (simp add: encode_record_def raw_lines_def sized_value blob_value_def [of c])
  show "length (encrypted_fields (contents b) (contents c) (contents d)) \<le> MAXFIELDS"
    using length_fields(3) by (rule order_trans) (simp add: MAXFIELDS_def)
qed

lemma group_rounds:
  assumes "k_decode k = dump_group" "k_encode k = None" "k_layout k = Some ''group_key = iv ciphertext hmac''"
    and "wf_blob b" "wf_blob d" "token_key (contents b)"
    and "decode_packet (contents d) = Inr p" "48 \<le> payload_length p"
  shows "rounds k [b, d]"
proof (rule roundsI)
  show "k_decode k (padded [b, d]) = print (group_fields (contents b) (contents d))"
    using assms by (simp add: dump_group_fields padded_def)
  have "length (contents b) \<le> 64" "blen b \<noteq> 0"
    using assms(4,6) contents_length [of b] by (auto simp: token_key_def)
  then show "wf_record (group_fields (contents b) (contents d))"
    using assms(5,7,8) by (intro group_record contents_bound) (simp_all add: payload_length_def)
  have "48 \<le> length (p_payload p)" using assms(8) by (simp add: payload_length_def)
  note e = group_rebuilt [OF assms(7) this contents_bound [OF assms(5)]]
  show "encode_record k (record_of (group_fields (contents b) (contents d))) = print (raw_lines [b, d])"
    using assms(2,3,4) \<open>blen b \<noteq> 0\<close> e packet_value [OF assms(7)]
    by (simp add: encode_record_def raw_lines_def sized_value)
  show "length (group_fields (contents b) (contents d)) \<le> MAXFIELDS"
    using length_fields(2) by (rule order_trans) (simp add: MAXFIELDS_def)
qed

lemma linkrequest_rounds:
  assumes "k_decode k = dump_linkrequest" "k_encode k = None"
    "k_layout k = Some ''= x25519_public ed25519_public signalling''"
    and "wf_blob b" "decode_packet (contents b) = Inr p" "payload_length p = 64 \<or> payload_length p = 67"
  shows "rounds k [b]"
proof (rule roundsI)
  show "k_decode k (padded [b]) = print (linkrequest_fields (contents b))"
    using assms by (simp add: dump_linkrequest_fields padded_def)
  have l: "length (p_payload p) = 64 \<or> length (p_payload p) = 67" using assms(6) by (simp add: payload_length_def)
  then show "wf_record (linkrequest_fields (contents b))"
    using assms(4,5) by (intro linkrequest_record contents_bound)
  show "encode_record k (record_of (linkrequest_fields (contents b))) = print (raw_lines [b])"
    using assms(2,3) linkrequest_rebuilt [OF assms(5) l contents_bound [OF assms(4)]] packet_value [OF assms(5)]
    by (simp add: encode_record_def raw_lines_def)
  show "length (linkrequest_fields (contents b)) \<le> MAXFIELDS"
    using length_fields(4) by (rule order_trans) (simp add: MAXFIELDS_def)
qed

lemma resourceproof_rounds:
  assumes "k_decode k = dump_resourceproof" "k_encode k = None"
    "k_layout k = Some ''advertised_hash = resource_hash resource_proof''"
    and "wf_blob b" "wf_blob d" "blen b = 32" "decode_packet (contents d) = Inr p" "payload_length p = 64"
  shows "rounds k [b, d]"
proof (rule roundsI)
  show "k_decode k (padded [b, d]) = print (resourceproof_fields (contents b) (contents d))"
    using assms by (simp add: dump_resourceproof_fields padded_def)
  have l: "length (p_payload p) = 64" "length (contents b) = 32"
    using assms(4,6,8) contents_length [of b] by (simp_all add: payload_length_def)
  then show "wf_record (resourceproof_fields (contents b) (contents d))"
    using assms(5,7) by (intro resourceproof_record contents_bound)
  show "encode_record k (record_of (resourceproof_fields (contents b) (contents d))) = print (raw_lines [b, d])"
    using assms(2,3,4,6) resourceproof_rebuilt [OF assms(7) l(1) contents_bound [OF assms(5)]] packet_value [OF assms(7)]
    by (simp add: encode_record_def raw_lines_def sized_value)
  show "length (resourceproof_fields (contents b) (contents d)) \<le> MAXFIELDS"
    using length_fields(5) by (rule order_trans) (simp add: MAXFIELDS_def)
qed

lemma print_fst: "snd m = Inr () \<Longrightarrow> m = print (fst m)"
  by (cases m) (simp add: print_def)

lemma linkproof_rounds:
  assumes "k_decode k = dump_linkproof" "k_encode k = None"
    "k_layout k = Some ''link_request signer_public = signature x25519_public signalling''"
    and "wf_blob b" "wf_blob c" "wf_blob d" "blen c = 64" "decode_packet (contents b) = Inr rp"
    and "decode_packet (contents d) = Inr p" "payload_length p = 96 \<or> payload_length p = 99"
  shows "rounds k [b, c, d]"
proof (rule roundsI)
  let ?r = "linkproof_result (contents b) (contents c) (contents d)"
  have r: "?r = print (fst ?r)" "length (fst ?r) \<le> 27"
    using assms(8,9) length_fields(1) [of rp "drop 32 (contents c)" p]
    by (simp_all add: linkproof_result_def andthen_print)
  show "k_decode k (padded [b, c, d]) = print (fst ?r)"
    using assms dump_linkproof_result [of "padded [b, c, d]"] r(1) by (simp add: padded_def)
  have l: "length (p_payload p) = 96 \<or> length (p_payload p) = 99" "length (contents c) = 64"
    using assms(5,7,10) contents_length [of c] by (simp_all add: payload_length_def)
  show "wf_record (fst ?r)"
    using assms(4,6,8,9) l by (intro linkproof_record contents_bound)
  show "encode_record k (record_of (fst ?r)) = print (raw_lines [b, c, d])"
    using assms(2,3,5,7) linkproof_rebuilt [OF assms(8,9) l(1) contents_bound [OF assms(6)]] packet_value [OF assms(9)]
    by (simp add: encode_record_def raw_lines_def sized_value blob_value_def [of b])
  show "length (fst ?r) \<le> MAXFIELDS"
    using r(2) by (rule order_trans) (simp add: MAXFIELDS_def)
qed

lemma proof_count:
  assumes "decode_packet proved = Inr pp" "decode_packet raw = Inr p"
    and "payload_length p = 64 \<or> payload_length p = 96" "length key = (if on_link p then 32 else 64)"
  shows "snd (proof_result proved key raw) = Inr () \<and> length (fst (proof_result proved key raw)) \<le> 22"
  using assms by (auto simp: proof_result_def proof_packet_result_def andthen_print payload_length_def
      proof_packet_fields_def header_count Let_def)

lemma proof_rounds:
  assumes "k_decode k = dump_proof" "k_encode k = None"
    "k_layout k = Some ''proved_packet signer_public = proof_hash signature''"
    and "wf_blob b" "wf_blob c" "wf_blob d" "decode_packet (contents b) = Inr rp" "decode_packet (contents d) = Inr p"
    and "payload_length p = 64 \<or> payload_length p = 96" "blen c = (if on_link p then 32 else 64)"
  shows "rounds k [b, c, d]"
proof (rule roundsI)
  let ?r = "proof_result (contents b) (contents c) (contents d)"
  have l: "length (p_payload p) = 64 \<or> length (p_payload p) = 96"
    "length (contents c) = (if on_link p then 32 else 64)" "blen c = 64 \<or> blen c = 32" "0 < blen c"
    using assms(5,9,10) contents_length [of c] by (simp_all add: payload_length_def)
  have r: "?r = print (fst ?r)" "length (fst ?r) \<le> 22"
    using proof_count [OF assms(7-9) l(2)] by (auto intro: print_fst)
  show "k_decode k (padded [b, c, d]) = print (fst ?r)"
    using assms(1,4-6) l(3) dump_proof_result [of "padded [b, c, d]"] r(1) by (simp add: padded_def)
  show "wf_record (fst ?r)"
    using assms(4,6,7,8) l by (intro proof_record contents_bound)
  show "encode_record k (record_of (fst ?r)) = print (raw_lines [b, c, d])"
    using assms(2,3,5) l(4) proof_rebuilt [OF assms(7,8) l(1,2) contents_bound [OF assms(6)]] packet_value [OF assms(8)]
    by (simp add: encode_record_def raw_lines_def sized_value blob_value_def [of b])
  show "length (fst ?r) \<le> MAXFIELDS"
    using r(2) by (rule order_trans) (simp add: MAXFIELDS_def)
qed

lemma linkdata_rounds:
  assumes "k_decode k = dump_linkdata" "k_encode k = Some encode_linkdata"
    and "wf_blob b" "wf_blob c" "wf_blob d" "blen c = 32" "decode_packet (contents b) = Inr rp"
    and "decode_packet (contents d) = Inr p" "p_context p = 1 \<or> p_context p = 0xfa \<or> 48 \<le> payload_length p"
  shows "rounds k [b, c, d]"
proof (rule roundsI)
  let ?r = "linkdata_result (contents b) (contents c) (contents d)"
  have l: "p_context p = 1 \<or> p_context p = 0xfa \<or> 48 \<le> length (p_payload p)" "length (contents c) = 32"
    using assms(4,6,9) contents_length [of c] by (simp_all add: payload_length_def)
  have r: "?r = print (fst ?r)"
    using assms(7,8) by (simp add: linkdata_result_def andthen_print)
  show "k_decode k (padded [b, c, d]) = print (fst ?r)"
    using assms dump_linkdata_result [of "padded [b, c, d]"] r by (simp add: padded_def)
  show "wf_record (fst ?r)" "length (fst ?r) \<le> MAXFIELDS"
    using linkdata_record [OF assms(7,8) contents_bound [OF assms(3)] contents_bound [OF assms(5)] l(2,1)] by simp_all
  show "encode_record k (record_of (fst ?r)) = print (raw_lines [b, c, d])"
    using assms(2,4,6) linkdata_rebuilt [OF assms(7,8) contents_bound [OF assms(5)] l(1)] packet_value [OF assms(8)]
    by (simp add: encode_record_def raw_lines_def sized_value blob_value_def [of b])
qed

lemma set_head_same: "xs \<noteq> [] \<Longrightarrow> f (hd xs) = hd xs \<Longrightarrow> set_head f xs = xs"
  by (cases xs) (simp_all add: set_head_def)

lemma ifac_rounds:
  assumes "k_decode k = dump_ifac" "k_encode k = Some encode_ifac"
    and "canonical b" "canonical c" "wf_blob b" "wf_blob c" "wf_blob s" "wf_blob d" "\<not> (absent b \<and> absent c)" "blen s = 1"
    and "1 \<le> unat (hd (contents s))" "unat (hd (contents s)) \<le> 64" "2 + unat (hd (contents s)) < blen d"
    and "hd (contents d) OR 0x80 = hd (contents d)"
  shows "rounds k [b, c, s, d]"
proof (rule roundsI)
  define x where "x = hd (contents s)"
  have s: "contents s = [x]" using contents_length [OF assms(7)] assms(10) by (cases "contents s") (simp_all add: x_def)
  have d: "blen d = length (contents d)" using contents_length [OF assms(8)] by simp
  note x = assms(11-13) [folded x_def]
  have h: "set_head (\<lambda>b. b OR 0x80) (contents d) = contents d"
    using assms(14) x(3) d by (intro set_head_same) auto
  have v: "blob_value s = hex_bytes [x]" "blob_value d = hex_bytes (contents d)"
    using sized_value [OF assms(7)] sized_value [OF assms(8)] assms(10) s x(3) by simp_all
  show "k_decode k (padded [b, c, s, d]) = print (ifac_lines b c (unat x) (contents d))"
    using assms dump_ifac_lines [of "padded [b, c, s, d]" x] s x d by (simp add: padded_def MAXBLOBS_def)
  show "wf_record (ifac_lines b c (unat x) (contents d))"
    using assms(5,6,8) x d by (intro ifac_record contents_bound) simp_all
  show "encode_record k (record_of (ifac_lines b c (unat x) (contents d))) = print (raw_lines [b, c, s, d])"
    using assms(2) x(3) d v ifac_rebuilt [OF assms(3,4) x(1,2), of "contents d"] contents_bound [OF assms(8)] h
    by (simp add: encode_record_def raw_lines_def)
  show "length (ifac_lines b c (unat x) (contents d)) \<le> MAXFIELDS"
    by (simp add: ifac_lines_def Let_def MAXFIELDS_def)
qed

section \<open>The table\<close>

lemma find_named:
  "distinct (map k_name ks) \<Longrightarrow> k \<in> set ks \<Longrightarrow> find (\<lambda>k'. k_name k' = k_name k) ks = Some k"
  by (induction ks) (auto simp: image_iff)

lemma kinds_distinct: "distinct (map k_name kinds)"
  by (simp add: kinds_def)

lemmas find_kinds = find_named [OF kinds_distinct]

lemma kind_fields:
  assumes "k \<in> set kinds"
  shows "k_name k = ''identity'' \<Longrightarrow> k_blobs k = 1 \<and> k_decode k = dump_identity \<and> k_encode k = None \<and> k_layout k = Some ''public_key''"
  "k_name k = ''keyset'' \<Longrightarrow> k_blobs k = 1 \<and> k_decode k = dump_keyset \<and> k_encode k = None \<and> k_layout k = Some ''private_key''"
  "k_name k = ''destination'' \<Longrightarrow> k_blobs k = 2 \<and> k_decode k = dump_destination \<and> k_encode k = None \<and> k_layout k = Some ''name identity_hash''"
  "k_name k = ''announce'' \<Longrightarrow> k_blobs k = 1 \<and> k_decode k = dump_announce \<and> k_encode k = None \<and>
     k_layout k = Some ''= public_key name_hash random_hash ratchet signature app_data''"
  "k_name k = ''plain'' \<Longrightarrow> k_blobs k = 1 \<and> k_decode k = dump_plain \<and> k_encode k = None \<and> k_layout k = Some ''= plaintext''"
  "k_name k = ''pathrequest'' \<Longrightarrow> k_blobs k = 1 \<and> k_decode k = dump_pathrequest \<and> k_encode k = None \<and>
     k_layout k = Some ''= wanted_hash requester_id tag''"
  "k_name k = ''encrypted'' \<Longrightarrow> k_blobs k = 3 \<and> k_decode k = dump_encrypted \<and> k_encode k = None \<and>
     k_layout k = Some ''recipient_private ratchet_private = ephemeral_public iv ciphertext hmac''"
  "k_name k = ''group'' \<Longrightarrow> k_blobs k = 2 \<and> k_decode k = dump_group \<and> k_encode k = None \<and>
     k_layout k = Some ''group_key = iv ciphertext hmac''"
  "k_name k = ''linkrequest'' \<Longrightarrow> k_blobs k = 1 \<and> k_decode k = dump_linkrequest \<and> k_encode k = None \<and>
     k_layout k = Some ''= x25519_public ed25519_public signalling''"
  "k_name k = ''linkproof'' \<Longrightarrow> k_blobs k = 3 \<and> k_decode k = dump_linkproof \<and> k_encode k = None \<and>
     k_layout k = Some ''link_request signer_public = signature x25519_public signalling''"
  "k_name k = ''linkdata'' \<Longrightarrow> k_blobs k = 3 \<and> k_decode k = dump_linkdata \<and> k_encode k = Some encode_linkdata"
  "k_name k = ''proof'' \<Longrightarrow> k_blobs k = 3 \<and> k_decode k = dump_proof \<and> k_encode k = None \<and>
     k_layout k = Some ''proved_packet signer_public = proof_hash signature''"
  "k_name k = ''resourceproof'' \<Longrightarrow> k_blobs k = 2 \<and> k_decode k = dump_resourceproof \<and> k_encode k = None \<and>
     k_layout k = Some ''advertised_hash = resource_hash resource_proof''"
  "k_name k = ''ifac'' \<Longrightarrow> k_blobs k = 4 \<and> k_decode k = dump_ifac \<and> k_encode k = Some encode_ifac"
  using assms by (simp_all add: kinds_def) (elim disjE; simp)+

lemma blobs_cases:
  "length bs = 1 \<Longrightarrow> \<exists>b. bs = [b]" "length bs = 2 \<Longrightarrow> \<exists>b c. bs = [b, c]" "length bs = 3 \<Longrightarrow> \<exists>b c d. bs = [b, c, d]"
  "length bs = 4 \<Longrightarrow> \<exists>b c d e. bs = [b, c, d, e]"
  by (auto simp: length_Suc_conv numeral_eq_Suc)

lemma rebuildable_name:
  "rebuildable name b \<Longrightarrow> name \<in> {''identity'', ''keyset'', ''destination'', ''announce'', ''plain'', ''pathrequest'',
     ''encrypted'', ''group'', ''linkrequest'', ''linkproof'', ''linkdata'', ''proof'', ''resourceproof'', ''ifac''}"
  by (auto simp: rebuildable_def split: if_splits)

lemma rebuildable_simps:
  "rebuildable ''identity'' b \<longleftrightarrow> blen (b ! 0) = 64" "rebuildable ''keyset'' b \<longleftrightarrow> blen (b ! 0) = 64"
  "rebuildable ''destination'' b \<longleftrightarrow> (absent (b ! 1) \<or> blen (b ! 1) = 16) \<and> length (split_on 0x2e (contents (b ! 0))) \<le> 36"
  "rebuildable ''announce'' b \<longleftrightarrow> packet_with (b ! 0) (\<lambda>p.
     case decode_announcement (fl_context_flag (p_flags p)) (p_payload p) of Inl f \<Rightarrow> False | Inr a \<Rightarrow> True)"
  "rebuildable ''plain'' b \<longleftrightarrow> packet_with (b ! 0) (\<lambda>p. True)"
  "rebuildable ''pathrequest'' b \<longleftrightarrow> packet_with (b ! 0) (\<lambda>p. 16 \<le> payload_length p)"
  "rebuildable ''encrypted'' b \<longleftrightarrow> blen (b ! 0) = 64 \<and> (absent (b ! 1) \<or> blen (b ! 1) = 32) \<and>
     packet_with (b ! 2) (\<lambda>p. 80 \<le> payload_length p)"
  "rebuildable ''group'' b \<longleftrightarrow> token_key (contents (b ! 0)) \<and> packet_with (b ! 1) (\<lambda>p. 48 \<le> payload_length p)"
  "rebuildable ''linkrequest'' b \<longleftrightarrow> packet_with (b ! 0) (\<lambda>p. payload_length p = 64 \<or> payload_length p = 67)"
  "rebuildable ''linkproof'' b \<longleftrightarrow> blen (b ! 1) = 64 \<and> packet_with (b ! 0) (\<lambda>p. True) \<and>
     packet_with (b ! 2) (\<lambda>p. payload_length p = 96 \<or> payload_length p = 99)"
  "rebuildable ''linkdata'' b \<longleftrightarrow> blen (b ! 1) = 32 \<and> packet_with (b ! 0) (\<lambda>p. True) \<and>
     packet_with (b ! 2) (\<lambda>p. p_context p = 1 \<or> p_context p = 0xfa \<or> 48 \<le> payload_length p)"
  "rebuildable ''proof'' b \<longleftrightarrow> packet_with (b ! 0) (\<lambda>p. True) \<and> packet_with (b ! 2) (\<lambda>p.
     (payload_length p = 64 \<or> payload_length p = 96) \<and> blen (b ! 1) = (if on_link p then 32 else 64))"
  "rebuildable ''resourceproof'' b \<longleftrightarrow> blen (b ! 0) = 32 \<and> packet_with (b ! 1) (\<lambda>p. payload_length p = 64)"
  "rebuildable ''ifac'' b \<longleftrightarrow> \<not> (absent (b ! 0) \<and> absent (b ! 1)) \<and> blen (b ! 2) = 1 \<and>
     1 \<le> unat (hd (contents (b ! 2))) \<and> unat (hd (contents (b ! 2))) \<le> 64 \<and>
     2 + unat (hd (contents (b ! 2))) < blen (b ! 3) \<and> hd (contents (b ! 3)) OR 0x80 = hd (contents (b ! 3))"
  unfolding rebuildable_def by simp_all

lemma not_Inl_iff: "(\<forall>x. s \<noteq> Inl x) \<longleftrightarrow> (\<exists>a. s = Inr a)"
  by (cases s) auto

lemma rebuildable_rounds:
  assumes k: "k \<in> set kinds" and r: "rebuildable (k_name k) bs" and n: "length bs = k_blobs k"
    and c: "\<forall>b \<in> set bs. canonical b"
  shows "rounds k bs"
proof -
  have w: "\<forall>b \<in> set bs. wf_blob b" using c canonical_wf by blast
  note f = kind_fields [OF k]
  consider "k_name k = ''identity''" | "k_name k = ''keyset''" | "k_name k = ''destination''" | "k_name k = ''announce''"
    | "k_name k = ''plain''" | "k_name k = ''pathrequest''" | "k_name k = ''encrypted''" | "k_name k = ''group''"
    | "k_name k = ''linkrequest''" | "k_name k = ''linkproof''" | "k_name k = ''linkdata''" | "k_name k = ''proof''"
    | "k_name k = ''resourceproof''" | "k_name k = ''ifac''"
    using rebuildable_name [OF r] by blast
  then show ?thesis
  proof cases
    case 1
    then show ?thesis using f(1) r n w blobs_cases(1) [of bs] by (auto simp: rebuildable_simps intro!: identity_rounds)
  next
    case 2
    then show ?thesis using f(2) r n w blobs_cases(1) [of bs] by (auto simp: rebuildable_simps intro!: keyset_rounds)
  next
    case 3
    then show ?thesis using f(3) r n w blobs_cases(2) [of bs] by (auto simp: rebuildable_simps intro!: destination_rounds)
  next
    case 4
    then show ?thesis using f(4) r n w blobs_cases(1) [of bs]
      by (auto simp: rebuildable_simps not_Inl_iff elim!: packet_withE intro!: announce_rounds split: sum.splits)
  next
    case 5
    then show ?thesis using f(5) r n w blobs_cases(1) [of bs]
      by (auto simp: rebuildable_simps elim!: packet_withE intro!: plain_rounds)
  next
    case 6
    then show ?thesis using f(6) r n w blobs_cases(1) [of bs]
      by (auto simp: rebuildable_simps elim!: packet_withE intro!: pathrequest_rounds)
  next
    case 7
    then show ?thesis using f(7) r n w blobs_cases(3) [of bs]
      by (auto simp: rebuildable_simps elim!: packet_withE intro!: encrypted_rounds)
  next
    case 8
    then show ?thesis using f(8) r n w blobs_cases(2) [of bs]
      by (auto simp: rebuildable_simps elim!: packet_withE intro!: group_rounds)
  next
    case 9
    then show ?thesis using f(9) r n w blobs_cases(1) [of bs]
      by (auto simp: rebuildable_simps elim!: packet_withE intro!: linkrequest_rounds)
  next
    case 10
    then show ?thesis using f(10) r n w blobs_cases(3) [of bs]
      by (auto simp: rebuildable_simps elim!: packet_withE intro!: linkproof_rounds)
  next
    case 11
    then show ?thesis using f(11) r n w blobs_cases(3) [of bs]
      by (auto simp: rebuildable_simps elim!: packet_withE intro!: linkdata_rounds)
  next
    case 12
    then show ?thesis using f(12) r n w blobs_cases(3) [of bs]
      by (auto simp: rebuildable_simps elim!: packet_withE intro!: proof_rounds)
  next
    case 13
    then show ?thesis using f(13) r n w blobs_cases(2) [of bs]
      by (auto simp: rebuildable_simps elim!: packet_withE intro!: resourceproof_rounds)
  next
    case 14
    then show ?thesis using f(14) r n w c blobs_cases(4) [of bs]
      by (auto simp: rebuildable_simps intro!: ifac_rounds)
  qed
qed

section \<open>Two runs of the program\<close>

lemma rounds_runs:
  assumes k: "k \<in> set kinds" and n: "length bs = k_blobs k" and c: "\<forall>b \<in> set bs. canonical b" and r: "rounds k bs"
    and e: "k_encode k \<noteq> None \<or> k_layout k \<noteq> None"
  shows "\<exists>ls. decode_kind k path (Some (render (raw_lines bs))) = print ls \<and>
    (\<forall>path'. encode_kind k path' (Some (render ls)) = print (raw_lines bs))"
proof -
  obtain ls where ls: "k_decode k (padded bs) = print ls" "wf_record ls" "length ls \<le> MAXFIELDS"
    "encode_record k (record_of ls) = print (raw_lines bs)"
    using r by (auto simp: rounds_def)
  have "k_blobs k \<le> MAXBLOBS" using k by (auto simp: kinds_def MAXBLOBS_def)
  then have "readraw path (Some (render (raw_lines bs))) (replicate MAXBLOBS zero_blob) MAXBLOBS =
      ret (padded bs, length bs)"
    using readraw_written [OF c, of MAXBLOBS path] n by (simp add: padded_def)
  then have d: "decode_kind k path (Some (render (raw_lines bs))) = print ls"
    using n ls(1) by (simp add: decode_kind_def)
  have "readexpect path' (Some (render ls)) MAXFIELDS = ret (record_of ls)" for path'
    using readexpect_written [of ls MAXFIELDS path'] ls(2,3) by (simp add: wf_record_def)
  then have "encode_kind k path' (Some (render ls)) = print (raw_lines bs)" for path'
    using e ls(4) by (auto simp: encode_kind_def encode_record_def)
  then show ?thesis using d by blast
qed

lemma main_decode: "main [a, name, path] fs = run_kind False name path fs"
  by (simp add: main_def)

lemma main_encode: "main [a, ''-e'', name, path] fs = run_kind True name path fs"
  by (simp add: main_def)

lemma main_rounds:
  assumes k: "k \<in> set kinds" and r: "rebuildable (k_name k) bs" and n: "length bs = k_blobs k"
    and c: "\<forall>b \<in> set bs. canonical b" and f: "fs path = Some (render (raw_lines bs))"
  shows "\<exists>ls. main [a, k_name k, path] fs = (ls, Inr 0) \<and>
    (\<forall>fs' path'. fs' path' = Some (render ls) \<longrightarrow> main [a, ''-e'', k_name k, path'] fs' = (raw_lines bs, Inr 0))"
proof -
  have e: "k_encode k \<noteq> None \<or> k_layout k \<noteq> None"
    using k rebuildable_name [OF r] by (auto simp: kinds_def)
  have run: "run_kind False (k_name k) path fs = andthen (decode_kind k path (fs path)) (\<lambda>_. ret 0)"
    "run_kind True (k_name k) path' fs' = andthen (encode_kind k path' (fs' path')) (\<lambda>_. ret 0)" for fs' path'
    by (simp_all add: run_kind_def find_kinds [OF k])
  obtain ls where "decode_kind k path (fs path) = print ls"
    "\<And>path'. encode_kind k path' (Some (render ls)) = print (raw_lines bs)"
    using rounds_runs [OF k n c rebuildable_rounds [OF k r n c] e] f by force
  then show ?thesis
    by (intro exI [of _ ls]) (simp add: main_decode main_encode run andthen_print ret_def)
qed

end
