(* ===== verification/Secretbox.thy ===== *)
theory Secretbox
  imports Tweetnacl Sha256
begin

text \<open>
  The half of cmd/tweetnacl.c that cmd/dump.c never calls: Salsa20, HSalsa20 and their streams,
  Poly1305, secretbox and box. Its \<open>u32\<close> is \<open>unsigned long\<close>, which has 64 bits where the program
  is built, so a word of it may carry bits above the 32 that count; \<open>L32\<close> masks them when it rotates
  and \<open>st32\<close> drops them. Loops fold over their indices; a pointer that may be null is an option.
\<close>

unbundle bit_operations_syntax

type_synonym ulong = "64 word"

section \<open>Words and bytes\<close>

definition L32 :: "ulong \<Rightarrow> nat \<Rightarrow> ulong" where
  "L32 x c = push_bit c x OR drop_bit (32 - c) (x AND 0xffffffff)"

definition ld32 :: "bytes \<Rightarrow> ulong" where
  "ld32 x =
    (let u = ucast (x ! 3);
         u = push_bit 8 u OR ucast (x ! 2);
         u = push_bit 8 u OR ucast (x ! 1)
     in push_bit 8 u OR ucast (x ! 0))"

definition st32 :: "ulong \<Rightarrow> bytes" where
  "st32 u = map (\<lambda>i. ucast (drop_bit (8 * i) u)) [0..<4]"

definition crypto_verify_16 :: "bytes \<Rightarrow> bytes \<Rightarrow> int" where
  "crypto_verify_16 x y = vn x y 16"

section \<open>Salsa20\<close>

definition salsa_load :: "bytes \<Rightarrow> bytes \<Rightarrow> bytes \<Rightarrow> ulong list" where
  "salsa_load inp k c = foldl (\<lambda>x i.
     x[5 * i := ld32 (drop (4 * i) c),
       1 + i := ld32 (drop (4 * i) k),
       6 + i := ld32 (drop (4 * i) inp),
       11 + i := ld32 (drop (16 + 4 * i) k)]) (replicate 16 0) [0..<4]"

definition salsa_column :: "ulong list \<Rightarrow> ulong list \<Rightarrow> nat \<Rightarrow> ulong list" where
  "salsa_column x w j =
    (let t = map (\<lambda>m. x ! ((5 * j + 4 * m) mod 16)) [0..<4];
         t = t[1 := t ! 1 XOR L32 (t ! 0 + t ! 3) 7];
         t = t[2 := t ! 2 XOR L32 (t ! 1 + t ! 0) 9];
         t = t[3 := t ! 3 XOR L32 (t ! 2 + t ! 1) 13];
         t = t[0 := t ! 0 XOR L32 (t ! 3 + t ! 2) 18]
     in foldl (\<lambda>w m. w[4 * j + (j + m) mod 4 := t ! m]) w [0..<4])"

definition salsa_round :: "ulong list \<Rightarrow> ulong list" where
  "salsa_round x = foldl (salsa_column x) (replicate 16 0) [0..<4]"

definition salsa_core :: "bytes \<Rightarrow> bytes \<Rightarrow> bytes \<Rightarrow> bool \<Rightarrow> bytes" where
  "salsa_core inp k c h =
    (let y = salsa_load inp k c;
         x = (salsa_round ^^ 20) y
     in if h then
          (let x = foldl (\<lambda>x i. x[i := x ! i + y ! i]) x [0..<16];
               x = foldl (\<lambda>x i. x[5 * i := x ! (5 * i) - ld32 (drop (4 * i) c),
                                  6 + i := x ! (6 + i) - ld32 (drop (4 * i) inp)]) x [0..<4]
           in concat (map (\<lambda>i. st32 (x ! (5 * i))) [0..<4]) @ concat (map (\<lambda>i. st32 (x ! (6 + i))) [0..<4]))
        else concat (map (\<lambda>i. st32 (x ! i + y ! i)) [0..<16]))"

definition crypto_core_salsa20 :: "bytes \<Rightarrow> bytes \<Rightarrow> bytes \<Rightarrow> bytes" where
  "crypto_core_salsa20 inp k c = salsa_core inp k c False"

definition crypto_core_hsalsa20 :: "bytes \<Rightarrow> bytes \<Rightarrow> bytes \<Rightarrow> bytes" where
  "crypto_core_hsalsa20 inp k c = salsa_core inp k c True"

text \<open>\<open>sigma\<close>, the sixteen bytes of \<open>expand 32-byte k\<close>.\<close>

definition salsa_sigma :: bytes where
  "salsa_sigma = [0x65, 0x78, 0x70, 0x61, 0x6e, 0x64, 0x20, 0x33, 0x32, 0x2d, 0x62, 0x79, 0x74, 0x65, 0x20, 0x6b]"

definition count_up :: "bytes \<Rightarrow> bytes" where
  "count_up z = fst (foldl (\<lambda>(z, u) i.
     let u = u + ucast (z ! i) :: ulong in (z[i := ucast u], drop_bit 8 u)) (z, 1) [8..<16])"

definition xor_with :: "bytes option \<Rightarrow> bytes \<Rightarrow> nat \<Rightarrow> bytes" where
  "xor_with m x b = map (\<lambda>i. (case m of None \<Rightarrow> 0 | Some m \<Rightarrow> m ! i) XOR x ! i) [0..<b]"

fun salsa_loop :: "bytes option \<Rightarrow> nat \<Rightarrow> bytes \<Rightarrow> bytes \<Rightarrow> bytes" where
  "salsa_loop m b z k =
    (if 64 \<le> b then
       xor_with m (crypto_core_salsa20 z k salsa_sigma) 64 @
       salsa_loop (map_option (drop 64) m) (b - 64) (count_up z) k
     else if 0 < b then xor_with m (crypto_core_salsa20 z k salsa_sigma) b
     else [])"

declare salsa_loop.simps [simp del]

definition crypto_stream_salsa20_xor :: "bytes option \<Rightarrow> nat \<Rightarrow> bytes \<Rightarrow> bytes \<Rightarrow> bytes" where
  "crypto_stream_salsa20_xor m b n k =
    (if b = 0 then [] else salsa_loop m b (take 8 n @ replicate 8 0) k)"

definition crypto_stream_salsa20 :: "nat \<Rightarrow> bytes \<Rightarrow> bytes \<Rightarrow> bytes" where
  "crypto_stream_salsa20 d n k = crypto_stream_salsa20_xor None d n k"

definition crypto_stream :: "nat \<Rightarrow> bytes \<Rightarrow> bytes \<Rightarrow> bytes" where
  "crypto_stream d n k = (let s = crypto_core_hsalsa20 n k salsa_sigma in crypto_stream_salsa20 d (drop 16 n) s)"

definition crypto_stream_xor :: "bytes \<Rightarrow> nat \<Rightarrow> bytes \<Rightarrow> bytes \<Rightarrow> bytes" where
  "crypto_stream_xor m d n k =
    (let s = crypto_core_hsalsa20 n k salsa_sigma in crypto_stream_salsa20_xor (Some m) d (drop 16 n) s)"

section \<open>Poly1305\<close>

definition add1305 :: "ulong list \<Rightarrow> ulong list \<Rightarrow> ulong list" where
  "add1305 h c = fst (foldl (\<lambda>(h, u) j.
     let u = u + (h ! j + c ! j) in (h[j := u AND 255], drop_bit 8 u)) (h, 0) [0..<17])"

definition minusp :: "ulong list" where
  "minusp = [5, 0, 0, 0, 0, 0, 0, 0, 0, 0, 0, 0, 0, 0, 0, 0, 252]"

definition poly_key :: "bytes \<Rightarrow> ulong list" where
  "poly_key k =
    (let r = map (\<lambda>j. ucast (k ! j)) [0..<16] @ [0]
     in r[3 := r ! 3 AND 15, 4 := r ! 4 AND 252, 7 := r ! 7 AND 15, 8 := r ! 8 AND 252,
          11 := r ! 11 AND 15, 12 := r ! 12 AND 252, 15 := r ! 15 AND 15])"

text \<open>One pass of carries: each limb is cut to a byte, the rest is passed on.\<close>

definition poly_carry :: "ulong list \<times> ulong \<Rightarrow> nat \<Rightarrow> ulong list \<times> ulong" where
  "poly_carry hu j = (case hu of (h, u) \<Rightarrow> let u = u + h ! j in (h[j := u AND 255], drop_bit 8 u))"

definition poly_block :: "ulong list \<Rightarrow> ulong list \<Rightarrow> ulong list \<Rightarrow> ulong list" where
  "poly_block r h c =
    (let h = add1305 h c;
         x = map (\<lambda>i. foldl (\<lambda>x j. x + h ! j * (if j \<le> i then r ! (i - j) else 320 * r ! (i + 17 - j))) 0 [0..<17]) [0..<17];
         (h, u) = foldl poly_carry (x, 0) [0..<16];
         u = u + h ! 16;
         h = h[16 := u AND 3];
         u = 5 * drop_bit 2 u;
         (h, u) = foldl poly_carry (h, u) [0..<16];
         u = u + h ! 16
     in h[16 := u])"

fun poly_loop :: "ulong list \<Rightarrow> ulong list \<Rightarrow> bytes \<Rightarrow> ulong list" where
  "poly_loop r h m =
    (if m = [] then h
     else (let c = map ucast (take 16 m) @ [1] @ replicate (16 - length (take 16 m)) 0
           in poly_loop r (poly_block r h c) (drop 16 m)))"

declare poly_loop.simps [simp del]

definition crypto_onetimeauth :: "bytes \<Rightarrow> bytes \<Rightarrow> bytes" where
  "crypto_onetimeauth m k =
    (let h = poly_loop (poly_key k) (replicate 17 0) m;
         g = h;
         h = add1305 h minusp;
         s = - drop_bit 7 (h ! 16);
         h = map (\<lambda>j. h ! j XOR (s AND (g ! j XOR h ! j))) [0..<17];
         c = map (\<lambda>j. ucast (k ! (j + 16))) [0..<16] @ [0];
         h = add1305 h c
     in map (\<lambda>j. ucast (h ! j)) [0..<16])"

definition crypto_onetimeauth_verify :: "bytes \<Rightarrow> bytes \<Rightarrow> bytes \<Rightarrow> int" where
  "crypto_onetimeauth_verify h m k = crypto_verify_16 h (crypto_onetimeauth m k)"

section \<open>secretbox and box\<close>

text \<open>The \<open>d\<close> bytes a call writes, or \<open>None\<close> where it returns -1. The message starts with 32 zero bytes,
  which become the key of the authenticator in between, the cipher text with 16.\<close>

definition crypto_secretbox :: "bytes \<Rightarrow> nat \<Rightarrow> bytes \<Rightarrow> bytes \<Rightarrow> bytes option" where
  "crypto_secretbox m d n k =
    (if d < 32 then None
     else (let c = crypto_stream_xor m d n k;
               c = take 16 c @ crypto_onetimeauth (drop 32 c) c @ drop 32 c
           in Some (replicate 16 0 @ drop 16 c)))"

definition crypto_secretbox_open :: "bytes \<Rightarrow> nat \<Rightarrow> bytes \<Rightarrow> bytes \<Rightarrow> bytes option" where
  "crypto_secretbox_open c d n k =
    (if d < 32 then None
     else if crypto_onetimeauth_verify (drop 16 c) (take (d - 32) (drop 32 c)) (crypto_stream 32 n k) \<noteq> 0 then None
     else Some (replicate 32 0 @ drop 32 (crypto_stream_xor c d n k)))"

text \<open>\<open>crypto_box_keypair\<close> with the scalar \<open>randombytes\<close> hands it.\<close>

definition crypto_box_keypair :: "bytes \<Rightarrow> bytes \<times> bytes" where
  "crypto_box_keypair x = (crypto_scalarmult_base x, x)"

definition crypto_box_beforenm :: "bytes \<Rightarrow> bytes \<Rightarrow> bytes" where
  "crypto_box_beforenm y x = crypto_core_hsalsa20 (replicate 16 0) (crypto_scalarmult x y) salsa_sigma"

definition crypto_box_afternm :: "bytes \<Rightarrow> nat \<Rightarrow> bytes \<Rightarrow> bytes \<Rightarrow> bytes option" where
  "crypto_box_afternm m d n k = crypto_secretbox m d n k"

definition crypto_box_open_afternm :: "bytes \<Rightarrow> nat \<Rightarrow> bytes \<Rightarrow> bytes \<Rightarrow> bytes option" where
  "crypto_box_open_afternm c d n k = crypto_secretbox_open c d n k"

definition crypto_box :: "bytes \<Rightarrow> nat \<Rightarrow> bytes \<Rightarrow> bytes \<Rightarrow> bytes \<Rightarrow> bytes option" where
  "crypto_box m d n y x = (let k = crypto_box_beforenm y x in crypto_box_afternm m d n k)"

definition crypto_box_open :: "bytes \<Rightarrow> nat \<Rightarrow> bytes \<Rightarrow> bytes \<Rightarrow> bytes \<Rightarrow> bytes option" where
  "crypto_box_open c d n y x = (let k = crypto_box_beforenm y x in crypto_box_open_afternm c d n k)"

end
