(* ===== verification/Sha512.thy ===== *)
theory Sha512
  imports Tweetnacl Sha256
begin

text \<open>The hash of \<open>cmd/tweetnacl.c\<close> (\<open>crypto_hashblocks\<close>, \<open>crypto_hash\<close>) is the SHA-512
  of the standard. The standard is written here on its own terms: the message schedule as a recursive
  function of the step number, the working variables as a tuple, the padded message as one byte
  string cut into blocks of 128 bytes. The code keeps a window of sixteen schedule words that it
  moves in place, writes the hash state back to bytes between calls, and builds the last one or two
  blocks in a buffer of 256 bytes; the lemmas below show that these come to the same.\<close>

unbundle bit_operations_syntax


section \<open>The standard\<close>

text \<open>FIPS 180-4, sections 4.1.3, 5.1.2 and 6.4, as in the theory of SHA-256 and with the same
  table of constants as the code.\<close>

definition big_Sigma :: "nat \<Rightarrow> nat \<Rightarrow> nat \<Rightarrow> word64 \<Rightarrow> word64" where
  "big_Sigma i j k x = word_rotr i x XOR word_rotr j x XOR word_rotr k x"

definition small_Sigma :: "nat \<Rightarrow> nat \<Rightarrow> nat \<Rightarrow> word64 \<Rightarrow> word64" where
  "small_Sigma i j k x = word_rotr i x XOR word_rotr j x XOR drop_bit k x"

definition be_number :: "bytes \<Rightarrow> nat" where
  "be_number bs = foldl (\<lambda>v b. 256 * v + unat b) 0 bs"

definition message_word :: "bytes \<Rightarrow> nat \<Rightarrow> word64" where
  "message_word p t = word_of_nat (be_number (take 8 (drop (8 * t) p)))"

fun schedule :: "bytes \<Rightarrow> nat \<Rightarrow> word64" where
  "schedule p t = (if t < 16 then message_word p t
     else small_Sigma 19 61 6 (schedule p (t - 2)) + schedule p (t - 7) +
          small_Sigma 1 8 7 (schedule p (t - 15)) + schedule p (t - 16))"

declare schedule.simps [simp del]

type_synonym vars512 = "word64 \<times> word64 \<times> word64 \<times> word64 \<times> word64 \<times> word64 \<times> word64 \<times> word64"

definition std_step :: "word64 \<Rightarrow> word64 \<Rightarrow> vars512 \<Rightarrow> vars512" where
  "std_step K W v = (case v of (a, b, c, d, e, f, g, h) \<Rightarrow>
    (let T1 = h + big_Sigma 14 18 41 e + ((e AND f) XOR (NOT e AND g)) + K + W;
         T2 = big_Sigma 28 34 39 a + ((a AND b) XOR (a AND c) XOR (b AND c))
     in (T1 + T2, a, b, c, d + T1, e, f, g)))"

primrec std_steps :: "bytes \<Rightarrow> vars512 \<Rightarrow> nat \<Rightarrow> vars512" where
  "std_steps p v 0 = v"
| "std_steps p v (Suc t) = std_step (sha512_K ! t) (schedule p t) (std_steps p v t)"

definition std_compress :: "vars512 \<Rightarrow> bytes \<Rightarrow> vars512" where
  "std_compress v p =
    (case v of (h0, h1, h2, h3, h4, h5, h6, h7) \<Rightarrow> (case std_steps p v 80 of (a, b, c, d, e, f, g, h) \<Rightarrow>
       (h0 + a, h1 + b, h2 + c, h3 + d, h4 + e, h5 + f, h6 + g, h7 + h)))"

definition var_words :: "vars512 \<Rightarrow> word64 list" where
  "var_words v = (case v of (a, b, c, d, e, f, g, h) \<Rightarrow> [a, b, c, d, e, f, g, h])"

definition be_bytes :: "nat \<Rightarrow> nat \<Rightarrow> bytes" where
  "be_bytes n x = map (\<lambda>i. word_of_nat (x div 256 ^ (n - 1 - i))) [0..<n]"

definition std_sha512 :: "bytes \<Rightarrow> bytes" where
  "std_sha512 m =
    (let zeros = (239 - length m mod 128) mod 128;
         message = m @ [0x80] @ replicate zeros 0 @ be_bytes 16 (8 * length m);
         start = (0x6a09e667f3bcc908, 0xbb67ae8584caa73b, 0x3c6ef372fe94f82b, 0xa54ff53a5f1d36f1,
                  0x510e527fade682d1, 0x9b05688c2b3e6c1f, 0x1f83d9abfb41bd6b, 0x5be0cd19137e2179)
     in concat (map (\<lambda>x. be_bytes 8 (unat x)) (var_words (foldl std_compress start (chunks 128 message)))))"

section \<open>Words and bytes\<close>

lemma R_rotr:
  assumes "0 < n" and "n < 64"
  shows "sha512_R x n = word_rotr n x"
proof (rule bit_word_eqI)
  fix k
  assume "k < LENGTH(64)"
  then have k: "k < 64" by simp
  have high: "\<not> bit x (n + k)" if "64 \<le> n + k" using that bit_imp_le_length [of x "n + k"] by auto
  show "bit (sha512_R x n) k = bit (word_rotr n x) k"
  proof (cases "k + n < 64")
    case True
    moreover from True have "\<not> 64 - n \<le> k" by linarith
    ultimately show ?thesis
      using k by (simp add: sha512_R_def bit_or_iff bit_drop_bit_eq bit_push_bit_iff bit_word_rotr_iff add.commute)
  next
    case False
    then have "(k + n) mod 64 = k - (64 - n)" "64 - n \<le> k" using k assms by (simp_all add: le_mod_geq)
    then show ?thesis
      using False k assms high
      by (simp add: sha512_R_def bit_or_iff bit_drop_bit_eq bit_push_bit_iff bit_word_rotr_iff add.commute)
  qed
qed

lemma sigmas:
  "Sigma0 = big_Sigma 28 34 39" "Sigma1 = big_Sigma 14 18 41"
  "sigma0 = small_Sigma 1 8 7" "sigma1 = small_Sigma 19 61 6"
  by (simp_all add: fun_eq_iff Sigma0_def Sigma1_def sigma0_def sigma1_def big_Sigma_def small_Sigma_def R_rotr)

lemma shift_in: "push_bit 8 u OR ucast (b :: byte) = 256 * u + (ucast b :: word64)"
proof -
  have "push_bit 8 u OR (ucast b :: word64) = push_bit 8 u + ucast b"
    by (subst disjunctive_add) (auto simp: bit_push_bit_iff bit_ucast_iff dest: bit_imp_le_length)
  then show ?thesis by (simp add: push_bit_eq_mult)
qed

lemma dl64_number: "8 \<le> length x \<Longrightarrow> dl64 x = word_of_nat (be_number (take 8 x))"
proof -
  assume l: "8 \<le> length x"
  have "foldl (\<lambda>u b. push_bit 8 u OR ucast b) (word_of_nat v) bs = (word_of_nat (foldl (\<lambda>v b. 256 * v + unat b) v bs) :: word64)" for v and bs :: bytes
  proof (induction bs arbitrary: v)
    case (Cons b bs)
    have "push_bit 8 (word_of_nat v) OR ucast b = (word_of_nat (256 * v + unat b) :: word64)" by (simp add: shift_in)
    then show ?case using Cons [of "256 * v + unat b"] by simp
  qed simp
  from this [of 0 "take 8 x"] have "foldl (\<lambda>u b. push_bit 8 u OR ucast b) 0 (take 8 x) = (word_of_nat (be_number (take 8 x)) :: word64)"
    by (simp add: be_number_def)
  moreover have "take 8 x = map ((!) x) [0..<8]" using l by (simp add: take_map nth_equalityI list_eq_iff_nth_eq)
  ultimately show ?thesis by (simp add: dl64_def foldl_map)
qed

lemma dl64_message: "8 * t + 8 \<le> length p \<Longrightarrow> dl64 (drop (8 * t) p) = message_word p t"
  by (simp add: dl64_number message_word_def)

lemma ts64_bytes: "ts64 u = be_bytes 8 (unat u)"
proof -
  have "(256::nat) ^ k = 2 ^ (8 * k)" for k by (simp add: power_mult)
  then show ?thesis by (simp add: ts64_def be_bytes_def of_nat_byte)
qed


section \<open>One block\<close>

text \<open>The sixteen words the code keeps are a window of the schedule, moved in place.\<close>

lemma window_step:
  assumes "j \<le> 16"
  shows "length (foldl sha512_schedule (map (schedule p) [16 * b..<16 * b + 16]) [0..<j]) = 16 \<and>
    (\<forall>k < 16. foldl sha512_schedule (map (schedule p) [16 * b..<16 * b + 16]) [0..<j] ! k =
       schedule p (16 * b + (if k < j then 16 + k else k)))"
  using assms
proof (induction j)
  case (Suc j)
  let ?w = "foldl sha512_schedule (map (schedule p) [16 * b..<16 * b + 16]) [0..<j]"
  have j: "j < 16" using Suc.prems by simp
  have l: "length ?w = 16" and w: "\<And>k. k < 16 \<Longrightarrow> ?w ! k = schedule p (16 * b + (if k < j then 16 + k else k))"
    using Suc.IH j by simp_all
  have i9: "16 * b + (if (j + 9) mod 16 < j then 16 + (j + 9) mod 16 else (j + 9) mod 16) = 16 * b + 16 + j - 7"
  proof (cases "j < 7")
    case False
    then have "(j + 9) mod 16 = j - 7" using j by (simp add: le_mod_geq)
    then show ?thesis using False by simp
  qed simp
  have i1: "16 * b + (if (j + 1) mod 16 < j then 16 + (j + 1) mod 16 else (j + 1) mod 16) = 16 * b + 16 + j - 15"
  proof (cases "j < 15")
    case False
    then have "j = 15" using j by simp
    then show ?thesis by simp
  qed simp
  have i14: "16 * b + (if (j + 14) mod 16 < j then 16 + (j + 14) mod 16 else (j + 14) mod 16) = 16 * b + 16 + j - 2"
  proof (cases "j < 2")
    case False
    then have "(j + 14) mod 16 = j - 2" using j by (simp add: le_mod_geq)
    then show ?thesis using False by simp
  qed simp
  have new: "?w ! j + (?w ! ((j + 9) mod 16) + sigma0 (?w ! ((j + 1) mod 16)) + sigma1 (?w ! ((j + 14) mod 16))) =
      schedule p (16 * b + 16 + j)"
  proof -
    have "?w ! ((j + 9) mod 16) = schedule p (16 * b + 16 + j - 7)" "?w ! ((j + 1) mod 16) = schedule p (16 * b + 16 + j - 15)"
      "?w ! ((j + 14) mod 16) = schedule p (16 * b + 16 + j - 2)" "?w ! j = schedule p (16 * b + 16 + j - 16)"
      using w [of "(j + 9) mod 16"] w [of "(j + 1) mod 16"] w [of "(j + 14) mod 16"] w [OF j] i9 i1 i14 by (simp_all only: mod_less_divisor) simp_all
    moreover have "schedule p (16 * b + 16 + j) = small_Sigma 19 61 6 (schedule p (16 * b + 16 + j - 2)) + schedule p (16 * b + 16 + j - 7) +
        small_Sigma 1 8 7 (schedule p (16 * b + 16 + j - 15)) + schedule p (16 * b + 16 + j - 16)"
      by (subst schedule.simps) simp
    ultimately show ?thesis by (simp only: sigmas ac_simps)
  qed
  have "foldl sha512_schedule (map (schedule p) [16 * b..<16 * b + 16]) [0..<Suc j] = ?w[j := schedule p (16 * b + 16 + j)]"
    using new by (simp add: sha512_schedule_def)
  then show ?case using l w j by (auto simp: nth_list_update less_Suc_eq add.assoc)
qed simp

lemma window_next:
  "foldl sha512_schedule (map (schedule p) [16 * b..<16 * b + 16]) [0..<16] = map (schedule p) [16 * Suc b..<16 * Suc b + 16]"
  using window_step [of 16 p b] by (intro nth_equalityI) (auto simp: ac_simps)

lemma round_std: "sha512_round (var_words v, w) i =
  (var_words (std_step (sha512_K ! i) (w ! (i mod 16)) v), if i mod 16 = 15 then foldl sha512_schedule w [0..<16] else w)"
proof -
  obtain a b c d e f g h where v: "v = (a, b, c, d, e, f, g, h)" by (metis prod.exhaust)
  have u: "[0..<8] = [0, 1, 2, 3, 4, 5, 6, 7 :: nat]" by (simp add: upt_rec)
  show ?thesis
    by (simp add: sha512_round_def var_words_def std_step_def v Let_def u sigmas sha512_Ch_def sha512_Maj_def ac_simps del: upt_Suc)
qed

lemma rounds_std:
  "foldl sha512_round (var_words v, map (schedule p) [0..<16]) [0..<n] =
    (var_words (std_steps p v n), map (schedule p) [16 * (n div 16)..<16 * (n div 16) + 16])"
proof (induction n)
  case (Suc n)
  let ?w = "map (schedule p) [16 * (n div 16)..<16 * (n div 16) + 16]"
  have w: "?w ! (n mod 16) = schedule p n" by simp
  have d: "Suc n div 16 = (if n mod 16 = 15 then Suc (n div 16) else n div 16)"
    by (simp add: div_Suc) presburger
  have "foldl sha512_round (var_words v, map (schedule p) [0..<16]) [0..<Suc n] =
      sha512_round (var_words (std_steps p v n), ?w) n"
    using Suc by (simp del: upt_Suc add: upt_Suc_append)
  then show ?case
    using w by (simp add: round_std d window_next del: upt_Suc)
qed simp

lemma block_std:
  assumes "128 \<le> length p"
  shows "sha512_block (var_words v) p = var_words (std_compress v p)"
proof -
  have "map (\<lambda>i. dl64 (drop (8 * i) p)) [0..<16] = map (schedule p) [0..<16]"
    using assms by (intro map_cong refl) (simp add: dl64_message schedule.simps)
  then have "sha512_block (var_words v) p = map2 (+) (var_words (std_steps p v 80)) (var_words v)"
    unfolding sha512_block_def Let_def by (simp only: rounds_std fst_conv)
  then show ?thesis
    by (simp only: std_compress_def var_words_def split: prod.splits) (simp add: add.commute)
qed


section \<open>The blocks of a message\<close>

lemma schedule_take: "128 \<le> length p \<Longrightarrow> schedule (take 128 p) t = schedule p t"
proof (induction t rule: less_induct)
  case (less t)
  show ?case
  proof (cases "t < 16")
    case True
    then have "message_word (take 128 p) t = message_word p t" by (simp add: message_word_def drop_take min_def)
    then show ?thesis using True by (simp add: schedule.simps)
  next
    case False
    then show ?thesis
      using less by (subst (1 2) schedule.simps) simp
  qed
qed

lemma compress_take:
  assumes "128 \<le> length p"
  shows "std_compress v (take 128 p) = std_compress v p"
proof -
  have "std_steps (take 128 p) v n = std_steps p v n" for n
    using assms by (induction n) (simp_all add: schedule_take)
  then show ?thesis by (simp add: std_compress_def)
qed

lemma blocks_std:
  "128 * n \<le> length m \<Longrightarrow>
   foldl (\<lambda>z i. sha512_block z (drop (128 * i) m)) (var_words v) [0..<n] =
     var_words (foldl std_compress v (chunks 128 (take (128 * n) m)))"
proof (induction n)
  case (Suc n)
  let ?p = "drop (128 * n) m"
  have "take (128 * Suc n) m = take (128 * n) m @ take 128 ?p" by (metis mult_Suc_right add.commute take_add)
  moreover have "length (take 128 ?p) = 128" using Suc.prems by simp
  ultimately have "chunks 128 (take (128 * Suc n) m) = chunks 128 (take (128 * n) m) @ [take 128 ?p]"
    using Suc.prems by (simp add: chunks_append chunks_exact)
  then show ?case
    using Suc by (simp add: block_std compress_take)
qed simp

lemma be_bytes_Suc: "be_bytes (Suc n) x = be_bytes n (x div 256) @ [word_of_nat x]"
proof -
  have "x div 256 ^ (n - i) = x div 256 div 256 ^ (n - 1 - i)" if "i < n" for i
    using that by (simp add: Suc_diff_Suc flip: div_mult2_eq power_Suc)
  then show ?thesis by (simp add: be_bytes_def)
qed

lemma be_number_bytes: "be_number (be_bytes n x) = x mod 256 ^ n"
proof (induction n arbitrary: x)
  case (Suc n)
  have "be_number (be_bytes (Suc n) x) = 256 * (x div 256 mod 256 ^ n) + x mod 256"
    using Suc [of "x div 256"] by (simp add: be_bytes_Suc be_number_def unat_of_nat)
  also have "\<dots> = x mod (256 * 256 ^ n)" by (simp add: mod_mult2_eq)
  finally show ?case by simp
qed (simp add: be_bytes_def be_number_def)

lemma length_be_bytes [simp]: "length (be_bytes n x) = n"
  by (simp add: be_bytes_def)

lemma dl64_ts64: "dl64 (ts64 u @ x) = u"
proof -
  have "unat u < 2 ^ 64" using unsigned_less [where ?'a = nat, of u] by simp
  then have "be_number (be_bytes 8 (unat u)) = unat u" by (simp add: be_number_bytes)
  then show ?thesis by (simp add: ts64_bytes dl64_number)
qed

lemma state_read:
  "map (\<lambda>i. dl64 (drop (8 * i) (concat (map ts64 (var_words v))))) [0..<8] = var_words v"
proof -
  have l: "length (ts64 u) = 8" for u by (simp add: ts64_bytes)
  have u: "[0..<8] = [0, 1, 2, 3, 4, 5, 6, 7 :: nat]" by (simp add: upt_rec)
  have one: "dl64 (ts64 u) = u" for u using dl64_ts64 [of u "[]"] by simp
  obtain a b c d e f g h where v: "v = (a, b, c, d, e, f, g, h)" by (metis prod.exhaust)
  show ?thesis unfolding u v by (simp add: var_words_def dl64_ts64 l one)
qed

lemma hashblocks_std:
  "map (\<lambda>i. dl64 (drop (8 * i) x)) [0..<8] = var_words v \<Longrightarrow>
   crypto_hashblocks x m = concat (map ts64 (var_words (foldl std_compress v (chunks 128 (take (length m - length m mod 128) m)))))"
  using blocks_std [of "length m div 128" m v]
  by (simp only: crypto_hashblocks_def Let_def minus_mod_eq_mult_div)

section \<open>The last blocks\<close>

lemma byte_window: "8 * k + 8 \<le> n \<Longrightarrow> (word_of_nat ((x mod 2 ^ n) div 256 ^ k) :: byte) = word_of_nat (x div 256 ^ k)"
proof -
  assume k: "8 * k + 8 \<le> n"
  have "8 \<le> n - 8 * k" using k by linarith
  then have "take_bit 8 (drop_bit (8 * k) (take_bit n x)) = take_bit 8 (drop_bit (8 * k) x)"
    using k by (auto simp: drop_bit_take_bit min_def)
  moreover have "(256::nat) ^ k = 2 ^ (8 * k)" by (simp add: power_mult)
  ultimately show ?thesis
    by (intro word_unat_eq_iff [THEN iffD2]) (simp add: unat_of_nat take_bit_eq_mod drop_bit_eq_div)
qed

lemma be_bytes_mod: "be_bytes 8 (x mod 2 ^ 64) = be_bytes 8 x"
  unfolding be_bytes_def by (intro map_cong refl byte_window) simp

lemma be_bytes_16:
  assumes "x < 2 ^ 72"
  shows "be_bytes 16 x = replicate 7 0 @ [word_of_nat (x div 2 ^ 64)] @ be_bytes 8 x"
proof -
  have u: "[0..<16] = [0..<7] @ [7] @ map (\<lambda>i. i + 8) [0..<8 :: nat]" by (simp add: upt_rec)
  have "x div 256 ^ (15 - i) = 0" if "i < 7" for i
  proof -
    have "(2::nat) ^ 72 \<le> 256 ^ (15 - i)"
      using that power_increasing [of 9 "15 - i" "256 :: nat"] by simp
    then show ?thesis using assms by simp
  qed
  then have "map (\<lambda>i. word_of_nat (x div 256 ^ (15 - i)) :: byte) [0..<7] = replicate 7 0"
    by (intro nth_equalityI) simp_all
  then show ?thesis unfolding be_bytes_def u by (simp add: comp_def)
qed

lemma tail_std:
  assumes m: "length m < 2 ^ 64" and n: "n = length m mod 128" and e: "e = (if n < 112 then 128 else 256)"
    and x: "x = drop (length m - n) m @ replicate (256 - n) 0"
  shows "take (e - 8) ((x[n := 128])[e - 9 := ucast (drop_bit 61 (of_nat (length m) :: word64))]) @ ts64 (push_bit 3 (of_nat (length m))) =
    drop (length m - n) m @ [0x80] @ replicate ((239 - n) mod 128) 0 @ be_bytes 16 (8 * length m)"
proof -
  let ?r = "drop (length m - n) m" and ?v = "ucast (drop_bit 61 (of_nat (length m) :: word64)) :: byte"
  have n128: "n < 128" using n by simp
  have r: "length ?r = n" using n by simp
  let ?k = "e - 10 - n"
  have "x[n := 128] = ?r @ [128] @ replicate (255 - n) 0"
    using r n128 by (simp add: x list_update_append flip: replicate_Suc) (simp add: Suc_diff_Suc [symmetric])
  moreover have "255 - n = ?k + (1 + (264 - e))" using n128 e by auto
  ultimately have x1: "x[n := 128] = ?r @ [128] @ replicate ?k 0 @ [0] @ replicate (264 - e) 0"
    by (simp only: replicate_add) simp
  have "take (e - 8) ((x[n := 128])[e - 9 := ?v]) = ?r @ [128] @ replicate ?k 0 @ [?v]"
  proof -
    have l: "length (?r @ [128] @ replicate ?k 0) = e - 9" using r n128 e by auto
    then have "(x[n := 128])[e - 9 := ?v] = (?r @ [128] @ replicate ?k 0) @ ?v # replicate (264 - e) 0"
      unfolding x1 using list_update_length [of "?r @ [128] @ replicate ?k 0" 0 "replicate (264 - e) 0" ?v] by simp
    moreover have "e - 8 = Suc (length (?r @ [128] @ replicate ?k 0))" using l e by auto
    ultimately show ?thesis by (simp only: take_append take_all) simp
  qed
  moreover have "?k = (239 - n) mod 128 + 7" using n128 e by (auto simp: le_mod_geq)
  moreover have "?v = word_of_nat (8 * length m div 2 ^ 64)" using m by (simp add: of_nat_byte unat_of_nat)
  moreover have "ts64 (push_bit 3 (of_nat (length m))) = be_bytes 8 (8 * length m)"
  proof -
    have "push_bit 3 (of_nat (length m)) = (of_nat (8 * length m) :: word64)" by (simp add: push_bit_eq_mult mult.commute)
    then show ?thesis using be_bytes_mod [of "8 * length m"] by (simp add: ts64_bytes unat_of_nat del: of_nat_mult)
  qed
  ultimately show ?thesis
    using m by (simp add: be_bytes_16 replicate_add)
qed

text \<open>The code computes the hash of the standard on every message whose length fits its counter.\<close>

lemma crypto_hash_std:
  assumes m: "length m < 2 ^ 64"
  shows "crypto_hash m = std_sha512 m"
proof -
  define v :: vars512 where "v = (0x6a09e667f3bcc908, 0xbb67ae8584caa73b, 0x3c6ef372fe94f82b, 0xa54ff53a5f1d36f1,
      0x510e527fade682d1, 0x9b05688c2b3e6c1f, 0x1f83d9abfb41bd6b, 0x5be0cd19137e2179)"
  define n where "n = length m mod 128"
  define t where "t = drop (length m - n) m @ [0x80] @ replicate ((239 - n) mod 128) 0 @ be_bytes 16 (8 * length m)"
  have iv: "map (\<lambda>i. dl64 (drop (8 * i) sha512_iv)) [0..<8] = var_words v" unfolding v_def by code_simp
  have n128: "n < 128" by (simp add: n_def)
  have t: "128 dvd length t"
    using n128 by (cases "n < 112") (auto simp: t_def n_def le_mod_geq)
  have "crypto_hash m = crypto_hashblocks (crypto_hashblocks sha512_iv m) t"
    unfolding crypto_hash_def Let_def t_def n_def
    by (subst tail_std [OF m refl refl refl, symmetric]) simp
  also have "\<dots> = concat (map ts64 (var_words (foldl std_compress v (chunks 128 (take (length m - n) m) @ chunks 128 t))))"
    using t by (simp add: hashblocks_std [OF iv] hashblocks_std [OF state_read] n_def)
  also have "chunks 128 (take (length m - n) m) @ chunks 128 t = chunks 128 (take (length m - n) m @ t)"
    by (rule chunks_append [symmetric]) (simp_all add: n_def minus_mod_eq_mult_div)
  also have "take (length m - n) m @ t = m @ [0x80] @ replicate ((239 - n) mod 128) 0 @ be_bytes 16 (8 * length m)"
    by (simp add: t_def flip: append_assoc)
  finally show ?thesis
    by (simp add: std_sha512_def v_def n_def ts64_bytes [abs_def])
qed

end
