(* ===== verification/Salsa20.thy ===== *)
theory Salsa20
  imports Secretbox Sha512
begin

text \<open>
  Salsa20 against its specification: \<open>core\<close> of cmd/tweetnacl.c, which runs twenty rounds over the
  columns of a matrix it transposes each time, is the tenth double round of quarter rounds, and its
  words above 32 bits never reach the result.
\<close>

unbundle bit_operations_syntax

section \<open>The specification\<close>

text \<open>Salsa20 as its specification has it: a double round is a round on the columns and one on the
  rows, each of four quarter rounds; the hash adds the state to its tenth double round.\<close>

definition quarterround :: "word32 \<times> word32 \<times> word32 \<times> word32 \<Rightarrow> word32 \<times> word32 \<times> word32 \<times> word32" where
  "quarterround y = (case y of (y0, y1, y2, y3) \<Rightarrow>
    (let z1 = y1 XOR word_rotl 7 (y0 + y3);
         z2 = y2 XOR word_rotl 9 (z1 + y0);
         z3 = y3 XOR word_rotl 13 (z2 + z1);
         z0 = y0 XOR word_rotl 18 (z3 + z2)
     in (z0, z1, z2, z3)))"

definition rowround :: "word32 list \<Rightarrow> word32 list" where
  "rowround y =
    (let (z0, z1, z2, z3) = quarterround (y ! 0, y ! 1, y ! 2, y ! 3);
         (z5, z6, z7, z4) = quarterround (y ! 5, y ! 6, y ! 7, y ! 4);
         (z10, z11, z8, z9) = quarterround (y ! 10, y ! 11, y ! 8, y ! 9);
         (z15, z12, z13, z14) = quarterround (y ! 15, y ! 12, y ! 13, y ! 14)
     in [z0, z1, z2, z3, z4, z5, z6, z7, z8, z9, z10, z11, z12, z13, z14, z15])"

definition columnround :: "word32 list \<Rightarrow> word32 list" where
  "columnround x =
    (let (y0, y4, y8, y12) = quarterround (x ! 0, x ! 4, x ! 8, x ! 12);
         (y5, y9, y13, y1) = quarterround (x ! 5, x ! 9, x ! 13, x ! 1);
         (y10, y14, y2, y6) = quarterround (x ! 10, x ! 14, x ! 2, x ! 6);
         (y15, y3, y7, y11) = quarterround (x ! 15, x ! 3, x ! 7, x ! 11)
     in [y0, y1, y2, y3, y4, y5, y6, y7, y8, y9, y10, y11, y12, y13, y14, y15])"

definition doubleround :: "word32 list \<Rightarrow> word32 list" where
  "doubleround x = rowround (columnround x)"

definition le_word :: "bytes \<Rightarrow> nat \<Rightarrow> word32" where
  "le_word b i = word_of_nat (le_value (take 4 (drop (4 * i) b)))"

definition word_le :: "word32 \<Rightarrow> bytes" where
  "word_le w = map (\<lambda>i. word_of_nat (unat w div 256 ^ i)) [0..<4]"

text \<open>The state for a key of 32 bytes: the constant on the diagonal, the input in between.\<close>

definition salsa_state :: "bytes \<Rightarrow> bytes \<Rightarrow> bytes \<Rightarrow> word32 list" where
  "salsa_state inp k c =
    [le_word c 0, le_word k 0, le_word k 1, le_word k 2, le_word k 3,
     le_word c 1, le_word inp 0, le_word inp 1, le_word inp 2, le_word inp 3,
     le_word c 2, le_word k 4, le_word k 5, le_word k 6, le_word k 7, le_word c 3]"

definition salsa20_hash :: "bytes \<Rightarrow> bytes \<Rightarrow> bytes \<Rightarrow> bytes" where
  "salsa20_hash inp k c =
    (let x = salsa_state inp k c in concat (map word_le (map2 (+) x ((doubleround ^^ 10) x))))"

definition hsalsa20_hash :: "bytes \<Rightarrow> bytes \<Rightarrow> bytes \<Rightarrow> bytes" where
  "hsalsa20_hash inp k c =
    (let z = (doubleround ^^ 10) (salsa_state inp k c)
     in concat (map (\<lambda>i. word_le (z ! i)) [0, 5, 10, 15, 6, 7, 8, 9]))"

section \<open>Low words\<close>

abbreviation low :: "ulong \<Rightarrow> word32" where
  "low x \<equiv> ucast x"

lemma low_ops: "low (a + b) = low a + low b" "low (a - b) = low a - low b" "low (a XOR b) = low a XOR low b"
proof -
  show "low (a XOR b) = low a XOR low b" by (rule bit_word_eqI) (simp add: bit_ucast_iff bit_xor_iff)
  have k: "(word_of_int (n mod 2 ^ 64) :: word32) = word_of_int n" for n :: int
  proof -
    have "take_bit 32 (take_bit 64 n) = take_bit 32 n" by simp
    then show ?thesis unfolding word_of_int_eq_iff take_bit_eq_mod by simp
  qed
  have "low x = word_of_int (uint x)" for x by (rule ucast_eq)
  moreover have "uint (a + b) = (uint a + uint b) mod 2 ^ 64" "uint (a - b) = (uint a - uint b) mod 2 ^ 64"
    by (simp_all add: uint_word_ariths)
  ultimately show "low (a + b) = low a + low b" "low (a - b) = low a - low b" by (simp_all only: k) simp_all
qed

lemma bit_low: "bit (low x) n \<longleftrightarrow> n < 32 \<and> bit x n"
  by (auto simp: bit_ucast_iff dest: bit_imp_le_length)

lemma low_L32: "0 < c \<Longrightarrow> c < 32 \<Longrightarrow> low (L32 x c) = word_rotl c (low x)"
proof (rule bit_word_eqI)
  fix n
  assume c: "0 < c" "c < 32" and "n < LENGTH(32)"
  then have n: "n < 32" by simp
  have "(0xffffffff :: ulong) = mask 32" by (simp add: mask_eq_exp_minus_1)
  then have L: "L32 x c = push_bit c x OR drop_bit (32 - c) (take_bit 32 x)" by (simp only: L32_def take_bit_eq_mask)
  show "bit (low (L32 x c)) n = bit (word_rotl c (low x)) n"
  proof (cases "n < c")
    case True
    then have "(n + (32 - c)) mod 32 = 32 - c + n" "32 - c + n < 32" using c by simp_all
    then show ?thesis using True n c
      by (simp only: bit_low L bit_or_iff bit_push_bit_iff bit_drop_bit_eq o_apply bit_take_bit_iff bit_word_rotl_iff) simp
  next
    case False
    then have "(n + (32 - c)) mod 32 = n - c" "\<not> 32 - c + n < 32" "n - c < 32" using c n by (simp_all add: le_mod_geq)
    then show ?thesis using False n c
      by (simp only: bit_low L bit_or_iff bit_push_bit_iff bit_drop_bit_eq o_apply bit_take_bit_iff bit_word_rotl_iff) simp
  qed
qed

text \<open>A column of the code is a quarter round whose results go to a row: a round of the code is a
  round on the columns, transposed.\<close>

definition transposed :: "'a list \<Rightarrow> 'a list" where
  "transposed x = [x ! 0, x ! 4, x ! 8, x ! 12, x ! 1, x ! 5, x ! 9, x ! 13, x ! 2, x ! 6, x ! 10, x ! 14, x ! 3, x ! 7, x ! 11, x ! 15]"

definition quarter64 :: "ulong \<times> ulong \<times> ulong \<times> ulong \<Rightarrow> ulong \<times> ulong \<times> ulong \<times> ulong" where
  "quarter64 t = (case t of (t0, t1, t2, t3) \<Rightarrow>
    (let t1 = t1 XOR L32 (t0 + t3) 7;
         t2 = t2 XOR L32 (t1 + t0) 9;
         t3 = t3 XOR L32 (t2 + t1) 13;
         t0 = t0 XOR L32 (t3 + t2) 18
     in (t0, t1, t2, t3)))"

lemma quarter64_low:
  "quarter64 (a, b, c, d) = (a', b', c', d') \<Longrightarrow> quarterround (low a, low b, low c, low d) = (low a', low b', low c', low d')"
  by (auto simp: quarter64_def quarterround_def Let_def low_ops low_L32)

lemma salsa_column_quarter:
  assumes "quarter64 (x ! (5 * j mod 16), x ! ((5 * j + 4) mod 16), x ! ((5 * j + 8) mod 16), x ! ((5 * j + 12) mod 16)) = (a, b, c, d)"
  shows "salsa_column x w j = w[4 * j + j mod 4 := a, 4 * j + (j + 1) mod 4 := b, 4 * j + (j + 2) mod 4 := c, 4 * j + (j + 3) mod 4 := d]"
  using assms by (auto simp: salsa_column_def quarter64_def upt_4 Let_def)

lemma salsa_round_low:
  assumes "length x = 16"
  shows "map low (salsa_round x) = transposed (columnround (map low x))" and "length (salsa_round x) = 16"
proof -
  obtain a0 a1 a2 a3 where a: "quarter64 (x ! 0, x ! 4, x ! 8, x ! 12) = (a0, a1, a2, a3)" by (metis prod_cases4)
  obtain b0 b1 b2 b3 where b: "quarter64 (x ! 5, x ! 9, x ! 13, x ! 1) = (b0, b1, b2, b3)" by (metis prod_cases4)
  obtain c0 c1 c2 c3 where c: "quarter64 (x ! 10, x ! 14, x ! 2, x ! 6) = (c0, c1, c2, c3)" by (metis prod_cases4)
  obtain d0 d1 d2 d3 where d: "quarter64 (x ! 15, x ! 3, x ! 7, x ! 11) = (d0, d1, d2, d3)" by (metis prod_cases4)
  have r: "replicate 16 (0 :: ulong) = [0, 0, 0, 0, 0, 0, 0, 0, 0, 0, 0, 0, 0, 0, 0, 0]" by (simp add: eval_nat_numeral)
  have w: "salsa_round x = [a0, a1, a2, a3, b3, b0, b1, b2, c2, c3, c0, c1, d1, d2, d3, d0]"
    unfolding salsa_round_def upt_4 foldl.simps r
    using salsa_column_quarter [of x 0 a0 a1 a2 a3] salsa_column_quarter [of x 1 b0 b1 b2 b3]
      salsa_column_quarter [of x 2 c0 c1 c2 c3] salsa_column_quarter [of x 3 d0 d1 d2 d3] a b c d
    by simp
  show "map low (salsa_round x) = transposed (columnround (map low x))"
    using assms quarter64_low [OF a] quarter64_low [OF b] quarter64_low [OF c] quarter64_low [OF d]
    by (simp add: w columnround_def transposed_def)
  show "length (salsa_round x) = 16" by (simp add: w)
qed

lemma rowround_transposed: "transposed (columnround (transposed x)) = rowround x"
  by (simp add: rowround_def columnround_def transposed_def split: prod.splits)

lemma rounds_low:
  assumes "length x = 16"
  shows "map low ((salsa_round ^^ (2 * n)) x) = (doubleround ^^ n) (map low x) \<and> length ((salsa_round ^^ (2 * n)) x) = 16"
proof (induction n)
  case (Suc n)
  let ?y = "(salsa_round ^^ (2 * n)) x"
  have "(salsa_round ^^ (2 * Suc n)) x = salsa_round (salsa_round ?y)" by simp
  then show ?case
    using Suc salsa_round_low [of ?y] salsa_round_low [of "salsa_round ?y"] by (simp add: doubleround_def rowround_transposed)
qed (simp add: assms)

section \<open>The core\<close>

lemma ld32_value: "4 \<le> length x \<Longrightarrow> ld32 x = word_of_nat (le_value (take 4 x))"
proof -
  assume l: "4 \<le> length x"
  have t: "take 4 x = [x ! 0, x ! 1, x ! 2, x ! 3]" using l by (intro nth_equalityI) (auto simp: nth_Cons' numeral_eq_Suc less_Suc_eq)
  have "ld32 x = 256 * (256 * (256 * ucast (x ! 3) + ucast (x ! 2)) + ucast (x ! 1)) + ucast (x ! 0)"
    by (simp add: ld32_def Let_def shift_in)
  then show ?thesis by (simp add: t algebra_simps)
qed

lemma low_ld32: "4 * i + 4 \<le> length x \<Longrightarrow> low (ld32 (drop (4 * i) x)) = le_word x i"
proof -
  assume "4 * i + 4 \<le> length x"
  then have "ld32 (drop (4 * i) x) = word_of_nat (le_value (take 4 (drop (4 * i) x)))" by (intro ld32_value) simp
  moreover have "low (word_of_nat n) = word_of_nat n" for n
    by (rule bit_word_eqI) (simp add: bit_low bit_of_nat_iff)
  ultimately show ?thesis by (simp add: le_word_def)
qed

lemma salsa_load_low:
  assumes "16 \<le> length inp" "32 \<le> length k" "16 \<le> length c"
  shows "map low (salsa_load inp k c) = salsa_state inp k c" and "length (salsa_load inp k c) = 16"
proof -
  have r: "replicate 16 (0 :: ulong) = [0, 0, 0, 0, 0, 0, 0, 0, 0, 0, 0, 0, 0, 0, 0, 0]" by (simp add: eval_nat_numeral)
  define f where "f x i = ld32 (drop (4 * i) x)" for x i
  have k: "ld32 (drop (16 + 4 * i) k) = f k (4 + i)" for i by (simp add: f_def add.commute)
  have e: "salsa_load inp k c =
      [f c 0, f k 0, f k 1, f k 2, f k 3, f c 1, f inp 0, f inp 1, f inp 2, f inp 3, f c 2, f k 4, f k 5, f k 6, f k 7, f c 3]"
    unfolding salsa_load_def k f_def [symmetric] upt_4 foldl.simps r by simp
  have "low (f x i) = le_word x i" if "4 * i + 4 \<le> length x" for x i using low_ld32 [OF that] by (simp add: f_def)
  then show "map low (salsa_load inp k c) = salsa_state inp k c" using assms by (simp add: e salsa_state_def)
  show "length (salsa_load inp k c) = 16" by (simp add: e)
qed

lemma st32_low: "st32 u = word_le (low u)"
proof -
  have "ucast (drop_bit (8 * i) u) = (word_of_nat (unat (low u) div 256 ^ i) :: byte)" if "i < 4" for i
  proof -
    have "(256 :: nat) ^ i = 2 ^ (8 * i)" by (simp add: power_mult)
    then have "(word_of_nat (unat (low u) div 256 ^ i) :: byte) = ucast (drop_bit (8 * i) (low u))" by (simp only: of_nat_byte)
    moreover have "ucast (drop_bit (8 * i) u) = (ucast (drop_bit (8 * i) (low u)) :: byte)"
      using that by (intro bit_word_eqI) (auto simp: bit_ucast_iff bit_drop_bit_eq)
    ultimately show ?thesis by simp
  qed
  then show ?thesis by (simp add: st32_def word_le_def)
qed

text \<open>The core is the hash, and with its last argument set the hash without the final addition on the
  eight words that are public.\<close>

lemma list_16: "length x = 16 \<Longrightarrow> x = map ((!) x) [0..<16]"
  by (intro nth_equalityI) simp_all

lemma crypto_core_salsa20_hash:
  assumes "16 \<le> length inp" "32 \<le> length k" "16 \<le> length c"
  shows "crypto_core_salsa20 inp k c = salsa20_hash inp k c"
proof -
  let ?y = "salsa_load inp k c"
  let ?x = "(salsa_round ^^ 20) ?y"
  note y = salsa_load_low [OF assms]
  have x: "map low ?x = (doubleround ^^ 10) (salsa_state inp k c)" "length ?x = 16"
    using rounds_low [OF y(2), of 10] y(1) by simp_all
  have "map2 (+) (map low ?y) (map low ?x) = map (\<lambda>i. low (?x ! i + ?y ! i)) [0..<16]"
    using x(2) y(2) by (intro nth_equalityI) (simp_all add: low_ops add.commute)
  then have "salsa20_hash inp k c = concat (map word_le (map (\<lambda>i. low (?x ! i + ?y ! i)) [0..<16]))"
    by (simp only: salsa20_hash_def Let_def x(1) y(1))
  then show ?thesis
    by (simp only: crypto_core_salsa20_def salsa_core_def Let_def if_False map_map o_def st32_low)
qed

lemma crypto_core_hsalsa20_hash:
  assumes "16 \<le> length inp" "32 \<le> length k" "16 \<le> length c"
  shows "crypto_core_hsalsa20 inp k c = hsalsa20_hash inp k c"
proof -
  let ?y = "salsa_load inp k c"
  define x where "x = (salsa_round ^^ 20) ?y"
  note y = salsa_load_low [OF assms]
  have x: "map low x = (doubleround ^^ 10) (salsa_state inp k c)" "length x = 16"
    using rounds_low [OF y(2), of 10] y(1) by (simp_all add: x_def)
  define s where "s = foldl (\<lambda>x i. x[i := x ! i + ?y ! i]) x [0..<16]"
  have "length (foldl (\<lambda>x i. x[i := x ! i + ?y ! i]) x [0..<n]) = 16 \<and>
      (\<forall>j < 16. foldl (\<lambda>x i. x[i := x ! i + ?y ! i]) x [0..<n] ! j = (if j < n then x ! j + ?y ! j else x ! j))" if "n \<le> 16" for n
    using that by (induction n) (auto simp: x(2) nth_list_update less_Suc_eq)
  from this [of 16] have s: "length s = 16" "\<And>j. j < 16 \<Longrightarrow> s ! j = x ! j + ?y ! j" by (simp_all add: s_def)
  define t where "t = foldl (\<lambda>x i. x[5 * i := x ! (5 * i) - ld32 (drop (4 * i) c),
      6 + i := x ! (6 + i) - ld32 (drop (4 * i) inp)]) s [0..<4]"
  have t: "t ! 0 = s ! 0 - ld32 c" "t ! 5 = s ! 5 - ld32 (drop 4 c)" "t ! 10 = s ! 10 - ld32 (drop 8 c)" "t ! 15 = s ! 15 - ld32 (drop 12 c)"
    "t ! 6 = s ! 6 - ld32 inp" "t ! 7 = s ! 7 - ld32 (drop 4 inp)" "t ! 8 = s ! 8 - ld32 (drop 8 inp)" "t ! 9 = s ! 9 - ld32 (drop 12 inp)"
    using s(1) by (simp_all add: t_def upt_4)
  have w: "low (ld32 c) = le_word c 0" "low (ld32 (drop 4 c)) = le_word c 1" "low (ld32 (drop 8 c)) = le_word c 2" "low (ld32 (drop 12 c)) = le_word c 3"
    "low (ld32 inp) = le_word inp 0" "low (ld32 (drop 4 inp)) = le_word inp 1" "low (ld32 (drop 8 inp)) = le_word inp 2" "low (ld32 (drop 12 inp)) = le_word inp 3"
    using assms low_ld32 [of 0 c] low_ld32 [of 1 c] low_ld32 [of 2 c] low_ld32 [of 3 c]
      low_ld32 [of 0 inp] low_ld32 [of 1 inp] low_ld32 [of 2 inp] low_ld32 [of 3 inp] by simp_all
  have yv: "low (?y ! i) = salsa_state inp k c ! i" if "i < 16" for i using y that by (metis nth_map)
  have xv: "low (x ! i) = (doubleround ^^ 10) (salsa_state inp k c) ! i" if "i < 16" for i using x that by (metis nth_map)
  have d: "low (t ! j) = (doubleround ^^ 10) (salsa_state inp k c) ! j" if "j \<in> {0, 5, 10, 15, 6, 7, 8, 9}" for j
    using that s(2) [of j] xv [of j] yv [of j] t w by (auto simp: low_ops salsa_state_def)
  have "crypto_core_hsalsa20 inp k c =
      concat (map (\<lambda>i. st32 (t ! (5 * i))) [0..<4]) @ concat (map (\<lambda>i. st32 (t ! (6 + i))) [0..<4])"
    by (simp only: crypto_core_hsalsa20_def salsa_core_def Let_def if_True flip: x_def s_def t_def)
  also have "\<dots> = concat (map (\<lambda>j. word_le (low (t ! j))) [0, 5, 10, 15, 6, 7, 8, 9])"
    by (simp add: st32_low upt_4)
  also have "\<dots> = hsalsa20_hash inp k c"
    unfolding hsalsa20_hash_def Let_def by (intro arg_cong [of _ _ concat] map_cong refl) (simp add: d)
  finally show ?thesis .
qed

end
