(* ===== verification/Limbs.thy ===== *)
theory Limbs
  imports Prelude
begin

text \<open>
  Numbers in limbs, least significant first: the value of a list in any base, carrying, and digits,
  which the value determines. The limbs may be negative or exceed the base, as they do between two
  carries of cmd/tweetnacl.c.
\<close>

unbundle bit_operations_syntax

section \<open>Numbers in limbs\<close>

text \<open>The number a list of limbs stands for, least significant limb first, with the base of the
  field and with any other; limbs may be negative or larger than the base.\<close>

primrec num :: "int \<Rightarrow> int list \<Rightarrow> int" where
  "num B [] = 0"
| "num B (x # xs) = x + B * num B xs"

lemma num_append: "num B (xs @ ys) = num B xs + B ^ length xs * num B ys"
  by (induction xs) (simp_all add: algebra_simps)

lemma num_update: "i < length xs \<Longrightarrow> num B (xs[i := y]) = num B xs + (y - xs ! i) * B ^ i"
proof (induction xs arbitrary: i)
  case (Cons x xs)
  then show ?case by (cases i) (simp_all add: ring_distribs mult.left_commute)
qed simp

lemma num_replicate_0 [simp]: "num B (replicate n 0) = 0"
  by (induction n) simp_all

lemma num_map2:
  "length xs = length ys \<Longrightarrow> num B (map2 (+) xs ys) = num B xs + num B ys"
  "length xs = length ys \<Longrightarrow> num B (map2 (-) xs ys) = num B xs - num B ys"
  by (induction xs ys rule: list_induct2) (simp_all add: ring_distribs)

lemma num_sum: "num B xs = (\<Sum>i\<leftarrow>[0..<length xs]. xs ! i * B ^ i)"
proof (induction xs)
  case (Cons x xs)
  have "(\<Sum>i\<leftarrow>[0..<length (x # xs)]. (x # xs) ! i * B ^ i) =
      x + (\<Sum>i\<leftarrow>[0..<length xs]. B * (xs ! i * B ^ i))"
    by (simp add: map_upt_Suc o_def algebra_simps del: upt_Suc)
  then show ?case using Cons by (simp add: sum_list_const_mult)
qed simp

text \<open>Carrying: every limb brought into the range of a digit, the rest passed on.\<close>

primrec norm_limbs :: "int \<Rightarrow> int list \<Rightarrow> int \<Rightarrow> int list \<times> int" where
  "norm_limbs B [] c = ([], c)"
| "norm_limbs B (x # xs) c =
    (case norm_limbs B xs ((x + c) div B) of (ys, c') \<Rightarrow> ((x + c) mod B # ys, c'))"

definition digits_ok :: "int \<Rightarrow> int list \<Rightarrow> bool" where
  "digits_ok B xs \<longleftrightarrow> list_all (\<lambda>x. 0 \<le> x \<and> x < B) xs"

lemma norm_length [simp]: "length (fst (norm_limbs B xs c)) = length xs"
  by (induction xs arbitrary: c) (simp_all add: split_beta)

lemma norm_digits: "0 < B \<Longrightarrow> digits_ok B (fst (norm_limbs B xs c))"
  by (induction xs arbitrary: c) (simp_all add: digits_ok_def split_beta)

lemma norm_num: "num B (fst (norm_limbs B xs c)) + B ^ length xs * snd (norm_limbs B xs c) = num B xs + c"
proof (induction xs arbitrary: c)
  case (Cons x xs)
  let ?n = "norm_limbs B xs ((x + c) div B)"
  have "num B (fst ?n) + B ^ length xs * snd ?n = num B xs + (x + c) div B" by (rule Cons.IH)
  then have "B * (num B (fst ?n) + B ^ length xs * snd ?n) = B * num B xs + B * ((x + c) div B)"
    by (simp add: distrib_left)
  then show ?case using mult_div_mod_eq [of B "x + c"] by (simp add: split_beta algebra_simps)
qed simp

lemma norm_append: "norm_limbs B (xs @ [x]) c =
  (case norm_limbs B xs c of (ys, c') \<Rightarrow> (ys @ [(x + c') mod B], (x + c') div B))"
  by (induction xs arbitrary: c) (simp_all add: split_beta)

lemma digits_bound: "digits_ok B xs \<Longrightarrow> 0 < B \<Longrightarrow> 0 \<le> num B xs \<and> num B xs < B ^ length xs"
proof (induction xs)
  case (Cons x xs)
  then have x: "0 \<le> x" "x + 1 \<le> B" and ih: "0 \<le> num B xs" "num B xs + 1 \<le> B ^ length xs"
    by (simp_all add: digits_ok_def)
  have "B * (num B xs + 1) \<le> B * B ^ length xs" using ih Cons.prems by (intro mult_left_mono) simp_all
  moreover have "x + B * num B xs < B + B * num B xs" using x by simp
  ultimately show ?case using x ih Cons.prems(2) by (simp add: algebra_simps)
qed simp

lemma norm_carry:
  assumes "0 < B"
  shows "snd (norm_limbs B xs c) = (num B xs + c) div B ^ length xs"
    and "num B (fst (norm_limbs B xs c)) = (num B xs + c) mod B ^ length xs"
proof -
  have b: "0 \<le> num B (fst (norm_limbs B xs c))" "num B (fst (norm_limbs B xs c)) < B ^ length xs"
    using digits_bound [OF norm_digits [OF assms] assms, of xs c] by simp_all
  show "snd (norm_limbs B xs c) = (num B xs + c) div B ^ length xs"
    using b norm_num [of B xs c] assms
    by (metis add.commute div_mult_self2 div_pos_pos_trivial add_0 order_less_irrefl zero_less_power)
  show "num B (fst (norm_limbs B xs c)) = (num B xs + c) mod B ^ length xs"
    using b norm_num [of B xs c] by (metis mod_mult_self2 mod_pos_pos_trivial)
qed

text \<open>Digits are determined by the number.\<close>

lemma digits_unique:
  "digits_ok B xs \<Longrightarrow> digits_ok B ys \<Longrightarrow> length xs = length ys \<Longrightarrow> num B xs = num B ys \<Longrightarrow> xs = ys"
proof (induction xs arbitrary: ys)
  case (Cons x xs)
  then obtain y ys' where ys: "ys = y # ys'" by (cases ys) auto
  have r: "0 \<le> x" "x < B" "0 \<le> y" "y < B" using Cons.prems ys by (simp_all add: digits_ok_def)
  have e: "x + B * num B xs = y + B * num B ys'" using Cons.prems(4) ys by simp
  have "(x + B * num B xs) mod B = x" "(y + B * num B ys') mod B = y" using r by simp_all
  then have "x = y" using e by metis
  moreover have "num B xs = num B ys'" using e r calculation by simp
  ultimately show ?case using Cons ys by (simp add: digits_ok_def)
qed simp

end
