(* ===== verification/Curve_Field.thy ===== *)
theory Curve_Field
  imports Tweetnacl Limbs
begin

text \<open>
  What the field code of cmd/tweetnacl.c computes: \<open>A\<close>, \<open>Z\<close> and \<open>M\<close> are addition, subtraction and
  multiplication modulo \<open>2^255 - 19\<close>, \<open>car25519\<close> keeps the residue, \<open>unpack25519\<close> reads the low 255
  bits of 32 bytes and \<open>pack25519\<close> writes the least residue.
\<close>

unbundle bit_operations_syntax

section \<open>The field\<close>

definition prime_p :: int where
  "prime_p = 2 ^ 255 - 19"

definition fe :: "gf \<Rightarrow> int" where
  "fe a = num 65536 a"

text \<open>One pass of \<open>car25519\<close> carries and brings the last carry back to the first limb.\<close>

lemma car_step_simp:
  "i < 15 \<Longrightarrow> i + 1 < length v \<Longrightarrow>
     car_step v i = v[i := v ! i mod 65536, i + 1 := v ! (i + 1) + v ! i div 65536]"
  "length v = 16 \<Longrightarrow> car_step v 15 = v[15 := v ! 15 mod 65536, 0 := v ! 0 + 38 * (v ! 15 div 65536)]"
proof -
  have c: "(x + 65536) div 65536 = x div 65536 + 1" "x + 65536 - (x div 65536 + 1) * 65536 = x mod 65536" for x :: int
    using minus_div_mult_eq_mod [of x 65536] by simp_all
  show "i < 15 \<Longrightarrow> i + 1 < length v \<Longrightarrow>
     car_step v i = v[i := v ! i mod 65536, i + 1 := v ! (i + 1) + v ! i div 65536]"
    by (intro nth_equalityI) (auto simp: car_step_def Let_def c minus_div_mult_eq_mod nth_list_update)
  show "length v = 16 \<Longrightarrow> car_step v 15 = v[15 := v ! 15 mod 65536, 0 := v ! 0 + 38 * (v ! 15 div 65536)]"
    by (intro nth_equalityI) (auto simp: car_step_def Let_def c minus_div_mult_eq_mod nth_list_update)
qed

lemma car25519_norm:
  assumes "length v = 16"
  shows "car25519 v = (case norm_limbs 65536 v 0 of (ys, c) \<Rightarrow> ys[0 := ys ! 0 + 38 * c])"
proof -
  have "foldl car_step v [0..<n] = (case norm_limbs 65536 (take n v) 0 of (ys, c) \<Rightarrow> (ys @ drop n v)[n := v ! n + c])"
    if "n \<le> 15" for n
    using that
  proof (induction n)
    case 0
    then show ?case using assms by simp
  next
    case (Suc n)
    obtain ys c where yc: "norm_limbs 65536 (take n v) 0 = (ys, c)" by force
    have l: "length ys = n" using norm_length [of 65536 "take n v" 0] yc assms Suc.prems by simp
    have "drop n v = v ! n # v ! Suc n # drop (Suc (Suc n)) v"
      using assms Suc.prems by (simp add: Cons_nth_drop_Suc)
    then show ?case
      using Suc yc l assms
      by (simp add: car_step_simp take_Suc_conv_app_nth norm_append nth_append list_update_append Cons_nth_drop_Suc [symmetric]
          split: prod.splits nat.splits)
  qed
  from this [of 15] have "foldl car_step v [0..<15] = (case norm_limbs 65536 (take 15 v) 0 of (ys, c) \<Rightarrow> (ys @ drop 15 v)[15 := v ! 15 + c])"
    by simp
  moreover have "[0..<16] = [0..<15] @ [15]" by (simp add: upt_rec)
  moreover have "v = take 15 v @ [v ! 15]" "drop 15 v = [v ! 15]"
    using assms take_Suc_conv_app_nth [of 15 v] Cons_nth_drop_Suc [of 15 v] by simp_all
  moreover obtain ys c where yc: "norm_limbs 65536 (take 15 v) 0 = (ys, c)" by force
  moreover have "length ys = 15" using norm_length [of 65536 "take 15 v" 0] yc assms by simp
  ultimately show ?thesis
    using norm_append [of 65536 "take 15 v" "v ! 15" 0]
    by (simp add: car25519_def car_step_simp(2) list_update_append nth_append)
qed

lemma two_p: "(65536::int) ^ 16 = 2 * prime_p + 38"
  by (simp add: prime_p_def)

text \<open>The digits of the number, with the excess brought back 38 times.\<close>

lemma car25519_length [simp]: "length v = 16 \<Longrightarrow> length (car25519 v) = 16"
  by (simp add: car25519_norm norm_length split_beta)

lemma fe_car25519: "length v = 16 \<Longrightarrow> fe (car25519 v) = fe v mod 65536 ^ 16 + 38 * (fe v div 65536 ^ 16)"
  using norm_carry [of 65536 v 0] norm_length [of 65536 v 0]
  by (simp add: car25519_norm split_beta fe_def num_update)

lemma car25519_digits:
  assumes "length v = 16" and "0 \<le> fe v" and "fe v < 65536 ^ 16"
  shows "digits_ok 65536 (car25519 v)" and "fe (car25519 v) = fe v"
proof -
  have "snd (norm_limbs 65536 v 0) = 0" using norm_carry(1) [of 65536 v 0] assms by (simp add: fe_def)
  then show "digits_ok 65536 (car25519 v)"
    using norm_digits [of 65536 v 0] assms(1) by (simp add: car25519_norm split_beta)
  show "fe (car25519 v) = fe v" using assms by (simp add: fe_car25519)
qed

lemma same_car25519: "length v = 16 \<Longrightarrow> fe (car25519 v) mod prime_p = fe v mod prime_p"
proof -
  assume l: "length v = 16"
  have "fe v = fe v mod 65536 ^ 16 + 65536 ^ 16 * (fe v div 65536 ^ 16)" by simp
  also have "\<dots> = fe (car25519 v) + prime_p * (2 * (fe v div 65536 ^ 16))"
    unfolding fe_car25519 [OF l] two_p by (simp add: algebra_simps)
  finally show ?thesis by (metis mod_mult_self2)
qed

lemma fe_A: "length a = 16 \<Longrightarrow> length b = 16 \<Longrightarrow> fe (gf_A a b) = fe a + fe b"
  by (simp add: fe_def gf_A_def num_map2)

lemma fe_Z: "length a = 16 \<Longrightarrow> length b = 16 \<Longrightarrow> fe (gf_Z a b) = fe a - fe b"
  by (simp add: fe_def gf_Z_def num_map2)

lemma gf_lengths [simp]:
  "length (gf_A a b) = min (length a) (length b)" "length (gf_Z a b) = min (length a) (length b)"
  by (simp_all add: gf_A_def gf_Z_def)

text \<open>The schoolbook product: each step adds its share.\<close>

definition mul_step :: "gf \<Rightarrow> gf \<Rightarrow> gf \<Rightarrow> nat \<times> nat \<Rightarrow> gf" where
  "mul_step a b t ij = (case ij of (i, j) \<Rightarrow> t[i + j := t ! (i + j) + a ! i * b ! j])"

lemma mul_step_length [simp]: "length (foldl (mul_step a b) t ps) = length t"
  by (induction ps arbitrary: t) (simp_all add: mul_step_def split_beta)

lemma mul_steps_num:
  "\<forall>(i, j) \<in> set ps. i + j < length t \<Longrightarrow>
   num B (foldl (mul_step a b) t ps) = num B t + (\<Sum>(i, j)\<leftarrow>ps. (a ! i * B ^ i) * (b ! j * B ^ j))"
proof (induction ps arbitrary: t)
  case (Cons p ps)
  then show ?case
    by (cases p) (simp add: mul_step_def num_update power_add algebra_simps)
qed simp

lemma sum_product:
  "(\<Sum>(i, j)\<leftarrow>List.product is js. f i * (g j :: int)) = (\<Sum>i\<leftarrow>is. f i) * (\<Sum>j\<leftarrow>js. g j)"
  by (induction "is") (simp_all add: sum_list_const_mult o_def algebra_simps)

lemma mul_num:
  assumes "length a = 16" and "length b = 16"
  shows "num B (foldl (mul_step a b) (replicate 31 0) (List.product [0..<16] [0..<16])) = num B a * num B b"
  using assms by (subst mul_steps_num) (auto simp: sum_product num_sum [of B a] num_sum [of B b])

definition fold_step :: "gf \<Rightarrow> nat \<Rightarrow> gf" where
  "fold_step t i = t[i := t ! i + 38 * t ! (i + 16)]"

lemma fold_steps:
  assumes "n \<le> 15" and "length t = 31"
  shows "length (foldl fold_step t [0..<n]) = 31 \<and>
    (\<forall>k < 31. foldl fold_step t [0..<n] ! k = (if k < n then t ! k + 38 * t ! (k + 16) else t ! k))"
  using assms(1)
proof (induction n)
  case (Suc n)
  then show ?case by (auto simp: fold_step_def nth_list_update less_Suc_eq)
qed (use assms in simp)

lemma fold_num:
  assumes "length t = 31"
  shows "num B (take 16 (foldl fold_step t [0..<15])) = num B (take 16 t) + 38 * num B (drop 16 t)"
proof -
  let ?r = "foldl fold_step t [0..<15]"
  note r = fold_steps [of 15 t, OF _ assms]
  have "take 16 ?r = map2 (+) (take 16 t) (map ((*) 38) (drop 16 t) @ [0])"
    using r assms by (intro nth_equalityI) (auto simp: nth_append not_less add.commute)
  moreover have "num B (map ((*) 38) xs) = 38 * num B xs" for xs
    by (induction xs) (simp_all add: algebra_simps)
  ultimately show ?thesis using assms by (simp add: num_map2 num_append)
qed

lemma gf_M_unfold:
  "gf_M a b = (let t = foldl (mul_step a b) (replicate 31 0) (List.product [0..<16] [0..<16])
     in car25519 (car25519 (take 16 (foldl fold_step t [0..<15]))))"
proof -
  have "mul_step a b = (\<lambda>t (i, j). t[i + j := t ! (i + j) + a ! i * b ! j])"
    by (simp add: mul_step_def fun_eq_iff)
  moreover have "fold_step = (\<lambda>t i. t[i := t ! i + 38 * t ! (i + 16)])" by (simp add: fold_step_def fun_eq_iff)
  ultimately show ?thesis by (simp add: gf_M_def Let_def)
qed

lemma gf_M_length [simp]: "length (gf_M a b) = 16"
  using fold_steps [of 15 "foldl (mul_step a b) (replicate 31 0) (List.product [0..<16] [0..<16])"]
  by (simp add: gf_M_unfold Let_def)

lemma fe_M:
  assumes "length a = 16" and "length b = 16"
  shows "fe (gf_M a b) mod prime_p = fe a * fe b mod prime_p"
proof -
  define t where "t = foldl (mul_step a b) (replicate 31 0) (List.product [0..<16] [0..<16])"
  define r where "r = take 16 (foldl fold_step t [0..<15])"
  have t: "length t = 31" by (simp add: t_def)
  have r: "length r = 16" using fold_steps [of 15 t] t by (simp add: r_def)
  have "fe (gf_M a b) mod prime_p = fe r mod prime_p"
    using r by (simp add: gf_M_unfold Let_def same_car25519 flip: t_def r_def)
  also have "fe r = num 65536 (take 16 t) + 38 * num 65536 (drop 16 t)"
    using fold_num [OF t] by (simp add: fe_def r_def)
  also have "\<dots> = num 65536 t - prime_p * (2 * num 65536 (drop 16 t))"
    using num_append [of 65536 "take 16 t" "drop 16 t"] t two_p by (simp add: algebra_simps)
  also have "\<dots> mod prime_p = num 65536 t mod prime_p"
    by (metis mod_mult_self2 diff_add_cancel)
  also have "num 65536 t = fe a * fe b" using mul_num [OF assms] by (simp add: t_def fe_def)
  finally show ?thesis .
qed

lemma and_masks: "x AND 0xffff = x mod 65536" "x AND 0x7fff = x mod 32768" "x AND 0xff = x mod 256" for x :: int
  using take_bit_eq_mask [of 16 x] take_bit_eq_mask [of 15 x] take_bit_eq_mask [of 8 x]
  by (simp_all add: take_bit_eq_mod mask_eq_exp_minus_1)

lemma sel25519_cases:
  assumes "length p = length q"
  shows "sel25519 p q 0 = (p, q)" "sel25519 p q 1 = (q, p)"
proof -
  have x: "map2 (XOR) p (map2 (\<lambda>x y. x XOR y) p q) = q" "map2 (XOR) q (map2 (\<lambda>x y. x XOR y) p q) = p"
    using assms by (induction p q rule: list_induct2) (simp_all, simp_all add: xor.left_commute)
  have z: "map2 (XOR) p (map2 (\<lambda>x y. 0) p q) = p" "map2 (XOR) q (map2 (\<lambda>x y. 0) p q) = q"
    using assms by (induction p q rule: list_induct2) simp_all
  show "sel25519 p q 0 = (p, q)" "sel25519 p q 1 = (q, p)" using x z by (simp_all add: sel25519_def)
qed

section \<open>Subtracting the prime\<close>

definition p_limbs :: gf where
  "p_limbs = [0xffed] @ replicate 14 0xffff @ [0x7fff]"

lemma p_limbs_num: "num 65536 p_limbs = prime_p" "length p_limbs = 16" "digits_ok 65536 p_limbs"
  by code_simp+

lemma p_limbs_nth: "p_limbs ! 0 = 0xffed" "0 < i \<Longrightarrow> i < 15 \<Longrightarrow> p_limbs ! i = 0xffff" "p_limbs ! 15 = 0x7fff"
  by (simp_all add: p_limbs_def nth_append)

lemma div_borrow: "0 < k \<Longrightarrow> - k \<le> x \<Longrightarrow> x < 0 \<Longrightarrow> x div k = - 1" for x k :: int
  using div_add_self2 [of k x] by (simp add: div_pos_pos_trivial)

lemma carry_cases: "- 65536 \<le> y \<Longrightarrow> y < 65536 \<Longrightarrow> y div 65536 = 0 \<or> y div 65536 = - 1" for y :: int
proof (cases "y < 0")
  case True
  then show "- 65536 \<le> y \<Longrightarrow> y div 65536 = 0 \<or> y div 65536 = - 1" using div_borrow [of 65536 y] by linarith
next
  case False
  then show "y < 65536 \<Longrightarrow> y div 65536 = 0 \<or> y div 65536 = - 1" by (intro disjI1 div_pos_pos_trivial) linarith+
qed

lemma borrow_carry:
  "list_all (\<lambda>d. - 65536 < d \<and> d < 65536) ds \<Longrightarrow> c = 0 \<or> c = - 1 \<Longrightarrow>
   snd (norm_limbs 65536 ds c) = 0 \<or> snd (norm_limbs 65536 ds c) = - 1"
proof (induction ds arbitrary: c)
  case (Cons d ds)
  have "- 65536 < d" "d < 65536" using Cons.prems(1) by simp_all
  then have "- 65536 \<le> d + c" "d + c < 65536" using Cons.prems(2) by linarith+
  then have "(d + c) div 65536 = 0 \<or> (d + c) div 65536 = - 1"
    by (rule carry_cases)
  then show ?case using Cons.IH [of "(d + c) div 65536"] Cons.prems(1) by (simp add: split_beta)
qed simp

lemma borrow_bit: "c = 0 \<or> c = - 1 \<Longrightarrow> c AND 1 = - (c :: int)"
  by auto

lemma pack_reduce_digits:
  assumes t: "length t = 16" and "digits_ok 65536 t"
  shows "digits_ok 65536 (pack_reduce t) \<and> length (pack_reduce t) = 16 \<and>
    fe (pack_reduce t) = (if prime_p \<le> fe t then fe t - prime_p else fe t)"
proof -
  define d where "d = map2 (-) t p_limbs"
  have ld: "length d = 16" using t by (simp add: d_def p_limbs_num)
  have dn: "d ! i = t ! i - p_limbs ! i" if "i < 16" for i using that t by (simp add: d_def p_limbs_num)
  have dv: "num 65536 d = fe t - prime_p" using t by (simp add: d_def num_map2 p_limbs_num fe_def)
  have dr: "list_all (\<lambda>x. - 65536 < x \<and> x < 65536) (take n d)" for n
  proof -
    have "list_all (\<lambda>x. - 65536 < x \<and> x < 65536) d"
      using assms(2) p_limbs_num(2,3) t dn ld by (fastforce simp: list_all_length digits_ok_def)
    then show ?thesis by (auto simp: list_all_iff dest: in_set_takeD)
  qed
  define N where "N n = norm_limbs 65536 (take n d) 0" for n
  have Nl: "length (fst (N n)) = n" if "n \<le> 16" for n using that ld by (simp add: N_def)
  have Nc: "snd (N n) = 0 \<or> snd (N n) = - 1" for n using borrow_carry [OF dr] by (simp add: N_def)
  have NS: "N (Suc n) = (fst (N n) @ [(d ! n + snd (N n)) mod 65536], (d ! n + snd (N n)) div 65536)" if "n < 16" for n
    using that ld norm_append [of 65536 "take n d" "d ! n" 0] by (simp add: N_def take_Suc_conv_app_nth split_beta)
  let ?m0 = "(replicate 16 0)[0 := t ! 0 - 0xffed]"
  have chain: "foldl (pack_sub_step t) ?m0 [1..<Suc n] = fst (N n) @ [d ! n + snd (N n)] @ replicate (15 - n) 0"
    if "n < 15" for n
    using that
  proof (induction n)
    case 0
    have "replicate 16 (0::int) = 0 # replicate 15 0" by (simp add: numeral_eq_Suc)
    then show ?case by (simp add: N_def dn p_limbs_nth)
  next
    case (Suc n)
    let ?x = "d ! n + snd (N n)"
    have r: "replicate (15 - n) (0::int) = 0 # replicate (15 - Suc n) 0"
      using Suc.prems by (simp add: Suc_diff_Suc [symmetric] del: replicate_Suc) (metis Suc_diff_Suc Suc_lessD replicate_Suc diff_Suc_Suc)
    have b: "(?x div 65536) AND 1 = - (?x div 65536)"
      using Nc [of "Suc n"] NS [of n] Suc.prems by (intro borrow_bit) simp
    have "foldl (pack_sub_step t) ?m0 [1..<Suc (Suc n)] =
        pack_sub_step t (fst (N n) @ [?x] @ replicate (15 - n) 0) (Suc n)"
      using Suc by simp
    also have "\<dots> = fst (N n) @ [?x mod 65536, d ! Suc n + ?x div 65536] @ replicate (15 - Suc n) 0"
      using Suc.prems Nl [of n] b
      by (simp add: pack_sub_step_def Let_def r nth_append list_update_append and_masks dn p_limbs_nth)
    finally show ?case using NS [of n] Suc.prems by simp
  qed
  let ?x14 = "d ! 14 + snd (N 14)" and ?x15 = "d ! 15 + snd (N 15)"
  have m: "foldl (pack_sub_step t) ?m0 [1..<15] = fst (N 14) @ [?x14, 0]" using chain [of 14] by simp
  have b14: "(?x14 div 65536) AND 1 = - snd (N 15)"
    using Nc [of 15] NS [of 14] by (intro trans [OF borrow_bit]) simp_all
  have b15: "(?x15 div 65536) AND 1 = - snd (N 16)"
    using Nc [of 16] NS [of 15] by (intro trans [OF borrow_bit]) simp_all
  have N15: "fst (N 15) = fst (N 14) @ [?x14 mod 65536]" using NS [of 14] by simp
  have l14: "length (fst (N 14)) = 14" by (rule Nl) simp
  have r: "pack_reduce t = fst (sel25519 t (fst (N 15) @ [?x15]) (1 + snd (N 16)))"
    using b14 b15 unfolding pack_reduce_def Let_def m N15
    by (simp add: nth_append list_update_append l14 and_masks dn p_limbs_nth)
  have tb: "0 \<le> fe t" "fe t < 65536 ^ 16" using digits_bound [OF assms(2)] t by (simp_all add: fe_def)
  have c16: "snd (N 16) = (fe t - prime_p) div 65536 ^ 16"
    using norm_carry(1) [of 65536 d 0] ld dv by (simp add: N_def)
  show ?thesis
  proof (cases "prime_p \<le> fe t")
    case True
    then have c0: "snd (N 16) = 0" using c16 tb by (simp add: prime_p_def)
    then have "?x15 div 65536 = 0" using NS [of 15] by simp
    then have x: "?x15 mod 65536 = ?x15" by (metis add_0 mult_div_mod_eq mult_zero_right)
    have "fst (N 16) = fst (N 15) @ [?x15]" using NS [of 15] x by simp
    moreover have "length (fst (N 15) @ [?x15]) = 16" using Nl [of 15] by simp
    ultimately have "pack_reduce t = fst (N 16)" using r c0 t sel25519_cases(2) [of t "fst (N 15) @ [?x15]"] by simp
    then show ?thesis
      using True norm_digits [of 65536 d 0] norm_num [of 65536 d 0] c0 ld dv Nl [of 16] by (simp add: N_def fe_def)
  next
    case False
    then have "(fe t - prime_p) div 65536 ^ 16 = - 1"
      using tb by (intro div_borrow) (simp_all add: prime_p_def)
    then have "pack_reduce t = t"
      using r c16 t Nl [of 15] sel25519_cases(1) [of t "fst (N 15) @ [?x15]"] by simp
    then show ?thesis using False assms by simp
  qed
qed

section \<open>Packing\<close>

text \<open>What fits the limbs of the code, 64-bit signed integers.\<close>

definition i64_limbs :: "gf \<Rightarrow> bool" where
  "i64_limbs v \<longleftrightarrow> list_all (\<lambda>x. - (2 ^ 63) \<le> x \<and> x < 2 ^ 63) v"

lemma num_bound:
  assumes "list_all (\<lambda>x. - M \<le> x \<and> x \<le> M) v" and "2 \<le> B" and "0 \<le> M"
  shows "- (2 * M * B ^ length v) \<le> num B v \<and> num B v \<le> 2 * M * B ^ length v"
proof -
  have "- (2 * M * (B ^ length v - 1)) \<le> num B v \<and> num B v \<le> 2 * M * (B ^ length v - 1)"
    using assms(1)
  proof (induction v)
    case (Cons x v)
    then have ih: "- (2 * M * (B ^ length v - 1)) \<le> num B v" "num B v \<le> 2 * M * (B ^ length v - 1)" by simp_all
    have x: "- M \<le> x" "x \<le> M" using Cons.prems by simp_all
    have "B * num B v \<le> B * (2 * M * (B ^ length v - 1))" "B * - (2 * M * (B ^ length v - 1)) \<le> B * num B v"
      using ih assms(2) by (intro mult_left_mono; simp)+
    moreover have "B * (2 * M * (B ^ length v - 1)) = 2 * M * (B ^ length (x # v) - 1) - 2 * M * (B - 1)"
      by (simp add: algebra_simps)
    moreover have "M * 1 \<le> M * (2 * (B - 1))" using assms(2,3) by (intro mult_left_mono) simp_all
    then have "M \<le> 2 * M * (B - 1)" by (simp add: algebra_simps)
    moreover have "num B (x # v) = x + B * num B v" by simp
    ultimately show ?case using x by linarith
  qed simp
  then show ?thesis using assms(3) by (auto simp: algebra_simps)
qed

lemma i64_value: "i64_limbs v \<Longrightarrow> length v = 16 \<Longrightarrow> - (2 ^ 64 * 65536 ^ 16) \<le> fe v \<and> fe v \<le> 2 ^ 64 * 65536 ^ 16"
proof -
  assume a: "i64_limbs v" "length v = 16"
  then have "list_all (\<lambda>x. - (2 ^ 63) \<le> x \<and> x \<le> 2 ^ 63) v" by (auto simp: i64_limbs_def list_all_iff)
  from num_bound [OF this, of 65536] show ?thesis using a(2) by (simp add: fe_def)
qed

text \<open>Two passes bring any number of such limbs below \<open>2^256\<close>.\<close>

lemma two_passes:
  assumes "length v = 16" and "- (2 ^ 64 * 65536 ^ 16) \<le> fe v" and "fe v \<le> 2 ^ 64 * 65536 ^ 16"
  shows "0 \<le> fe (car25519 (car25519 v))" "fe (car25519 (car25519 v)) < 65536 ^ 16"
proof -
  define N :: int where "N = 65536 ^ 16"
  define w where "w = car25519 v"
  have N: "2361183241434822606848 < N" by (simp add: N_def)
  have q: "- (2 ^ 64) \<le> fe v div N" "fe v div N \<le> 2 ^ 64"
    using zdiv_mono1 [of "- (2 ^ 64 * N)" "fe v" N] zdiv_mono1 [of "fe v" "2 ^ 64 * N" N] assms(2,3) N
    by (simp_all add: N_def)
  have fw: "fe w = fe v mod N + 38 * (fe v div N)" using fe_car25519 [OF assms(1)] by (simp add: w_def N_def)
  have "0 \<le> fe v mod N" "fe v mod N < N" using N by simp_all
  then have w: "- 1180591620717411303424 \<le> fe w" "fe w < N + 1180591620717411303424" unfolding fw using q by simp_all
  have lw: "length w = 16" using assms(1) by (simp add: w_def)
  have fz: "fe (car25519 w) = fe w mod N + 38 * (fe w div N)" using fe_car25519 [OF lw] by (simp add: N_def)
  have "0 \<le> fe (car25519 w) \<and> fe (car25519 w) < N"
  proof (cases "fe w < 0")
    case True
    then have "fe w div N = - 1" using w(1) N by (intro div_borrow) linarith+
    moreover have "fe w mod N = fe w + N" using calculation minus_div_mult_eq_mod [of "fe w" N] by simp
    ultimately show ?thesis unfolding fz using w(1) N True by linarith
  next
    case nn: False
    show ?thesis
    proof (cases "fe w < N")
      case True
      then have "fe w div N = 0" "fe w mod N = fe w" using nn by simp_all
      then show ?thesis unfolding fz using nn True by simp
    next
      case False
      have "(fe w - N) div N = 0" using w(2) False N by (intro div_pos_pos_trivial) linarith+
      moreover have "(fe w - N + N) div N = (fe w - N) div N + 1" using N by (intro div_add_self2) simp
      ultimately have d: "fe w div N = 1" by simp
      moreover have "fe w mod N = fe w - N" using d minus_div_mult_eq_mod [of "fe w" N] by simp
      ultimately show ?thesis unfolding fz using w(2) N False by linarith
    qed
  qed
  then show "0 \<le> fe (car25519 (car25519 v))" "fe (car25519 (car25519 v)) < 65536 ^ 16"
    by (simp_all add: w_def N_def)
qed

definition limb_bytes :: "int \<Rightarrow> bytes" where
  "limb_bytes x = [word_of_int (x AND 0xff), word_of_int (x div 256)]"

lemma limb_bytes_value:
  assumes "digits_ok 65536 t"
  shows "int (le_value (concat (map limb_bytes t))) = num 65536 t"
  using assms
proof (induction t)
  case (Cons x t)
  then have x: "0 \<le> x" "x < 65536" by (simp_all add: digits_ok_def)
  have "0 \<le> x div 256" "x div 256 < 256" using x by (simp_all add: pos_imp_zdiv_nonneg_iff div_less_iff_less_mult)
  then have "int (unat (word_of_int (x div 256) :: byte)) = x div 256" by (simp add: uint_word_of_int)
  moreover have "int (unat (word_of_int (x AND 0xff) :: byte)) = x mod 256" by (simp add: and_masks uint_word_of_int)
  ultimately have "int (le_value (limb_bytes x)) = x" by (simp add: limb_bytes_def)
  moreover have "length (limb_bytes x) = 2" by (simp add: limb_bytes_def)
  ultimately show ?case using Cons by (simp add: le_value_append digits_ok_def)
qed simp

lemma pack25519_value:
  assumes "length n = 16" and "i64_limbs n"
  shows "int (le_value (pack25519 n)) = fe n mod prime_p"
proof -
  note v = i64_value [OF assms(2,1)]
  define t where "t = car25519 (car25519 (car25519 n))"
  have r: "0 \<le> fe (car25519 (car25519 n))" "fe (car25519 (car25519 n)) < 65536 ^ 16"
    using two_passes [OF assms(1)] v by blast+
  have l: "length (car25519 (car25519 n)) = 16" "length t = 16" using assms(1) by (simp_all add: t_def)
  have t: "digits_ok 65536 t" "fe t = fe (car25519 (car25519 n))"
    using car25519_digits [OF l(1) r] by (simp_all add: t_def)
  have tm: "fe t mod prime_p = fe n mod prime_p"
    using assms(1) by (simp add: t(2) same_car25519)
  define u where "u = pack_reduce t"
  define w where "w = pack_reduce u"
  have u: "digits_ok 65536 u" "length u = 16" "fe u = (if prime_p \<le> fe t then fe t - prime_p else fe t)"
    using pack_reduce_digits [OF l(2) t(1)] by (simp_all add: u_def)
  have w: "digits_ok 65536 w" "length w = 16" "fe w = (if prime_p \<le> fe u then fe u - prime_p else fe u)"
    using pack_reduce_digits [OF u(2,1)] by (simp_all add: w_def)
  have rt: "0 \<le> fe t" "fe t < 2 * prime_p + 38" using r t(2) two_p by simp_all
  have "0 \<le> fe w" "fe w < prime_p"
    using rt w(3) u(3) by (auto simp: prime_p_def split: if_splits)
  moreover have "fe w mod prime_p = fe t mod prime_p" by (simp add: u(3) w(3))
  ultimately have fw: "fe w = fe n mod prime_p" using tm by simp
  have "pack25519 n = concat (map limb_bytes w)"
  proof -
    have "map (\<lambda>i. [word_of_int (w ! i AND 0xff), word_of_int (w ! i div 256)]) [0..<16] = map limb_bytes w"
      using w(2) by (intro nth_equalityI) (simp_all add: limb_bytes_def)
    then show ?thesis by (simp only: pack25519_def Let_def t_def [symmetric] u_def [symmetric] w_def [symmetric])
  qed
  then show ?thesis using limb_bytes_value [OF w(1)] fw by (simp add: fe_def)
qed

section \<open>Unpacking\<close>

lemma unpack_num:
  "length n = 2 * k \<Longrightarrow> num 65536 (map (\<lambda>i. uint (n ! (2 * i)) + uint (n ! (2 * i + 1)) * 256) [0..<k]) = int (le_value n)"
proof (induction k arbitrary: n)
  case (Suc k)
  then obtain a b m where n: "n = a # b # m" "length m = 2 * k" by (auto simp: length_Suc_conv numeral_2_eq_2)
  show ?case
    using Suc.IH [OF n(2)] by (simp add: n(1) map_upt_Suc nth_Cons' o_def del: upt_Suc)
qed simp

lemma mod_top_limb: "0 \<le> a \<Longrightarrow> a < K \<Longrightarrow> 0 \<le> M \<Longrightarrow> (a + K * x) mod (K * M) = a + K * (x mod M)" for a K M x :: int
  by (subst zmod_zmult2_eq) simp_all

lemma fe_unpack25519:
  assumes "length n = 32"
  shows "fe (unpack25519 n) = int (le_value n) mod 2 ^ 255"
proof -
  define v where "v = map (\<lambda>i. uint (n ! (2 * i)) + uint (n ! (2 * i + 1)) * 256) [0..<16]"
  have v: "length v = 16" "num 65536 v = int (le_value n)" using unpack_num [of n 16] assms by (simp_all add: v_def)
  have "digits_ok 65536 v"
  proof -
    have "uint a + uint b * 256 < 65536" for a b :: byte
      using uint_lt2p [of a] uint_lt2p [of b] by simp
    then show ?thesis by (simp add: v_def digits_ok_def list_all_iff)
  qed
  then have lo: "0 \<le> num 65536 (take 15 v)" "num 65536 (take 15 v) < 65536 ^ 15"
    using digits_bound [of 65536 "take 15 v"] v(1) by (simp_all add: digits_ok_def list_all_length)
  have split: "num 65536 v = num 65536 (take 15 v) + 65536 ^ 15 * v ! 15"
  proof -
    have "drop 15 v = [v ! 15]" using v(1) Cons_nth_drop_Suc [of 15 v, symmetric] by simp
    then show ?thesis
      using num_append [of 65536 "take 15 v" "drop 15 v", unfolded append_take_drop_id] v(1) by simp
  qed
  have "fe (unpack25519 n) = num 65536 v + (v ! 15 mod 2 ^ 15 - v ! 15) * 65536 ^ 15"
  proof -
    have "unpack25519 n = v[15 := v ! 15 mod 2 ^ 15]"
      unfolding unpack25519_def Let_def v_def [symmetric] by (simp add: and_masks)
    then show ?thesis using v(1) by (simp add: fe_def num_update)
  qed
  also have "\<dots> = num 65536 (take 15 v) + 65536 ^ 15 * (v ! 15 mod 2 ^ 15)"
    unfolding split by (simp add: algebra_simps)
  also have "\<dots> = num 65536 v mod (65536 ^ 15 * 2 ^ 15)"
    unfolding split using lo by (intro mod_top_limb [symmetric]) simp_all
  finally show ?thesis using v(2) by simp
qed

end
