(* ===== verification/Field_Bounds.thy ===== *)
theory Field_Bounds
  imports Curve_Field
begin

text \<open>
  The field code never overflows its 64-bit signed limbs: a version of \<open>M\<close> and \<open>car25519\<close> in which
  every single addition, subtraction, multiplication and shift is checked returns what the unchecked
  one does, for operands whose limbs stay below \<open>2^24\<close>; and the product has limbs below \<open>2^17\<close>, so
  that sums of products are such operands again.
\<close>

unbundle bit_operations_syntax

section \<open>Bounds\<close>

definition within :: "int \<Rightarrow> gf \<Rightarrow> bool" where
  "within M v \<longleftrightarrow> length v = 16 \<and> list_all (\<lambda>x. \<bar>x\<bar> \<le> M) v"

lemma within_length: "within M v \<Longrightarrow> length v = 16"
  by (simp add: within_def)

lemma within_nth: "within M v \<Longrightarrow> i < 16 \<Longrightarrow> \<bar>v ! i\<bar> \<le> M"
  by (simp add: within_def list_all_length)

lemma withinI: "length v = 16 \<Longrightarrow> (\<And>i. i < 16 \<Longrightarrow> \<bar>v ! i\<bar> \<le> M) \<Longrightarrow> within M v"
  by (simp add: within_def list_all_length)

lemma within_mono: "within M v \<Longrightarrow> M \<le> N \<Longrightarrow> within N v"
  by (auto simp: within_def list_all_iff)

lemma within_A_Z:
  assumes "within M a" and "within N b"
  shows "within (M + N) (gf_A a b)" "within (M + N) (gf_Z a b)"
proof -
  have "\<bar>a ! i + b ! i\<bar> \<le> M + N" "\<bar>a ! i - b ! i\<bar> \<le> M + N" if "i < 16" for i
    using within_nth [OF assms(1) that] within_nth [OF assms(2) that] by linarith+
  then show "within (M + N) (gf_A a b)" "within (M + N) (gf_Z a b)"
    using within_length [OF assms(1)] within_length [OF assms(2)]
    by (auto intro!: withinI simp: gf_A_def gf_Z_def)
qed

lemma num_tight:
  assumes "list_all (\<lambda>x. \<bar>x\<bar> \<le> M) v" and "1 \<le> B"
  shows "(B - 1) * num B v \<le> M * (B ^ length v - 1) \<and> - (M * (B ^ length v - 1)) \<le> (B - 1) * num B v"
  using assms(1)
proof (induction v)
  case (Cons x v)
  let ?n = "(B - 1) * num B v" and ?m = "M * (B ^ length v - 1)"
  have ih: "?n \<le> ?m" "- ?m \<le> ?n" and x: "x \<le> M" "- M \<le> x" using Cons by (simp_all, linarith+)
  have "B * ?n \<le> B * ?m" "B * - ?m \<le> B * ?n" using ih assms(2) by (intro mult_left_mono; simp)+
  moreover have "(B - 1) * x \<le> (B - 1) * M" "(B - 1) * - M \<le> (B - 1) * x" using x assms(2) by (intro mult_left_mono; simp)+
  moreover have "(B - 1) * num B (x # v) = (B - 1) * x + B * ?n" by (simp add: algebra_simps)
  moreover have "M * (B ^ length (x # v) - 1) = (B - 1) * M + B * ?m" by (simp add: algebra_simps)
  ultimately show ?case by linarith
qed simp

text \<open>The limbs before the carries: each is a sum of at most sixteen products, once and 38 times.\<close>

lemma mul_step_bound:
  assumes "within M a" "within M b"
    and "list_all (\<lambda>(i, j). i < 16 \<and> j < 16 \<and> i + j < length t) ps" and "k < length t"
  shows "\<bar>foldl (mul_step a b) t ps ! k\<bar> \<le> \<bar>t ! k\<bar> + M * M * int (length (filter (\<lambda>(i, j). i + j = k) ps))"
  using assms(3,4)
proof (induction ps arbitrary: t)
  case (Cons q ps)
  obtain i j where q: "q = (i, j)" by force
  let ?t = "mul_step a b t q"
  have ij: "i < 16" "j < 16" "i + j < length t" using Cons.prems q by simp_all
  have M: "0 \<le> M" using within_nth [OF assms(1), of 0] by linarith
  have p: "\<bar>a ! i * b ! j\<bar> \<le> M * M"
    unfolding abs_mult using within_nth [OF assms(1) ij(1)] within_nth [OF assms(2) ij(2)] M by (intro mult_mono) simp_all
  have t: "length ?t = length t" by (simp add: mul_step_def split_beta)
  then have b: "\<bar>foldl (mul_step a b) ?t ps ! k\<bar> \<le> \<bar>?t ! k\<bar> + M * M * int (length (filter (\<lambda>(i, j). i + j = k) ps))"
    using Cons.IH [of ?t] Cons.prems by simp
  show ?case
  proof (cases "i + j = k")
    case True
    then have "?t ! k = t ! k + a ! i * b ! j" using q ij by (simp add: mul_step_def)
    then have "\<bar>?t ! k\<bar> \<le> \<bar>t ! k\<bar> + M * M" using p by linarith
    then show ?thesis using b True q by (simp add: algebra_simps)
  next
    case False
    then have "?t ! k = t ! k" using q by (simp add: mul_step_def)
    then show ?thesis using b False q by simp
  qed
qed simp

lemma count_pairs: "length (filter (\<lambda>(i, j). i + j = k) (List.product is [0..<16])) \<le> length is"
proof (induction "is")
  case (Cons i "is")
  have "length (filter (\<lambda>(i, j). i + j = k) (map (Pair i) [0..<16])) \<le> 1"
  proof -
    have "filter (\<lambda>(i, j). i + j = k) (map (Pair i) [0..<16]) = map (Pair i) (filter (\<lambda>j. i + j = k) [0..<16])"
      by (simp add: filter_map o_def)
    moreover have "distinct (filter (\<lambda>j. i + j = k) [0..<16])" by simp
    moreover have "set (filter (\<lambda>j. i + j = k) [0..<16]) \<subseteq> {k - i}" by auto
    ultimately show ?thesis
      by (metis card_mono distinct_card finite.emptyI finite.insertI length_map card.empty card_insert_disjoint empty_iff One_nat_def)
  qed
  then show ?case using Cons by simp
qed simp

definition product_limbs :: "gf \<Rightarrow> gf \<Rightarrow> gf" where
  "product_limbs a b = foldl (mul_step a b) (replicate 31 0) (List.product [0..<16] [0..<16])"

definition folded_limbs :: "gf \<Rightarrow> gf \<Rightarrow> gf" where
  "folded_limbs a b = take 16 (foldl fold_step (product_limbs a b) [0..<15])"

lemma gf_M_folded: "gf_M a b = car25519 (car25519 (folded_limbs a b))"
  by (simp add: gf_M_unfold folded_limbs_def product_limbs_def Let_def)

lemma product_bound:
  assumes "within M a" "within M b" "k < 31"
  shows "\<bar>product_limbs a b ! k\<bar> \<le> 16 * (M * M)"
proof -
  have "list_all (\<lambda>(i, j). i < 16 \<and> j < 16 \<and> i + j < length (replicate 31 (0::int))) (List.product [0..<16] [0..<16])"
    by (auto simp: list_all_iff)
  then have "\<bar>product_limbs a b ! k\<bar> \<le> M * M * int (length (filter (\<lambda>(i, j). i + j = k) (List.product [0..<16] [0..<16])))"
    using mul_step_bound [OF assms(1,2), of "replicate 31 0" "List.product [0..<16] [0..<16]" k] assms(3)
    by (simp add: product_limbs_def)
  also have "\<dots> \<le> M * M * 16"
    using count_pairs [of k "[0..<16]"] by (intro mult_left_mono) simp_all
  finally show ?thesis by (simp add: ac_simps)
qed

lemma folded_within:
  assumes "within M a" "within M b"
  shows "within (624 * (M * M)) (folded_limbs a b)"
proof (rule withinI)
  have l: "length (product_limbs a b) = 31" by (simp add: product_limbs_def)
  note f = fold_steps [of 15 "product_limbs a b", OF _ l]
  show "length (folded_limbs a b) = 16" using f by (simp add: folded_limbs_def)
  fix i :: nat
  assume i: "i < 16"
  have v: "folded_limbs a b ! i = (if i < 15 then product_limbs a b ! i + 38 * product_limbs a b ! (i + 16) else product_limbs a b ! i)"
    using f i by (simp add: folded_limbs_def)
  have "\<bar>product_limbs a b ! i\<bar> \<le> 16 * (M * M)" using product_bound [OF assms, of i] i by simp
  moreover have "i < 15 \<Longrightarrow> \<bar>product_limbs a b ! (i + 16)\<bar> \<le> 16 * (M * M)" using product_bound [OF assms, of "i + 16"] by simp
  moreover have "0 \<le> M * M" by simp
  ultimately show "\<bar>folded_limbs a b ! i\<bar> \<le> 624 * (M * M)"
    unfolding v by (cases "i < 15") (simp; linarith)+
qed

lemma fe_div_bound:
  assumes "within M v" and "0 \<le> M"
  shows "\<bar>fe v div 65536 ^ 16\<bar> \<le> M div 65535 + 1"
proof -
  define N :: int where "N = 65536 ^ 16"
  define q where "q = fe v div N"
  have N: "0 < N" "65535 dvd N - 1" by (simp_all add: N_def)
  have t: "65535 * fe v \<le> M * (N - 1)" "- (M * (N - 1)) \<le> 65535 * fe v"
    using num_tight [of M v 65536] assms by (simp_all add: within_def fe_def N_def)
  have r: "M < 65535 * (M div 65535) + 65535" using mult_div_mod_eq [of 65535 M] pos_mod_bound [of 65535 M] by linarith
  have f: "q * N \<le> fe v" "fe v < q * N + N"
    using mult_div_mod_eq [of N "fe v"] pos_mod_bound [OF N(1), of "fe v"] pos_mod_sign [OF N(1), of "fe v"]
    unfolding q_def mult.commute [of "fe v div N"] by linarith+
  have mN: "M * (N - 1) \<le> M * N" using assms(2) by (simp add: algebra_simps)
  have "65535 * q * N \<le> M * N" using t(1) f(1) mN by (simp add: algebra_simps)
  then have u: "65535 * q \<le> M" using N(1) by simp
  have "65535 * fe v < 65535 * (q * N + N)" using f(2) by simp
  then have "- (M * N) < 65535 * (q * N + N)" using t(2) mN by linarith
  then have "0 < (65535 * q + 65535 + M) * N" by (simp add: algebra_simps)
  then have l: "0 < 65535 * q + 65535 + M" using N(1) by (simp add: zero_less_mult_iff)
  show ?thesis using u l r unfolding q_def [symmetric] N_def [symmetric] by linarith
qed

text \<open>After two passes every limb but the first is a digit, and the first is off by at most 38.\<close>

lemma car25519_within:
  assumes "length v = 16" and "\<bar>fe v div 65536 ^ 16\<bar> \<le> c" and "0 \<le> c"
  shows "within (65535 + 38 * c) (car25519 v)"
proof -
  define ys where "ys = fst (norm_limbs 65536 v 0)"
  have l: "length ys = 16" using norm_length assms(1) by (simp add: ys_def)
  have d: "0 \<le> ys ! i" "ys ! i < 65536" if "i < 16" for i
    using norm_digits [of 65536 v 0] l that by (auto simp: ys_def digits_ok_def list_all_length)
  have e: "car25519 v = ys[0 := ys ! 0 + 38 * (fe v div 65536 ^ 16)]"
    using norm_carry(1) [of 65536 v 0] assms(1) by (simp add: car25519_norm split_beta ys_def fe_def)
  have "\<bar>car25519 v ! i\<bar> \<le> 65535 + 38 * c" if "i < 16" for i
    using d [OF that] assms(2,3) l that unfolding e by (cases "i = 0") (simp; linarith)+
  then show ?thesis using l e by (intro withinI) simp_all
qed

lemma gf_M_within:
  assumes "within (2 ^ 24) a" "within (2 ^ 24) b"
  shows "within 65573 (gf_M a b)"
proof -
  define N :: int where "N = 65536 ^ 16"
  define v where "v = folded_limbs a b"
  define w where "w = car25519 v"
  have N: "1180591620717411303424 < N" by (simp add: N_def)
  have v: "within 175640385467449344 v" using folded_within [OF assms] by (simp add: v_def)
  have lv: "length v = 16" using v by (rule within_length)
  have q: "\<bar>fe v div N\<bar> \<le> 2680101997110" using fe_div_bound [OF v] by (simp add: N_def)
  have fw: "fe w = fe v mod N + 38 * (fe v div N)" using fe_car25519 [OF lv] by (simp add: w_def N_def)
  have "0 \<le> fe v mod N" "fe v mod N < N" using N by simp_all
  then have r: "- N \<le> fe w" "fe w < 2 * N" unfolding fw using q N by linarith+
  have lw: "length w = 16" using lv by (simp add: w_def)
  have "- N div N = - 1" using N by (intro div_borrow) simp_all
  then have "- 1 \<le> fe w div N" using zdiv_mono1 [of "- N" "fe w" N] r(1) N by simp
  moreover have "fe w div N < 2"
  proof (rule ccontr)
    assume "\<not> fe w div N < 2"
    then have "2 * N \<le> fe w div N * N" using N by (intro mult_right_mono) simp_all
    then show False using r(2) div_mult_mod_eq [of "fe w" N] pos_mod_sign [of N "fe w"] N by linarith
  qed
  ultimately have "\<bar>fe w div N\<bar> \<le> 1" by linarith
  then show ?thesis
    using car25519_within [OF lw, of 1] by (simp add: gf_M_folded w_def v_def N_def)
qed

section \<open>No overflow\<close>

text \<open>The same computations with every operation on 64-bit signed integers checked: \<open>None\<close> if a
  result does not fit.\<close>

definition chk :: "int \<Rightarrow> int option" where
  "chk x = (if - (2 ^ 63) \<le> x \<and> x < 2 ^ 63 then Some x else None)"

lemma chk_ok: "\<bar>x\<bar> < 2 ^ 63 \<Longrightarrow> chk x = Some x"
  by (auto simp: chk_def)

primrec fold_checked :: "('s \<Rightarrow> 'a \<Rightarrow> 's option) \<Rightarrow> 's \<Rightarrow> 'a list \<Rightarrow> 's option" where
  "fold_checked f s [] = Some s"
| "fold_checked f s (x # xs) = Option.bind (f s x) (\<lambda>s. fold_checked f s xs)"

lemma fold_checked_ok:
  "(\<And>pre x post. xs = pre @ x # post \<Longrightarrow> f (foldl g s pre) x = Some (g (foldl g s pre) x)) \<Longrightarrow>
   fold_checked f s xs = Some (foldl g s xs)"
proof (induction xs arbitrary: s)
  case (Cons x xs)
  have "f s x = Some (g s x)" using Cons.prems [of "[]" x xs] by simp
  moreover have "fold_checked f (g s x) xs = Some (foldl g (g s x) xs)"
    using Cons.prems [of "x # pre" for pre] by (intro Cons.IH) simp
  ultimately show ?case by simp
qed simp

definition car_step_checked :: "gf \<Rightarrow> nat \<Rightarrow> gf option" where
  "car_step_checked v i =
    Option.bind (chk (v ! i + 65536)) (\<lambda>x.
    let c = x div 65536; k = (if i < 15 then i + 1 else 0) in
    Option.bind (chk (c - 1)) (\<lambda>d.
    Option.bind (chk (37 * d)) (\<lambda>e.
    Option.bind (chk (d + e * (if i = 15 then 1 else 0))) (\<lambda>s.
    Option.bind (chk (v[i := x] ! k + s)) (\<lambda>y.
    Option.bind (chk (c * 65536)) (\<lambda>z.
    Option.bind (chk (v[i := x, k := y] ! i - z)) (\<lambda>w.
    Some (v[i := x, k := y, i := w]))))))))"

definition car25519_checked :: "gf \<Rightarrow> gf option" where
  "car25519_checked v = fold_checked car_step_checked v [0..<16]"

definition mul_step_checked :: "gf \<Rightarrow> gf \<Rightarrow> gf \<Rightarrow> nat \<times> nat \<Rightarrow> gf option" where
  "mul_step_checked a b t ij = (case ij of (i, j) \<Rightarrow>
    Option.bind (chk (a ! i * b ! j)) (\<lambda>x.
    Option.bind (chk (t ! (i + j) + x)) (\<lambda>y. Some (t[i + j := y]))))"

definition fold_step_checked :: "gf \<Rightarrow> nat \<Rightarrow> gf option" where
  "fold_step_checked t i =
    Option.bind (chk (38 * t ! (i + 16))) (\<lambda>x.
    Option.bind (chk (t ! i + x)) (\<lambda>y. Some (t[i := y])))"

definition gf_M_checked :: "gf \<Rightarrow> gf \<Rightarrow> gf option" where
  "gf_M_checked a b =
    Option.bind (fold_checked (mul_step_checked a b) (replicate 31 0) (List.product [0..<16] [0..<16])) (\<lambda>t.
    Option.bind (fold_checked fold_step_checked t [0..<15]) (\<lambda>t.
    Option.bind (car25519_checked (take 16 t)) car25519_checked))"

lemma car_step_checked_ok:
  assumes "i < 16" and "within (2 ^ 60) v"
  shows "car_step_checked v i = Some (car_step v i)"
proof -
  define k where "k = (if i < 15 then i + 1 else 0)"
  define c where "c = (v ! i + 65536) div 65536"
  have l: "length v = 16" by (rule within_length [OF assms(2)])
  have k: "k < 16" "k \<noteq> i" using assms(1) by (auto simp: k_def)
  have b: "\<bar>v ! i\<bar> \<le> 2 ^ 60" "\<bar>v ! k\<bar> \<le> 2 ^ 60" using within_nth [OF assms(2)] assms(1) k(1) by simp_all
  have m: "65536 * c \<le> v ! i + 65536" "v ! i + 65536 < 65536 * c + 65536"
    using mult_div_mod_eq [of 65536 "v ! i + 65536"] pos_mod_bound [of 65536 "v ! i + 65536"] pos_mod_sign [of 65536 "v ! i + 65536"]
    unfolding c_def by linarith+
  define d where "d = c - 1"
  define s where "s = d + 37 * d * (if i = 15 then 1 else 0)"
  have d: "65536 * \<bar>d\<bar> \<le> 2 ^ 60 + 65536" using m b(1) by (simp add: d_def)
  then have s: "65536 * \<bar>s\<bar> \<le> 38 * (2 ^ 60 + 65536)" by (cases "i = 15") (simp_all add: s_def)
  have ok: "chk (v ! i + 65536) = Some (v ! i + 65536)" "chk d = Some d" "chk (37 * d) = Some (37 * d)"
    "chk s = Some s" "chk (v ! k + s) = Some (v ! k + s)" "chk (c * 65536) = Some (c * 65536)"
    "chk (v ! i + 65536 - c * 65536) = Some (v ! i + 65536 - c * 65536)"
    using b m d s by (intro chk_ok; simp; linarith)+
  have n: "v[i := x] ! k = v ! k" "v[i := x, k := y] ! i = x" for x y using l k assms(1) by simp_all
  show ?thesis
    unfolding car_step_checked_def car_step_def Let_def k_def [symmetric] ok(1) Option.bind.bind_lunit nth_list_update_eq
      c_def [symmetric] d_def [symmetric] ok(2,3) s_def [symmetric] n ok(4-)
    using l assms(1) by (simp add: n flip: c_def d_def s_def)
qed

lemma upt_prefix: "[0..<n] = pre @ x # post \<Longrightarrow> pre = [0..<x] \<and> x < n"
proof -
  assume a: "[0..<n] = pre @ x # post"
  have l: "length pre < n" using arg_cong [OF a, of length] by simp
  have "x = length pre" using arg_cong [OF a, of "\<lambda>xs. xs ! length pre"] l by (simp add: nth_append)
  moreover have "pre = take (length pre) [0..<n]" using a by simp
  then have "pre = [0..<length pre]" using l by simp
  ultimately show "pre = [0..<x] \<and> x < n" using l by simp
qed

lemma car_steps_bound:
  assumes "within M v" and "65536 \<le> M" and "n \<le> 15"
  shows "length (foldl car_step v [0..<n]) = 16 \<and>
    (\<forall>j < 16. \<bar>foldl car_step v [0..<n] ! j\<bar> \<le> (if j = n then 2 * M else M)) \<and>
    (\<forall>j < 16. n < j \<longrightarrow> foldl car_step v [0..<n] ! j = v ! j)"
  using assms(3)
proof (induction n)
  case 0
  have "\<bar>v ! j\<bar> \<le> 2 * M" if "j < 16" for j using within_nth [OF assms(1) that] by linarith
  then show ?case using within_nth [OF assms(1)] within_length [OF assms(1)] by simp
next
  case (Suc n)
  let ?w = "foldl car_step v [0..<n]"
  have n: "n < 15" using Suc.prems by simp
  note ih = Suc.IH [OF less_imp_le [OF n]]
  have l: "length ?w = 16" and wn: "\<bar>?w ! n\<bar> \<le> 2 * M" and wj: "\<And>j. j < 16 \<Longrightarrow> j \<noteq> n \<Longrightarrow> \<bar>?w ! j\<bar> \<le> M"
    and ws: "?w ! Suc n = v ! Suc n" and wg: "\<And>j. j < 16 \<Longrightarrow> n < j \<Longrightarrow> ?w ! j = v ! j"
  proof -
    show "\<bar>?w ! n\<bar> \<le> 2 * M" using ih [THEN conjunct2, THEN conjunct1, rule_format, of n] n by simp
  qed (use ih n in auto)
  have step: "foldl car_step v [0..<Suc n] = ?w[n := ?w ! n mod 65536, Suc n := v ! Suc n + ?w ! n div 65536]"
    using car_step_simp(1) [of n ?w] n l ws by simp
  have m: "0 \<le> ?w ! n mod 65536" "?w ! n mod 65536 < 65536" by simp_all
  have q: "\<bar>?w ! n div 65536\<bar> \<le> M"
    using wn m(1,2) mult_div_mod_eq [of 65536 "?w ! n"] assms(2) by linarith
  have s: "\<bar>v ! Suc n\<bar> \<le> M" using within_nth [OF assms(1)] n by simp
  have b: "\<bar>foldl car_step v [0..<Suc n] ! j\<bar> \<le> (if j = Suc n then 2 * M else M)" if "j < 16" for j
  proof -
    consider "j = n" | "j = Suc n" | "j \<noteq> n" "j \<noteq> Suc n" by blast
    then show ?thesis
    proof cases
      case 1
      then show ?thesis unfolding step using m assms(2) l n by simp
    next
      case 2
      have "\<bar>v ! Suc n + ?w ! n div 65536\<bar> \<le> 2 * M" using q s by linarith
      then show ?thesis unfolding step using 2 l n by simp
    next
      case 3
      then show ?thesis unfolding step using wj [OF that] by simp
    qed
  qed
  then show ?case unfolding step using l wg by simp
qed

lemma car25519_checked_ok:
  assumes "within (2 ^ 59) v"
  shows "car25519_checked v = Some (car25519 v)"
  unfolding car25519_checked_def car25519_def
proof (rule fold_checked_ok)
  fix pre x post
  assume "[0..<16] = pre @ x # post"
  then have x: "pre = [0..<x]" "x < 16" using upt_prefix by blast+
  have b: "length (foldl car_step v [0..<x]) = 16 \<and>
    (\<forall>j < 16. \<bar>foldl car_step v [0..<x] ! j\<bar> \<le> (if j = x then 2 * 2 ^ 59 else 2 ^ 59))"
    using car_steps_bound [OF assms, of x] x(2) by simp
  have "within (2 ^ 60) (foldl car_step v pre)"
  proof (rule withinI)
    show "length (foldl car_step v pre) = 16" using b x(1) by simp
    show "\<bar>foldl car_step v pre ! j\<bar> \<le> 2 ^ 60" if "j < 16" for j
      using b x(1) that by (cases "j = x") auto
  qed
  then show "car_step_checked (foldl car_step v pre) x = Some (car_step (foldl car_step v pre) x)"
    by (rule car_step_checked_ok [OF x(2)])
qed

lemma filter_prefix: "xs = pre @ post \<Longrightarrow> length (filter P pre) \<le> length (filter P xs)"
  by simp

lemma mul_steps_checked_ok:
  assumes "within (2 ^ 24) a" "within (2 ^ 24) b"
  shows "fold_checked (mul_step_checked a b) (replicate 31 0) (List.product [0..<16] [0..<16]) = Some (product_limbs a b)"
  unfolding product_limbs_def
proof (rule fold_checked_ok)
  fix pre x post
  assume p: "List.product [0..<16] [0..<16] = pre @ x # post"
  obtain i j where x: "x = (i, j)" by force
  have all: "\<forall>(i, j) \<in> set (pre @ [x]). i < 16 \<and> j < 16"
  proof -
    have "set (pre @ [x]) \<subseteq> set (List.product [0..<16] [0..<16])" unfolding p by auto
    then show ?thesis by auto
  qed
  then have ij: "i < 16" "j < 16" and pre: "list_all (\<lambda>(i, j). i < 16 \<and> j < 16 \<and> i + j < length (replicate 31 (0::int))) pre"
    using x by (auto simp: list_all_iff split: prod.splits)
  let ?t = "foldl (mul_step a b) (replicate 31 0) pre"
  have "\<bar>?t ! (i + j)\<bar> \<le> 2 ^ 24 * 2 ^ 24 * int (length (filter (\<lambda>(i', j'). i' + j' = i + j) pre))"
    using mul_step_bound [OF assms pre, of "i + j"] ij by simp
  also have "\<dots> \<le> 2 ^ 24 * 2 ^ 24 * 16"
    using filter_prefix [OF p, of "\<lambda>(i', j'). i' + j' = i + j"] count_pairs [of "i + j" "[0..<16]"] by simp
  finally have t: "\<bar>?t ! (i + j)\<bar> \<le> 4503599627370496" by simp
  have "\<bar>a ! i * b ! j\<bar> \<le> 2 ^ 24 * 2 ^ 24"
    unfolding abs_mult using within_nth [OF assms(1) ij(1)] within_nth [OF assms(2) ij(2)] by (intro mult_mono) simp_all
  then have p: "\<bar>a ! i * b ! j\<bar> \<le> 281474976710656" by simp
  have "chk (a ! i * b ! j) = Some (a ! i * b ! j)" "chk (?t ! (i + j) + a ! i * b ! j) = Some (?t ! (i + j) + a ! i * b ! j)"
    using t p by (intro chk_ok; simp; linarith)+
  then show "mul_step_checked a b ?t x = Some (mul_step a b ?t x)"
    by (simp add: mul_step_checked_def mul_step_def x)
qed

lemma fold_steps_checked_ok:
  assumes "within (2 ^ 24) a" "within (2 ^ 24) b"
  shows "fold_checked fold_step_checked (product_limbs a b) [0..<15] = Some (foldl fold_step (product_limbs a b) [0..<15])"
proof (rule fold_checked_ok)
  fix pre i post
  assume "[0..<15] = pre @ i # post"
  then have i: "pre = [0..<i]" "i < 15" using upt_prefix by blast+
  have l: "length (product_limbs a b) = 31" by (simp add: product_limbs_def)
  let ?t = "foldl fold_step (product_limbs a b) pre"
  have t: "?t ! (i + 16) = product_limbs a b ! (i + 16)" "?t ! i = product_limbs a b ! i"
    using fold_steps [of i, OF _ l] i by simp_all
  have p: "\<bar>product_limbs a b ! (i + 16)\<bar> \<le> 4503599627370496" "\<bar>product_limbs a b ! i\<bar> \<le> 4503599627370496"
    using product_bound [OF assms, of "i + 16"] product_bound [OF assms, of i] i(2) by simp_all
  have "chk (38 * product_limbs a b ! (i + 16)) = Some (38 * product_limbs a b ! (i + 16))"
    "chk (product_limbs a b ! i + 38 * product_limbs a b ! (i + 16)) = Some (product_limbs a b ! i + 38 * product_limbs a b ! (i + 16))"
    using p by (intro chk_ok; simp; linarith)+
  then show "fold_step_checked ?t i = Some (fold_step ?t i)"
    by (simp add: fold_step_checked_def fold_step_def t)
qed

lemma gf_M_checked_ok:
  assumes "within (2 ^ 24) a" "within (2 ^ 24) b"
  shows "gf_M_checked a b = Some (gf_M a b)"
proof -
  have v: "within 175640385467449344 (folded_limbs a b)" using folded_within [OF assms] by simp
  have c: "\<bar>fe (folded_limbs a b) div 65536 ^ 16\<bar> \<le> 2680101997110" using fe_div_bound [OF v] by simp
  have "within (65535 + 38 * 2680101997110) (car25519 (folded_limbs a b))"
    by (rule car25519_within [OF within_length [OF v] c]) simp
  then have w: "within (2 ^ 59) (car25519 (folded_limbs a b))" "within (2 ^ 59) (folded_limbs a b)"
    using v by (auto intro: within_mono)
  show ?thesis
    using car25519_checked_ok [OF w(2)] car25519_checked_ok [OF w(1)]
    by (simp add: gf_M_checked_def mul_steps_checked_ok [OF assms] fold_steps_checked_ok [OF assms] gf_M_folded
        flip: folded_limbs_def)
qed

end
