(* ===== verification/Scalars.thy ===== *)
theory Scalars
  imports Keys Field_Bounds
begin

text \<open>
  The arithmetic of cmd/tweetnacl.c modulo the order of the Ed25519 group: \<open>modL\<close> returns the residue of
  the number in its 64 limbs, for limbs up to \<open>2^27\<close>, which covers the 64 bytes of a hash
  (\<open>reduce\<close>) and the product and sum that \<open>crypto_sign\<close> forms. One round of the code removes a limb
  \<open>x ! i\<close> by subtracting \<open>16 * x ! i\<close> times the order, whose digits 20 to 30 are zero, and carries
  with digits from -128 to 127; the invariant \<open>round_inv\<close> bounds every limb after \<open>m\<close> rounds.
\<close>

unbundle bit_operations_syntax


section \<open>One round of the reduction\<close>

text \<open>The inner loop carries with digits from \<open>-128\<close> to \<open>127\<close>: that is a normal carry of the limbs
  moved up by 128, with the digits moved down again.\<close>

definition lower :: "int list \<Rightarrow> int list" where
  "lower xs = map (\<lambda>y. y - 128) xs"

definition raise_limbs :: "int list \<Rightarrow> int list" where
  "raise_limbs xs = map (\<lambda>y. y + 128) xs"

definition round_limbs :: "int list \<Rightarrow> nat \<Rightarrow> int list" where
  "round_limbs x i = map (\<lambda>j. x ! (i - 32 + j) - 16 * x ! i * order_L ! j) [0..<20]"

lemma length_round_limbs [simp]: "length (round_limbs x i) = 20"
  by (simp add: round_limbs_def)

lemma length_lower [simp]: "length (lower xs) = length xs" "length (raise_limbs xs) = length xs"
  by (simp_all add: lower_def raise_limbs_def)

lemma inner_loop:
  assumes "length x = 64" and "32 \<le> i" and "i < 64" and "n \<le> 20"
  shows "foldl (modL_inner i) (x, 0) [i - 32..<i - 32 + n] =
    (case norm_limbs 256 (take n (raise_limbs (round_limbs x i))) 0 of (ds, c) \<Rightarrow>
      (take (i - 32) x @ lower ds @ drop (i - 32 + n) x, c))"
  using assms(4)
proof (induction n)
  case 0
  then show ?case by (simp add: lower_def)
next
  case (Suc n)
  define a where "a = i - 32"
  have i: "i = a + 32" and a: "a + 32 < 64" using assms by (simp_all add: a_def)
  obtain ds c where dc: "norm_limbs 256 (take n (raise_limbs (round_limbs x i))) 0 = (ds, c)" by force
  have l: "length ds = n" using norm_length [of 256 "take n (raise_limbs (round_limbs x i))" 0] dc Suc.prems by simp
  have d: "drop (a + n) x = x ! (a + n) # drop (Suc (a + n)) x" using a Suc.prems assms(1) by (simp add: Cons_nth_drop_Suc)
  have t: "take (Suc n) (raise_limbs (round_limbs x i)) =
      take n (raise_limbs (round_limbs x i)) @ [x ! (a + n) - 16 * x ! i * order_L ! n + 128]"
    using Suc.prems by (simp add: take_Suc_conv_app_nth raise_limbs_def round_limbs_def a_def)
  let ?y = "take a x @ lower ds @ drop (a + n) x"
  let ?v = "x ! (a + n) + (c - 16 * x ! i * order_L ! n)"
  have y: "?y ! (a + n) = x ! (a + n)" "?y ! i = x ! i" "length ?y = 64"
    using l a Suc.prems assms(1) by (simp_all add: nth_append i)
  define g where "g v = take a x @ lower ds @ v # drop (Suc (a + n)) x" for v
  have "?y[a + n := v] = g v" for v
    unfolding d using l a assms(1) by (simp add: list_update_append g_def)
  moreover have "g v ! (a + n) = v" "(g v)[a + n := w] = g w" for v w
    using l a assms(1) by (simp_all add: list_update_append nth_append g_def)
  moreover have "v - (v + 128) div 256 * 256 = (v + 128) mod 256 - 128" for v :: int
    using minus_div_mult_eq_mod [of "v + 128" 256] by simp
  ultimately have "modL_inner i (?y, c) (a + n) = (g ((?v + 128) mod 256 - 128), (?v + 128) div 256)"
    using y(1,2) by (simp add: modL_inner_def Let_def i)
  then have "modL_inner i (?y, c) (a + n) =
      (take a x @ lower (ds @ [(?v + 128) mod 256]) @ drop (Suc (a + n)) x, (?v + 128) div 256)"
    by (simp add: g_def lower_def)
  then show ?case
    using Suc.IH Suc.prems dc unfolding t norm_append by (simp add: a_def [symmetric] algebra_simps)
qed

lemma outer_round:
  assumes "length x = 64" and "32 \<le> i" and "i < 64"
  obtains ds c where "norm_limbs 256 (raise_limbs (round_limbs x i)) 0 = (ds, c)" and "length ds = 20"
    and "modL_outer x i = (take (i - 32) x @ lower ds @ drop (i - 12) x)[i - 12 := x ! (i - 12) + c, i := 0]"
proof -
  obtain ds c where dc: "norm_limbs 256 (raise_limbs (round_limbs x i)) 0 = (ds, c)" by force
  have l: "length ds = 20" using norm_length [of 256 "raise_limbs (round_limbs x i)" 0] dc by simp
  have i: "i - 12 = i - 32 + 20" using assms(2) by simp
  define y where "y = take (i - 32) x @ lower ds @ drop (i - 12) x"
  have "\<not> i - 12 < i - 32" "\<not> i - 12 - (i - 32) < 20" using assms(2) by linarith+
  then have y: "y ! (i - 12) = x ! (i - 12)"
    using assms l by (simp add: nth_append y_def)
  have "take 20 (raise_limbs (round_limbs x i)) = raise_limbs (round_limbs x i)" by (rule take_all) simp
  then have "foldl (modL_inner i) (x, 0) [i - 32..<i - 12] = (y, c)"
    using inner_loop [OF assms order_refl] unfolding i y_def dc by (simp only: dc prod.case)
  then have "modL_outer x i = y[i - 12 := x ! (i - 12) + c, i := 0]"
    unfolding modL_outer_def by (simp only: Let_def prod.case y)
  then show thesis using that [OF dc l] unfolding y_def by blast
qed

lemma order_L_values: "num 256 order_L = int group_order" "num 256 (take 20 order_L) = int group_order - 2 ^ 252" "length order_L = 32"
  by (simp_all add: order_L_def group_order_def)

lemma num_shift: "num B (map (\<lambda>y. y + k) xs) = num B xs + num B (replicate (length xs) k)"
  by (induction xs) (simp_all add: algebra_simps)

lemma lower_value:
  assumes "norm_limbs 256 (raise_limbs ys) 0 = (ds, c)"
  shows "num 256 (lower ds) + 256 ^ length ys * c = num 256 ys"
proof -
  have "length ds = length ys" using norm_length [of 256 "raise_limbs ys" 0] assms by simp
  moreover have "num 256 (lower ds) = num 256 ds + num 256 (replicate (length ds) (- 128))"
    using num_shift [of 256 "- 128" ds] by (simp add: lower_def)
  moreover have "num 256 (raise_limbs ys) = num 256 ys + num 256 (replicate (length ys) 128)"
    by (simp add: raise_limbs_def num_shift)
  moreover have "num 256 (replicate n 128) + num 256 (replicate n (- 128)) = 0" for n by (induction n) simp_all
  from this [of "length ys"] have "num 256 (replicate (length ys) (- 128)) = - num 256 (replicate (length ys) 128)" by linarith
  ultimately show ?thesis using norm_num [of 256 "raise_limbs ys" 0] assms by simp
qed

lemma lower_range:
  assumes "norm_limbs 256 (raise_limbs ys) 0 = (ds, c)" and "k < length ys"
  shows "\<bar>lower ds ! k\<bar> \<le> 128"
proof -
  have "length ds = length ys" using norm_length [of 256 "raise_limbs ys" 0] assms(1) by simp
  moreover have "digits_ok 256 ds" using norm_digits [of 256 "raise_limbs ys" 0] assms(1) by simp
  ultimately have "0 \<le> ds ! k" "ds ! k < 256" "lower ds ! k = ds ! k - 128"
    using assms(2) by (auto simp: digits_ok_def list_all_length lower_def)
  then show ?thesis by linarith
qed

lemma num_scaled: "num B (map (\<lambda>j. f j - c * g j) js) = num B (map f js) - c * num B (map g js)"
proof (induction js)
  case (Cons j js)
  show ?case unfolding list.map num.simps Cons by (simp add: algebra_simps)
qed simp

lemma round_value:
  assumes "length x = 64" and "32 \<le> i" and "i < 64"
  shows "num 256 (round_limbs x i) = num 256 (take 20 (drop (i - 32) x)) - 16 * x ! i * (int group_order - 2 ^ 252)"
proof -
  have "map (\<lambda>j. x ! (i - 32 + j)) [0..<20] = take 20 (drop (i - 32) x)"
    using assms by (intro nth_equalityI) simp_all
  moreover have "map (\<lambda>j. order_L ! j) [0..<20] = take 20 order_L"
    using order_L_values(3) by (intro nth_equalityI) simp_all
  ultimately show ?thesis unfolding round_limbs_def num_scaled order_L_values(2) [symmetric] by simp
qed

lemma outer_value:
  assumes "length x = 64" and "32 \<le> i" and "i < 64"
  shows "num 256 (modL_outer x i) = num 256 x - int group_order * (16 * x ! i * 256 ^ (i - 32))"
proof -
  define a where "a = i - 32"
  have i: "i = a + 32" "i - 12 = a + 20" "i - 32 = a" using assms(2) by (simp_all add: a_def)
  obtain ds c where dc: "norm_limbs 256 (raise_limbs (round_limbs x i)) 0 = (ds, c)" and l: "length ds = 20"
    and m: "modL_outer x i = (take a x @ lower ds @ drop (a + 20) x)[a + 20 := x ! (a + 20) + c, i := 0]"
    by (rule outer_round [OF assms, unfolded i(2,3)])
  let ?y = "take a x @ lower ds @ drop (a + 20) x"
  have y: "length ?y = 64" "?y ! (a + 20) = x ! (a + 20)" "?y ! i = x ! i"
    using assms l by (simp_all add: nth_append i add.commute)
  have "x = take a x @ take 20 (drop a x) @ drop (a + 20) x" by (metis append_take_drop_id take_add drop_drop append.assoc add.commute)
  then have x: "num 256 x = num 256 (take a x) + 256 ^ a * (num 256 (take 20 (drop a x)) + 256 ^ 20 * num 256 (drop (a + 20) x))"
    using num_append [of 256 "take a x" "take 20 (drop a x) @ drop (a + 20) x"] num_append [of 256 "take 20 (drop a x)" "drop (a + 20) x"] assms i(1)
    by simp
  have "num 256 ?y = num 256 (take a x) + 256 ^ a * (num 256 (lower ds) + 256 ^ 20 * num 256 (drop (a + 20) x))"
    using assms l i(1) by (simp add: num_append)
  moreover have "num 256 (lower ds) + 256 ^ 20 * c = num 256 (take 20 (drop a x)) - 16 * x ! i * (int group_order - 2 ^ 252)"
    using lower_value [OF dc] round_value [OF assms] by (simp add: i(3))
  moreover have "num 256 (modL_outer x i) = num 256 ?y + c * 256 ^ (a + 20) - x ! i * 256 ^ i"
    unfolding m using y assms by (simp add: num_update i)
  ultimately have "num 256 (modL_outer x i) - num 256 x =
      256 ^ a * (num 256 (lower ds) + 256 ^ 20 * c - num 256 (take 20 (drop a x))) - x ! i * 256 ^ i"
    unfolding x by (simp add: power_add algebra_simps)
  moreover have "num 256 (lower ds) + 256 ^ 20 * c - num 256 (take 20 (drop a x)) = - (16 * x ! i * (int group_order - 2 ^ 252))"
    using lower_value [OF dc] round_value [OF assms] by (simp add: i(3))
  moreover have "x ! i * 256 ^ i = 256 ^ a * (16 * x ! i * 2 ^ 252)" by (simp add: i(1) power_add)
  ultimately show ?thesis by (simp only: i(3)) (simp add: algebra_simps)
qed


lemma outer_nth:
  assumes "length x = 64" and "32 \<le> i" and "i < 64"
  obtains ds c where "norm_limbs 256 (raise_limbs (round_limbs x i)) 0 = (ds, c)"
    and "length (modL_outer x i) = 64"
    and "\<And>k. k < 64 \<Longrightarrow> modL_outer x i ! k =
      (if k = i then 0 else if k = i - 12 then x ! k + c else if i - 32 \<le> k \<and> k < i - 12 then lower ds ! (k - (i - 32)) else x ! k)"
proof (rule outer_round [OF assms])
  fix ds c
  assume dc: "norm_limbs 256 (raise_limbs (round_limbs x i)) 0 = (ds, c)" and l: "length ds = 20"
    and m: "modL_outer x i = (take (i - 32) x @ lower ds @ drop (i - 12) x)[i - 12 := x ! (i - 12) + c, i := 0]"
  define a where "a = i - 32"
  have i: "i - 12 = a + 20" "i - 32 = a" "i = a + 32" "a < 32" using assms by (simp_all add: a_def)
  have l': "length (modL_outer x i) = 64" unfolding m i(1,2) using assms l i(4) by simp
  have "modL_outer x i ! k =
      (if k = i then 0 else if k = i - 12 then x ! k + c else if i - 32 \<le> k \<and> k < i - 12 then lower ds ! (k - (i - 32)) else x ! k)"
    if "k < 64" for k
    unfolding m i(1,2) unfolding i(3) using assms(1) l i(4) that
    by (auto simp: nth_append nth_list_update)
  then show thesis using that dc l' by blast
qed

lemma num_abs_bound:
  assumes "list_all (\<lambda>x. \<bar>x\<bar> \<le> M) xs" and "0 \<le> M"
  shows "255 * \<bar>num 256 xs\<bar> \<le> M * 256 ^ length xs"
proof -
  have "M * (256 ^ length xs - 1) \<le> M * 256 ^ length xs" using assms(2) by (intro mult_left_mono) simp_all
  then show ?thesis using num_tight [OF assms(1), of 256] by (simp add: abs_if)
qed

lemma abs_terms:
  fixes a e l A E B :: int
  assumes "255 * \<bar>a\<bar> \<le> A" and "\<bar>e\<bar> \<le> E" and "255 * \<bar>l\<bar> \<le> B"
  shows "255 * \<bar>a - 16 * e - l\<bar> \<le> A + 4080 * E + B"
proof -
  have "\<bar>a - 16 * e - l\<bar> \<le> \<bar>a\<bar> + 16 * \<bar>e\<bar> + \<bar>l\<bar>" by (auto simp: abs_if)
  then show ?thesis using assms by (simp add: abs_if split: if_splits)
qed

lemma abs_two_terms:
  fixes a e A E :: int
  assumes "255 * \<bar>a\<bar> \<le> A" and "\<bar>e\<bar> \<le> E"
  shows "255 * \<bar>e + 256 * a\<bar> \<le> 255 * E + 256 * A"
proof -
  have "\<bar>e + 256 * a\<bar> \<le> \<bar>e\<bar> + 256 * \<bar>a\<bar>" by (auto simp: abs_if)
  then show ?thesis using assms by (simp add: abs_if split: if_splits)
qed

lemma carry_bound:
  assumes "length x = 64" and "32 \<le> i" and "i < 64"
    and dc: "norm_limbs 256 (raise_limbs (round_limbs x i)) 0 = (ds, c)"
    and xi: "\<bar>x ! i\<bar> \<le> 2 ^ 28" and S: "255 * \<bar>num 256 (take 20 (drop (i - 32) x))\<bar> \<le> S * 256 ^ 20"
  shows "255 * \<bar>c\<bar> \<le> S + 160"
proof -
  let ?n = "num 256 (take 20 (drop (i - 32) x))" and ?d = "27742317777372353535851937790883648493 :: int"
  have l: "length ds = 20" using norm_length [of 256 "raise_limbs (round_limbs x i)" 0] dc by simp
  have "list_all (\<lambda>x. \<bar>x\<bar> \<le> 128) (lower ds)"
    using lower_range [OF dc] l by (simp add: list_all_length)
  from num_abs_bound [OF this] have t: "255 * \<bar>num 256 (lower ds)\<bar> \<le> 128 * 256 ^ 20" using l by simp
  have "\<bar>x ! i * ?d\<bar> \<le> 2 ^ 28 * ?d" unfolding abs_mult using xi by (intro mult_mono) simp_all
  moreover have "num 256 (lower ds) + 256 ^ 20 * c = ?n - 16 * (x ! i * ?d)"
    using lower_value [OF dc] round_value [OF assms(1-3)] by (simp add: group_order_def)
  ultimately have "256 ^ 20 * c = ?n - 16 * (x ! i * ?d) - num 256 (lower ds)" "\<bar>x ! i * ?d\<bar> \<le> 2 ^ 28 * ?d" by simp_all
  then have "255 * \<bar>256 ^ 20 * c\<bar> \<le> S * 256 ^ 20 + 4080 * (2 ^ 28 * ?d) + 128 * 256 ^ 20"
    using abs_terms [OF S _ t] by metis
  also have "\<dots> \<le> (S + 160) * 256 ^ 20" by (simp add: algebra_simps)
  finally have "255 * \<bar>256 ^ 20 * c\<bar> \<le> (S + 160) * 256 ^ 20" .
  then show ?thesis by (simp add: abs_mult)
qed

definition round_inv :: "nat \<Rightarrow> int list \<Rightarrow> bool" where
  "round_inv m x \<longleftrightarrow> length x = 64 \<and> (\<forall>k < 64. \<bar>x ! k\<bar> \<le> 2 ^ 28 \<and> (64 \<le> k + m \<longrightarrow> x ! k = 0) \<and>
    (32 \<le> k + m \<and> k \<le> 50 \<longrightarrow> \<bar>x ! k\<bar> \<le> 129) \<and> (32 \<le> k + m \<and> k + m \<le> 51 \<longrightarrow> \<bar>x ! k\<bar> \<le> 128))"

lemma round_first:
  assumes "length x = 64" and "\<And>k. k < 64 \<Longrightarrow> \<bar>x ! k\<bar> \<le> 2 ^ 27"
  shows "round_inv 1 (modL_outer x 63)"
proof -
  obtain ds c where dc: "norm_limbs 256 (raise_limbs (round_limbs x 63)) 0 = (ds, c)"
    and l: "length (modL_outer x 63) = 64"
    and n: "\<And>k. k < 64 \<Longrightarrow> modL_outer x 63 ! k =
      (if k = 63 then 0 else if k = 51 then x ! k + c else if 31 \<le> k \<and> k < 51 then lower ds ! (k - 31) else x ! k)"
    by (rule outer_nth [OF assms(1), of 63]) simp_all
  have "list_all (\<lambda>x. \<bar>x\<bar> \<le> 2 ^ 27) (take 20 (drop 31 x))"
    using assms by (simp add: list_all_length)
  from num_abs_bound [OF this] have S: "255 * \<bar>num 256 (take 20 (drop (63 - 32) x))\<bar> \<le> 2 ^ 27 * 256 ^ 20"
    using assms(1) by simp
  have "255 * \<bar>c\<bar> \<le> 2 ^ 27 + 160"
    using carry_bound [OF assms(1) _ _ dc _ S] assms(2) [of 63] by simp
  then have "\<bar>x ! 51 + c\<bar> \<le> 2 ^ 28" using assms(2) [of 51] by simp
  moreover have "\<bar>x ! k\<bar> \<le> 2 ^ 28" if "k < 64" for k using assms(2) [OF that] by simp
  moreover have "\<bar>lower ds ! (k - 31)\<bar> \<le> 128" if "31 \<le> k" "k < 51" for k using lower_range [OF dc] that by simp
  ultimately have b: "\<bar>modL_outer x 63 ! k\<bar> \<le> 2 ^ 28" "63 \<le> k \<Longrightarrow> modL_outer x 63 ! k = 0"
    "31 \<le> k \<Longrightarrow> k < 51 \<Longrightarrow> \<bar>modL_outer x 63 ! k\<bar> \<le> 128" if "k < 64" for k
    using that unfolding n [OF that] by (simp_all, force?)
  show ?thesis unfolding round_inv_def
  proof (intro conjI allI impI l)
    fix k :: nat
    assume k: "k < 64"
    show "\<bar>modL_outer x 63 ! k\<bar> \<le> 2 ^ 28" by (rule b(1) [OF k])
    show "64 \<le> k + 1 \<Longrightarrow> modL_outer x 63 ! k = 0" using b(2) [OF k] by linarith
    show "32 \<le> k + 1 \<and> k \<le> 50 \<Longrightarrow> \<bar>modL_outer x 63 ! k\<bar> \<le> 129" using b(3) [OF k] by linarith
    show "32 \<le> k + 1 \<and> k + 1 \<le> 51 \<Longrightarrow> \<bar>modL_outer x 63 ! k\<bar> \<le> 128" using b(3) [OF k] by linarith
  qed
qed

lemma round_next:
  assumes "round_inv m x" and "1 \<le> m" and "m < 32"
  shows "round_inv (Suc m) (modL_outer x (63 - m))"
proof -
  define a where "a = 31 - m"
  have m: "63 - m = a + 32" "a + 32 - 12 = a + 20" "a + 32 - 32 = a" "a < 31" and a: "m = 31 - a" using assms(2,3) by (simp_all add: a_def)
  have am: "a + m = 31" using assms(3) by (simp add: a_def)
  have inv: "\<bar>x ! k\<bar> \<le> 2 ^ 28 \<and> (64 \<le> k + m \<longrightarrow> x ! k = 0) \<and>
    (32 \<le> k + m \<and> k \<le> 50 \<longrightarrow> \<bar>x ! k\<bar> \<le> 129) \<and> (32 \<le> k + m \<and> k + m \<le> 51 \<longrightarrow> \<bar>x ! k\<bar> \<le> 128)" if "k < 64" for k
    using assms(1) that by (simp add: round_inv_def)
  have x: "length x = 64" "\<And>k. k < 64 \<Longrightarrow> \<bar>x ! k\<bar> \<le> 2 ^ 28" using assms(1) by (simp_all add: round_inv_def)
  have y: "a + 33 \<le> k \<Longrightarrow> x ! k = 0" "a < k \<Longrightarrow> k \<le> 50 \<Longrightarrow> \<bar>x ! k\<bar> \<le> 129" "a < k \<Longrightarrow> k \<le> a + 20 \<Longrightarrow> \<bar>x ! k\<bar> \<le> 128"
    if "k < 64" for k using inv [OF that] am by (simp; linarith)+
  obtain ds c where dc: "norm_limbs 256 (raise_limbs (round_limbs x (a + 32))) 0 = (ds, c)"
    and l: "length (modL_outer x (a + 32)) = 64"
    and n: "\<And>k. k < 64 \<Longrightarrow> modL_outer x (a + 32) ! k =
      (if k = a + 32 then 0 else if k = a + 20 then x ! k + c else if a \<le> k \<and> k < a + 20 then lower ds ! (k - a) else x ! k)"
    by (rule outer_nth [OF x(1), of "a + 32", unfolded m(2,3)]) (use m(4) in simp_all)
  have seg: "take 20 (drop a x) = x ! a # take 19 (drop (Suc a) x)"
    using x(1) m(4) by (simp add: Cons_nth_drop_Suc [symmetric])
  have "list_all (\<lambda>x. \<bar>x\<bar> \<le> 128) (take 19 (drop (Suc a) x))"
    using x(1) y(3) m(4) by (simp add: list_all_length)
  from num_abs_bound [OF this] have "255 * \<bar>num 256 (take 19 (drop (Suc a) x))\<bar> \<le> 128 * 256 ^ 19"
    using x(1) m(4) by simp
  then have S: "255 * \<bar>num 256 (take 20 (drop (a + 32 - 32) x))\<bar> \<le> 129 * 256 ^ 20"
    unfolding m(3) seg num.simps using abs_two_terms [OF _ x(2) [of a], of "num 256 (take 19 (drop (Suc a) x))" "128 * 256 ^ 19"] m(4) by simp
  have "255 * \<bar>c\<bar> \<le> 129 + 160"
    by (rule carry_bound [OF x(1) _ _ dc _ S]) (use x(2) m(4) in simp_all)
  then have c: "\<bar>c\<bar> \<le> 1" by linarith
  have d: "\<bar>lower ds ! (k - a)\<bar> \<le> 128" if "a \<le> k" "k < a + 20" for k using lower_range [OF dc] that by simp
  have "\<bar>x ! (a + 20) + c\<bar> \<le> 129" using y(3) [of "a + 20"] m(4) c by simp
  then have b: "\<bar>modL_outer x (a + 32) ! k\<bar> \<le> 2 ^ 28" "a + 32 \<le> k \<Longrightarrow> modL_outer x (a + 32) ! k = 0"
    "a \<le> k \<Longrightarrow> k \<le> 50 \<Longrightarrow> \<bar>modL_outer x (a + 32) ! k\<bar> \<le> 129" "a \<le> k \<Longrightarrow> k < a + 20 \<Longrightarrow> \<bar>modL_outer x (a + 32) ! k\<bar> \<le> 128"
    if "k < 64" for k
    using x(2) [OF that] y [OF that] d [of k] \<open>\<bar>x ! (a + 20) + c\<bar> \<le> 129\<close> unfolding n [OF that] by auto
  show ?thesis unfolding round_inv_def m(1) proof (intro conjI allI impI l)
    fix k :: nat
    assume k: "k < 64"
    show "\<bar>modL_outer x (a + 32) ! k\<bar> \<le> 2 ^ 28" by (rule b(1) [OF k])
    show "64 \<le> k + Suc m \<Longrightarrow> modL_outer x (a + 32) ! k = 0" using b(2) [OF k] am by linarith
    show "32 \<le> k + Suc m \<and> k \<le> 50 \<Longrightarrow> \<bar>modL_outer x (a + 32) ! k\<bar> \<le> 129" using b(3) [OF k] am by linarith
    show "32 \<le> k + Suc m \<and> k + Suc m \<le> 51 \<Longrightarrow> \<bar>modL_outer x (a + 32) ! k\<bar> \<le> 128" using b(4) [OF k] am by linarith
  qed
qed

lemma rounds_inv:
  assumes "length x = 64" and "\<And>k. k < 64 \<Longrightarrow> \<bar>x ! k\<bar> \<le> 2 ^ 27"
  shows "round_inv 32 (foldl modL_outer x (rev [32..<64]))"
    and "num 256 (foldl modL_outer x (rev [32..<64])) mod int group_order = num 256 x mod int group_order"
proof -
  have r: "rev [32..<64] = map (\<lambda>m. 63 - m) [0..<32 :: nat]" by (simp add: upt_rec)
  have "round_inv m (foldl (\<lambda>x m. modL_outer x (63 - m)) x [0..<m])" if "1 \<le> m" "m \<le> 32" for m
    using that
  proof (induction m rule: nat_induct_at_least)
    case base
    then show ?case using round_first [OF assms] by simp
  next
    case (Suc m)
    then show ?case using round_next [of m] by simp
  qed
  from this [of 32] show "round_inv 32 (foldl modL_outer x (rev [32..<64]))" by (simp only: r foldl_map)
  have "length (foldl (\<lambda>x m. modL_outer x (63 - m)) x [0..<m]) = 64 \<and>
      num 256 (foldl (\<lambda>x m. modL_outer x (63 - m)) x [0..<m]) mod int group_order = num 256 x mod int group_order" if "m \<le> 32" for m
    using that
  proof (induction m)
    case (Suc m)
    let ?x = "foldl (\<lambda>x m. modL_outer x (63 - m)) x [0..<m]"
    have l: "length ?x = 64" using Suc by simp
    have "num 256 (modL_outer ?x (63 - m)) mod int group_order = num 256 ?x mod int group_order"
      using outer_value [OF l, of "63 - m"] Suc.prems by (simp add: mod_diff_right_eq [symmetric])
    moreover have "length (modL_outer ?x (63 - m)) = 64" by (rule outer_nth [OF l, of "63 - m"]) (use Suc.prems in simp_all)
    ultimately show ?case using Suc by simp
  qed (use assms(1) in simp)
  from this [of 32] show "num 256 (foldl modL_outer x (rev [32..<64])) mod int group_order = num 256 x mod int group_order"
    by (simp only: r foldl_map)
qed


section \<open>The last reduction\<close>

definition last_limbs :: "int list \<Rightarrow> int list" where
  "last_limbs y = map (\<lambda>j. y ! j - y ! 31 div 16 * order_L ! j) [0..<32]"

lemma last_loop:
  assumes "length y = 64" and "n \<le> 32"
  shows "foldl modL_last (y, 0) [0..<n] =
    (case norm_limbs 256 (take n (last_limbs y)) 0 of (ds, c) \<Rightarrow> (ds @ drop n y, c))"
  using assms(2)
proof (induction n)
  case (Suc n)
  obtain ds c where dc: "norm_limbs 256 (take n (last_limbs y)) 0 = (ds, c)" by force
  have l: "length ds = n" using norm_length [of 256 "take n (last_limbs y)" 0] dc Suc.prems
    by (simp add: last_limbs_def [THEN arg_cong [of _ _ length]])
  have d: "drop n y = y ! n # drop (Suc n) y" using Suc.prems assms(1) by (simp add: Cons_nth_drop_Suc)
  have t: "take (Suc n) (last_limbs y) = take n (last_limbs y) @ [y ! n - y ! 31 div 16 * order_L ! n]"
    using Suc.prems by (simp add: take_Suc_conv_app_nth last_limbs_def)
  have "(ds @ drop n y) ! 31 = y ! 31" using l Suc.prems assms(1) by (simp add: nth_append)
  then have y: "(ds @ drop n y) ! n = y ! n" "(ds @ drop n y) ! 31 = y ! 31" "(ds @ drop n y)[n := v] = ds @ v # drop (Suc n) y"
    "(ds @ v # drop (Suc n) y) ! n = v" "(ds @ v # drop (Suc n) y)[n := w] = ds @ w # drop (Suc n) y" for v w
    using l Suc.prems assms(1) by (simp_all add: nth_append list_update_append d)
  have "modL_last (ds @ drop n y, c) n =
      (ds @ (y ! n + (c - y ! 31 div 16 * order_L ! n)) mod 256 # drop (Suc n) y, (y ! n + (c - y ! 31 div 16 * order_L ! n)) div 256)"
    unfolding modL_last_def Let_def prod.case y and_masks(3) ..
  then show ?case
    using Suc dc unfolding t norm_append by (simp add: algebra_simps)
qed simp

lemma subtract_loop:
  assumes "length ds = 32" and "n \<le> 32"
  shows "foldl (\<lambda>x j. x[j := x ! j - c * order_L ! j]) (ds @ ys) [0..<n] =
    map (\<lambda>j. ds ! j - c * order_L ! j) [0..<n] @ drop n ds @ ys"
  using assms(2)
proof (induction n)
  case (Suc n)
  have "drop n ds = ds ! n # drop (Suc n) ds" using Suc.prems assms(1) by (simp add: Cons_nth_drop_Suc)
  then show ?case using Suc by (simp add: nth_append list_update_append)
qed simp

lemma out_loop_digits:
  "n < length x \<Longrightarrow> \<exists>x'. foldl modL_out (x, []) [0..<n] = (x', map word_of_int (fst (norm_limbs 256 (take n x) 0))) \<and>
     length x' = length x \<and> x' ! n = x ! n + snd (norm_limbs 256 (take n x) 0) \<and> (\<forall>k. n < k \<longrightarrow> x' ! k = x ! k)"
proof (induction n)
  case (Suc n)
  then obtain x' where x': "foldl modL_out (x, []) [0..<n] = (x', map word_of_int (fst (norm_limbs 256 (take n x) 0)))"
    "length x' = length x" "x' ! n = x ! n + snd (norm_limbs 256 (take n x) 0)" "\<forall>k. n < k \<longrightarrow> x' ! k = x ! k" by auto
  have t: "take (Suc n) x = take n x @ [x ! n]" using Suc.prems by (simp add: take_Suc_conv_app_nth)
  have "foldl modL_out (x, []) [0..<Suc n] = modL_out (x', map word_of_int (fst (norm_limbs 256 (take n x) 0))) n"
    using x'(1) by simp
  then show ?case
    using x'(2-4) Suc.prems unfolding t norm_append modL_out_def prod.case and_masks(3)
    by (simp add: split_beta nth_list_update)
qed simp

lemma le_value_digits: "digits_ok 256 ds \<Longrightarrow> int (le_value (map word_of_int ds)) = num 256 ds"
  by (induction ds) (simp_all add: digits_ok_def uint_word_of_int)

lemma group_order_int: "int group_order = 2 ^ 252 + 27742317777372353535851937790883648493"
  by (simp add: group_order_def)

text \<open>After the rounds the number is close to a multiple of the order.\<close>

lemma last_bound:
  assumes "round_inv 32 y"
  shows "- int group_order < num 256 y - y ! 31 div 16 * int group_order"
    and "num 256 y - y ! 31 div 16 * int group_order < int group_order"
    and "num 256 (take 32 y) = num 256 y"
proof -
  have y: "length y = 64" "\<And>k. k < 64 \<Longrightarrow> 32 \<le> k \<Longrightarrow> y ! k = 0" "\<And>k. k \<le> 50 \<Longrightarrow> \<bar>y ! k\<bar> \<le> 129"
    using assms by (auto simp: round_inv_def)
  have "drop 32 y = replicate 32 0" using y(1,2) by (intro nth_equalityI) simp_all
  then show v: "num 256 (take 32 y) = num 256 y"
    using num_append [of 256 "take 32 y" "drop 32 y"] by (metis append_take_drop_id num_replicate_0 mult_zero_right add_0_right)
  have "list_all (\<lambda>x. \<bar>x\<bar> \<le> 129) (take 31 y)" using y(1,3) by (simp add: list_all_length)
  from num_abs_bound [OF this] have low: "255 * \<bar>num 256 (take 31 y)\<bar> \<le> 129 * 256 ^ 31" using y(1) by simp
  have "take 32 y = take 31 y @ [y ! 31]" using take_Suc_conv_app_nth [of 31 y] y(1) by simp
  then have v': "num 256 y = num 256 (take 31 y) + 256 ^ 31 * (y ! 31)"
    unfolding v [symmetric] using y(1) by (simp add: num_append)
  define q where "q = y ! 31 div 16"
  define r where "r = y ! 31 mod 16"
  have qr: "y ! 31 = 16 * q + r" "0 \<le> r" "r < 16" by (simp_all add: q_def r_def)
  then have q: "- 9 \<le> q" "q \<le> 8" using y(3) [of 31] by simp_all
  have "num 256 y - q * int group_order =
      num 256 (take 31 y) + 256 ^ 31 * r - q * 27742317777372353535851937790883648493"
    unfolding v' qr(1) group_order_int by (simp add: algebra_simps)
  then show "- int group_order < num 256 y - y ! 31 div 16 * int group_order"
    "num 256 y - y ! 31 div 16 * int group_order < int group_order"
    unfolding q_def [symmetric] group_order_int using low q qr(2,3) by (simp_all add: abs_if split: if_splits)
qed

text \<open>\<open>modL\<close> computes the residue modulo the order of the group.\<close>

lemma modL_value:
  assumes "length x = 64" and "\<And>k. k < 64 \<Longrightarrow> \<bar>x ! k\<bar> \<le> 2 ^ 27"
  shows "int (le_value (modL x)) = num 256 x mod int group_order" and "length (modL x) = 32"
proof -
  define y where "y = foldl modL_outer x (rev [32..<64])"
  define W where "W = num 256 y - y ! 31 div 16 * int group_order"
  have inv: "round_inv 32 y" and eq: "num 256 y mod int group_order = num 256 x mod int group_order"
    using rounds_inv [OF assms] by (simp_all add: y_def)
  have l: "length y = 64" using inv by (simp add: round_inv_def)
  have W: "- int group_order < W" "W < int group_order" using last_bound [OF inv] by (simp_all add: W_def)
  obtain ds c where dc: "norm_limbs 256 (last_limbs y) 0 = (ds, c)" by force
  have ll: "length (last_limbs y) = 32" by (simp add: last_limbs_def)
  have ld: "length ds = 32" using norm_length [of 256 "last_limbs y" 0] dc ll by simp
  have "map (\<lambda>j. y ! j) [0..<32] = take 32 y" using l by (intro nth_equalityI) simp_all
  moreover have "map (\<lambda>j. order_L ! j) [0..<32] = order_L" using order_L_values(3) by (intro nth_equalityI) simp_all
  ultimately have nl: "num 256 (last_limbs y) = W"
    unfolding last_limbs_def num_scaled W_def by (simp add: last_bound(3) [OF inv] order_L_values(1))
  have c: "c = W div 256 ^ 32" "num 256 ds = W mod 256 ^ 32"
    using norm_carry [of 256 "last_limbs y" 0] dc nl ll by simp_all
  define zs where "zs = map (\<lambda>j. ds ! j - c * order_L ! j) [0..<32]"
  have "map (\<lambda>j. ds ! j) [0..<32] = ds" using ld by (intro nth_equalityI) simp_all
  then have nz: "num 256 zs = num 256 ds - c * int group_order"
    using \<open>map (\<lambda>j. order_L ! j) [0..<32] = order_L\<close> unfolding zs_def num_scaled by (simp add: order_L_values(1))
  have lz: "length zs = 32" by (simp add: zs_def)
  have "take 32 (last_limbs y) = last_limbs y" using ll by simp
  then have last: "foldl modL_last (y, 0) [0..<32] = (ds @ drop 32 y, c)" using last_loop [OF l order_refl] dc by simp
  have sub: "foldl (\<lambda>x j. x[j := x ! j - c * order_L ! j]) (ds @ drop 32 y) [0..<32] = zs @ drop 32 y"
    using subtract_loop [OF ld order_refl] ld by (simp add: zs_def)
  have out: "modL x = map word_of_int (fst (norm_limbs 256 zs 0))"
    using out_loop_digits [of 32 "zs @ drop 32 y"] l lz
    unfolding modL_def Let_def y_def [symmetric] last prod.case sub by auto
  show "length (modL x) = 32" using out lz by simp
  have "num 256 (fst (norm_limbs 256 zs 0)) = num 256 zs mod 256 ^ 32" using norm_carry(2) [of 256 zs 0] lz by simp
  also have "\<dots> = W mod int group_order"
  proof (cases "0 \<le> W")
    case True
    then have "c = 0" "num 256 ds = W" using W(2) by (simp_all add: c group_order_int)
    then show ?thesis using True W(2) nz by (simp add: group_order_int)
  next
    case False
    then have "c = - 1" using W(1) unfolding c(1) by (intro div_borrow) (simp_all add: group_order_int)
    moreover from this have "num 256 ds = W + 256 ^ 32"
      using c mult_div_mod_eq [of "256 ^ 32" W] by simp
    ultimately have "num 256 zs mod 256 ^ 32 = (W + int group_order) mod 256 ^ 32"
      using nz mod_add_self2 [of "W + int group_order" "256 ^ 32"] by (simp add: ac_simps)
    also have "\<dots> = W + int group_order" using W False by (intro mod_pos_pos_trivial) (simp_all add: group_order_int)
    also have "\<dots> = (W + int group_order) mod int group_order" using W False by (intro mod_pos_pos_trivial [symmetric]) simp_all
    also have "\<dots> = W mod int group_order" by (rule mod_add_self2)
    finally show ?thesis .
  qed
  also have "\<dots> = num 256 x mod int group_order" unfolding W_def eq [symmetric] by (simp add: mod_diff_right_eq [symmetric])
  finally show "int (le_value (modL x)) = num 256 x mod int group_order"
    using le_value_digits [OF norm_digits [of 256 zs 0]] by (simp add: out)
qed

section \<open>Scalars\<close>

lemma num_uint: "num 256 (map uint bs) = int (le_value bs)"
  by (induction bs) simp_all

lemma uint_byte: "0 \<le> uint (b :: byte)" "uint b \<le> 255"
  using uint_lt2p [of b] by simp_all

text \<open>\<open>reduce\<close> of 64 bytes, as of a hash.\<close>

lemma ed_reduce_value:
  assumes "length r = 64"
  shows "le_value (ed_reduce r) = le_value r mod group_order" and "length (ed_reduce r) = 32"
proof -
  have b: "\<bar>map uint r ! k\<bar> \<le> 2 ^ 27" if "k < 64" for k
    using that assms uint_byte [of "r ! k"] by simp
  have "ed_reduce r = modL (map uint r)" using assms by (simp add: ed_reduce_def)
  then have "int (le_value (ed_reduce r)) = int (le_value r mod group_order)" "length (ed_reduce r) = 32"
    using modL_value [of "map uint r", OF _ b] assms by (simp_all add: num_uint zmod_int)
  then show "le_value (ed_reduce r) = le_value r mod group_order" "length (ed_reduce r) = 32" by (simp_all only: of_nat_eq_iff)
qed

text \<open>The multiplication and addition of \<open>crypto_sign\<close>.\<close>

definition scalar_muladd :: "bytes \<Rightarrow> bytes \<Rightarrow> bytes \<Rightarrow> bytes" where
  "scalar_muladd r h d = modL (foldl (\<lambda>x (i, j). x[i + j := x ! (i + j) + uint (h ! i) * uint (d ! j)])
     (map uint r @ replicate 32 0) (List.product [0..<32] [0..<32]))"

lemma mul_steps_crude:
  assumes "\<forall>(i, j) \<in> set ps. \<bar>a ! i * b ! j\<bar> \<le> M" and "k < length t" and "0 \<le> M"
  shows "\<bar>foldl (mul_step a b) t ps ! k\<bar> \<le> \<bar>t ! k\<bar> + M * int (length ps)"
  using assms(1,2)
proof (induction ps arbitrary: t)
  case (Cons p ps)
  obtain i j where p: "p = (i, j)" by force
  have "\<bar>mul_step a b t p ! k\<bar> \<le> \<bar>t ! k\<bar> + M"
    using Cons.prems assms(3) abs_triangle_ineq [of "t ! k" "a ! i * b ! j"] by (cases "i + j = k") (auto simp: p mul_step_def)
  moreover have "\<bar>foldl (mul_step a b) (mul_step a b t p) ps ! k\<bar> \<le> \<bar>mul_step a b t p ! k\<bar> + M * int (length ps)"
    using Cons.prems by (intro Cons.IH) (simp_all add: p mul_step_def)
  ultimately show ?case by (simp add: algebra_simps)
qed simp

lemma scalar_muladd_value:
  assumes "length r = 32" and "length h = 32" and "32 \<le> length d"
  shows "le_value (scalar_muladd r h d) = (le_value r + le_value h * le_value (take 32 d)) mod group_order"
    and "length (scalar_muladd r h d) = 32"
proof -
  let ?t = "map uint r @ replicate 32 0" and ?ps = "List.product [0..<32] [0..<32]"
  define a where "a = map uint h"
  define b where "b = map uint (take 32 d)"
  define x where "x = foldl (mul_step a b) ?t ?ps"
  have "foldl (\<lambda>x (i, j). x[i + j := x ! (i + j) + uint (h ! i) * uint (d ! j)]) ?t ps = foldl (mul_step a b) ?t ps"
    if "set ps \<subseteq> {0..<32} \<times> {0..<32}" for ps
    using assms(2,3) that by (intro foldl_cong) (auto simp: mul_step_def a_def b_def)
  from this [of ?ps] have e: "scalar_muladd r h d = modL x" by (simp add: scalar_muladd_def x_def)
  have l: "length x = 64" using assms(1) by (simp add: x_def)
  have "\<bar>a ! i * b ! j\<bar> \<le> 65025" if "i < 32" "j < 32" for i j
  proof -
    have "\<bar>a ! i * b ! j\<bar> \<le> 255 * 255"
      unfolding abs_mult a_def b_def using assms that uint_byte by (intro mult_mono) simp_all
    then show ?thesis by simp
  qed
  then have p: "\<forall>(i, j) \<in> set ?ps. \<bar>a ! i * b ! j\<bar> \<le> 65025" by auto
  have n: "\<bar>x ! k\<bar> \<le> 2 ^ 27" if "k < 64" for k
  proof -
    have "\<bar>?t ! k\<bar> \<le> 255" using that assms(1) uint_byte [of "r ! k"] by (auto simp: nth_append)
    moreover have "\<bar>x ! k\<bar> \<le> \<bar>?t ! k\<bar> + 65025 * int (length ?ps)"
      unfolding x_def using mul_steps_crude [OF p, of k ?t] that assms(1) by simp
    ultimately show ?thesis by simp
  qed
  have "num 256 x = num 256 ?t + (\<Sum>(i, j)\<leftarrow>?ps. (a ! i * 256 ^ i) * (b ! j * 256 ^ j))"
    unfolding x_def using assms(1) by (intro mul_steps_num) auto
  also have "\<dots> = num 256 ?t + num 256 a * num 256 b"
  proof -
    have "length a = 32" "length b = 32" using assms(2,3) by (simp_all add: a_def b_def)
    then show ?thesis unfolding sum_product num_sum [of 256 a] num_sum [of 256 b] by simp
  qed
  finally have "num 256 x = int (le_value r + le_value h * le_value (take 32 d))"
    by (simp add: num_append num_uint a_def b_def)
  then have "int (le_value (scalar_muladd r h d)) = int ((le_value r + le_value h * le_value (take 32 d)) mod group_order)"
    "length (scalar_muladd r h d) = 32"
    using modL_value [OF l n] by (simp_all add: e zmod_int)
  then show "le_value (scalar_muladd r h d) = (le_value r + le_value h * le_value (take 32 d)) mod group_order"
    "length (scalar_muladd r h d) = 32" by (simp_all only: of_nat_eq_iff)
qed

end
