(* ===== verification/X25519.thy ===== *)
theory X25519
  imports Field_Bounds
begin

text \<open>
  \<open>crypto_scalarmult\<close> of cmd/tweetnacl.c is the function X25519 of RFC 7748, stated on integers modulo
  the prime with the RFC's own ladder and decoding of scalars. The proof relates one step of the
  code, two conditional swaps around a middle part, to one step of the RFC, which puts the second
  swap off.
\<close>

unbundle bit_operations_syntax

section \<open>Inversion\<close>

text \<open>A chain of squarings and multiplications computes the power its bits spell.\<close>

definition power_step :: "(nat \<Rightarrow> bool) \<Rightarrow> gf \<Rightarrow> gf \<Rightarrow> nat \<Rightarrow> gf" where
  "power_step P v c a = (let c = gf_S c in if P a then gf_M c v else c)"

definition exponent_step :: "(nat \<Rightarrow> bool) \<Rightarrow> nat \<Rightarrow> nat \<Rightarrow> nat" where
  "exponent_step P e a = (if P a then 2 * e + 1 else 2 * e)"

lemma power_chain:
  assumes "length v = 16" and "length c = 16" and "fe c mod prime_p = fe v ^ e mod prime_p"
  shows "length (foldl (power_step P v) c as) = 16 \<and>
    fe (foldl (power_step P v) c as) mod prime_p = fe v ^ foldl (exponent_step P) e as mod prime_p"
  using assms(2,3)
proof (induction as arbitrary: c e)
  case (Cons a as)
  have "fe (gf_S c) mod prime_p = (fe c mod prime_p) * (fe c mod prime_p) mod prime_p"
    using Cons.prems(1) by (simp add: gf_S_def fe_M mod_mult_eq)
  then have s: "fe (gf_S c) mod prime_p = fe v ^ (2 * e) mod prime_p"
    unfolding Cons.prems(2) mod_mult_eq by (simp add: mult_2 power_add)
  have "fe (gf_M (gf_S c) v) mod prime_p = (fe (gf_S c) mod prime_p) * fe v mod prime_p"
    using assms(1) by (simp add: fe_M gf_S_def mod_mult_left_eq)
  then have m: "fe (gf_M (gf_S c) v) mod prime_p = fe v ^ (2 * e + 1) mod prime_p"
    unfolding s mod_mult_left_eq by (simp add: mult.commute)
  have "length (power_step P v c a) = 16" "fe (power_step P v c a) mod prime_p = fe v ^ exponent_step P e a mod prime_p"
    using s m by (simp_all add: power_step_def exponent_step_def gf_S_def Let_def)
  then show ?case using Cons.IH by simp
qed simp

lemma exponent_ones: "\<forall>a \<in> set as. P a \<Longrightarrow> foldl (exponent_step P) e as + 1 = (e + 1) * 2 ^ length as"
  by (induction as arbitrary: e) (simp_all add: exponent_step_def algebra_simps)

lemma inv_exponent: "foldl (exponent_step (\<lambda>a. a \<noteq> 2 \<and> a \<noteq> 4)) 1 (rev [0..<254]) = 2 ^ 255 - 21"
proof -
  have "[0..<254] = [0, 1, 2, 3, 4] @ [5..<254]" by (simp add: upt_conv_Cons)
  then have l: "rev [0..<254] = rev [5..<254] @ [4, 3, 2, 1, 0]" by simp
  have "foldl (exponent_step (\<lambda>a. a \<noteq> 2 \<and> a \<noteq> 4)) 1 (rev [5..<254]) = 2 ^ 250 - 1"
    using exponent_ones [of "rev [5..<254]" "\<lambda>a. a \<noteq> 2 \<and> a \<noteq> 4" 1] by simp
  then show ?thesis unfolding l by (simp add: exponent_step_def)
qed

lemma pow_exponent: "foldl (exponent_step (\<lambda>a. a \<noteq> 1)) 1 (rev [0..<251]) = 2 ^ 252 - 3"
proof -
  have "[0..<251] = [0, 1] @ [2..<251]" by (simp add: upt_conv_Cons)
  then have l: "rev [0..<251] = rev [2..<251] @ [1, 0]" by simp
  have "foldl (exponent_step (\<lambda>a. a \<noteq> 1)) 1 (rev [2..<251]) = 2 ^ 250 - 1"
    using exponent_ones [of "rev [2..<251]" "\<lambda>a. a \<noteq> 1" 1] by simp
  then show ?thesis unfolding l by (simp add: exponent_step_def)
qed

lemma inv25519_power:
  assumes "length v = 16"
  shows "length (inv25519 v) = 16" "fe (inv25519 v) mod prime_p = fe v ^ (2 ^ 255 - 21) mod prime_p"
proof -
  have i: "inv25519 v = foldl (power_step (\<lambda>a. a \<noteq> 2 \<and> a \<noteq> 4) v) v (rev [0..<254])"
    by (simp add: inv25519_def power_step_def [abs_def])
  have "fe v mod prime_p = fe v ^ 1 mod prime_p" by simp
  from power_chain [OF assms assms this, of "\<lambda>a. a \<noteq> 2 \<and> a \<noteq> 4" "rev [0..<254]"]
  show "length (inv25519 v) = 16" "fe (inv25519 v) mod prime_p = fe v ^ (2 ^ 255 - 21) mod prime_p"
    unfolding i inv_exponent by simp_all
qed

lemma pow2523_power:
  assumes "length v = 16"
  shows "length (pow2523 v) = 16" "fe (pow2523 v) mod prime_p = fe v ^ (2 ^ 252 - 3) mod prime_p"
proof -
  have i: "pow2523 v = foldl (power_step (\<lambda>a. a \<noteq> 1) v) v (rev [0..<251])"
    by (simp add: pow2523_def power_step_def [abs_def])
  have "fe v mod prime_p = fe v ^ 1 mod prime_p" by simp
  from power_chain [OF assms assms this, of "\<lambda>a. a \<noteq> 1" "rev [0..<251]"]
  show "length (pow2523 v) = 16" "fe (pow2523 v) mod prime_p = fe v ^ (2 ^ 252 - 3) mod prime_p"
    unfolding i pow_exponent by simp_all
qed

lemma within_chain:
  assumes "within (2 ^ 24) v" "within (2 ^ 24) c"
  shows "within (2 ^ 24) (foldl (power_step P v) c as)"
  using assms(2)
proof (induction as arbitrary: c)
  case (Cons a as)
  have m: "within (2 ^ 24) (gf_M a b)" if "within (2 ^ 24) a" "within (2 ^ 24) b" for a b
    using gf_M_within [OF that] by (rule within_mono) simp
  have "within (2 ^ 24) (gf_S c)" using m [OF Cons.prems Cons.prems] by (simp add: gf_S_def)
  then have "within (2 ^ 24) (power_step P v c a)" using m [OF _ assms(1)] by (simp add: power_step_def Let_def)
  then show ?case using Cons.IH by simp
qed simp

lemma inv25519_within: "within (2 ^ 24) v \<Longrightarrow> within (2 ^ 24) (inv25519 v)"
  using within_chain [of v v "\<lambda>a. a \<noteq> 2 \<and> a \<noteq> 4" "rev [0..<254]"]
  by (simp add: inv25519_def power_step_def [abs_def])

section \<open>The bits of a little-endian number\<close>

lemma bit_le_value: "i < 8 * length bs \<Longrightarrow> bit (le_value bs) i \<longleftrightarrow> bit (bs ! (i div 8)) (i mod 8)"
proof (induction bs arbitrary: i)
  case (Cons b bs)
  have "unat b < 2 ^ 8" using unat_byte_less [of b] by simp
  from push_bit_or [OF this, of "le_value bs"] have v: "le_value (b # bs) = push_bit 8 (le_value bs) OR unat b" by simp
  show ?case
  proof (cases "i < 8")
    case True
    then show ?thesis unfolding v by (simp add: bit_or_iff bit_push_bit_iff bit_unsigned_iff)
  next
    case False
    then have i: "i - 8 < 8 * length bs" "i div 8 = Suc ((i - 8) div 8)" "i mod 8 = (i - 8) mod 8"
      using Cons.prems by (simp_all add: le_div_geq le_mod_geq)
    have "\<not> bit (unat b) i" using False bit_imp_le_length [of b i] by (auto simp: bit_unsigned_iff)
    then show ?thesis unfolding v using Cons.IH [OF i(1)] False i(2,3) by (simp add: bit_or_iff bit_push_bit_iff)
  qed
qed simp

lemma le_value_high: "8 * length bs \<le> i \<Longrightarrow> \<not> bit (le_value bs) i"
proof -
  assume i: "8 * length bs \<le> i"
  have "le_value bs < 2 ^ (8 * length bs)" using le_value_bound [of bs] by (simp add: power_mult)
  then have "take_bit (8 * length bs) (le_value bs) = le_value bs" by (simp add: take_bit_nat_eq_self)
  then show ?thesis using i by (metis bit_take_bit_iff not_le)
qed

definition rfc_clamp :: "nat \<Rightarrow> nat" where
  "rfc_clamp k = 2 ^ 254 + 8 * (k div 8 mod 2 ^ 251)"

lemma bit_rfc_clamp: "bit (rfc_clamp k) i \<longleftrightarrow> i = 254 \<or> 3 \<le> i \<and> i < 254 \<and> bit k i"
proof -
  have e: "8 * (k div 8 mod 2 ^ 251) = push_bit 3 (take_bit 251 (drop_bit 3 k))"
    by (simp add: push_bit_eq_mult take_bit_eq_mod drop_bit_eq_div)
  have "k div 8 mod 2 ^ 251 < 2 ^ 251" by simp
  then have "8 * (k div 8 mod 2 ^ 251) < 2 ^ 254" by simp
  then have r: "rfc_clamp k = push_bit 254 1 OR push_bit 3 (take_bit 251 (drop_bit 3 k))"
    using push_bit_or [of "8 * (k div 8 mod 2 ^ 251)" 254 1] unfolding rfc_clamp_def e by (simp only: mult_1_right)
  show ?thesis
    unfolding r bit_or_iff bit_push_bit_iff bit_take_bit_iff bit_drop_bit_eq by (auto simp: bit_1_iff simp del: One_nat_def)
qed

lemma bytes_bits: "j < 8 \<Longrightarrow> bit (b AND 248 :: byte) j \<longleftrightarrow> 3 \<le> j \<and> bit b j"
  "j < 8 \<Longrightarrow> bit ((b AND 127) OR 64 :: byte) j \<longleftrightarrow> j = 6 \<or> j < 6 \<and> bit b j"
proof -
  assume "j < 8"
  then have "j = 0 \<or> j = 1 \<or> j = 2 \<or> j = 3 \<or> j = 4 \<or> j = 5 \<or> j = 6 \<or> j = 7" by linarith
  then show "bit (b AND 248 :: byte) j \<longleftrightarrow> 3 \<le> j \<and> bit b j" "bit ((b AND 127) OR 64 :: byte) j \<longleftrightarrow> j = 6 \<or> j < 6 \<and> bit b j"
    by (elim disjE; simp add: bit_and_iff bit_or_iff)+
qed

lemma clamp_value:
  assumes "length n = 32"
  shows "length (clamp_scalar n) = 32" "le_value (clamp_scalar n) = rfc_clamp (le_value n)"
proof -
  define z where "z = clamp_scalar n"
  have z: "z = n[31 := (n ! 31 AND 127) OR 64, 0 := n ! 0 AND 248]"
    using assms by (simp add: z_def clamp_scalar_def Let_def)
  then show l: "length (clamp_scalar n) = 32" using assms by (simp add: z_def)
  show "le_value (clamp_scalar n) = rfc_clamp (le_value n)"
    unfolding z_def [symmetric]
  proof (rule bit_eqI)
    fix i
    show "bit (le_value z) i = bit (rfc_clamp (le_value n)) i"
    proof (cases "i < 256")
      case True
      have b: "bit (le_value z) i \<longleftrightarrow> bit (z ! (i div 8)) (i mod 8)" "bit (le_value n) i \<longleftrightarrow> bit (n ! (i div 8)) (i mod 8)"
        using bit_le_value [of i z] bit_le_value [of i n] True assms by (simp_all add: z)
      consider "i div 8 = 0" | "i div 8 = 31" | "i div 8 \<noteq> 0" "i div 8 \<noteq> 31" "i div 8 < 31" using True by linarith
      then show ?thesis
      proof cases
        case 1
        then have "i < 8" "i mod 8 = i" by simp_all
        then show ?thesis unfolding b bit_rfc_clamp using 1 assms bytes_bits(1) [of i "n ! 0"] by (auto simp: z)
      next
        case 2
        then have "i mod 8 = i - 248" "248 \<le> i" "i - 248 < 8" using mult_div_mod_eq [of 8 i] by simp_all
        then show ?thesis unfolding b bit_rfc_clamp using 2 assms bytes_bits(2) [of "i - 248" "n ! 31"] by (auto simp: z)
      next
        case 3
        then have "8 \<le> i" "i < 248" by linarith+
        then show ?thesis unfolding b bit_rfc_clamp using 3 by (auto simp: z)
      qed
    next
      case False
      then show ?thesis using le_value_high [of z i] assms by (simp add: z bit_rfc_clamp)
    qed
  qed
qed

section \<open>X25519\<close>

text \<open>RFC 7748, section 5, over integers modulo the prime: the ladder with the swap put off to the
  next step, and the result as a power. \<open>x2, z2, x3, z3\<close> are the RFC's names.\<close>

type_synonym ladder = "int \<times> int \<times> int \<times> int"

fun rfc_cswap :: "bool \<Rightarrow> ladder \<Rightarrow> ladder" where
  "rfc_cswap swap (x2, z2, x3, z3) = (if swap then (x3, z3, x2, z2) else (x2, z2, x3, z3))"

definition rfc_step :: "int \<Rightarrow> ladder \<Rightarrow> ladder" where
  "rfc_step x1 s = (case s of (x2, z2, x3, z3) \<Rightarrow>
    (let A = (x2 + z2) mod prime_p; AA = A * A mod prime_p;
         B = (x2 - z2) mod prime_p; BB = B * B mod prime_p;
         E = (AA - BB) mod prime_p;
         C = (x3 + z3) mod prime_p; D = (x3 - z3) mod prime_p;
         DA = D * A mod prime_p; CB = C * B mod prime_p
     in (AA * BB mod prime_p,
         E * (AA + 121665 * E) mod prime_p,
         (DA + CB) ^ 2 mod prime_p,
         x1 * (DA - CB) ^ 2 mod prime_p)))"

definition rfc_x25519 :: "nat \<Rightarrow> nat \<Rightarrow> int" where
  "rfc_x25519 k u =
    (let x1 = int u mod prime_p;
         (s, swap) = foldl (\<lambda>(s, swap) t. (rfc_step x1 (rfc_cswap (swap \<noteq> bit k t) s), bit k t))
           ((1, 0, x1, 1), False) (rev [0..<255])
     in case rfc_cswap swap s of (x2, z2, x3, z3) \<Rightarrow> x2 * z2 ^ (2 ^ 255 - 21) mod prime_p)"

definition ladder_of :: "gf \<times> gf \<times> gf \<times> gf \<Rightarrow> ladder" where
  "ladder_of s = (case s of (a, b, c, d) \<Rightarrow> (fe a mod prime_p, fe c mod prime_p, fe b mod prime_p, fe d mod prime_p))"

definition ladder_ok :: "gf \<times> gf \<times> gf \<times> gf \<Rightarrow> bool" where
  "ladder_ok s = (case s of (a, b, c, d) \<Rightarrow> within 65573 a \<and> within 65573 b \<and> within 65573 c \<and> within 65573 d)"

lemma fe_mod_ops:
  assumes "length a = 16" "length b = 16"
  shows "fe (gf_A a b) mod prime_p = (fe a mod prime_p + fe b mod prime_p) mod prime_p"
    "fe (gf_Z a b) mod prime_p = (fe a mod prime_p - fe b mod prime_p) mod prime_p"
    "fe (gf_M a b) mod prime_p = (fe a mod prime_p) * (fe b mod prime_p) mod prime_p"
  using assms by (simp_all add: fe_A fe_Z fe_M mod_add_eq mod_diff_eq mod_mult_eq)

lemma fe_constants: "fe gf_121665 = 121665" "fe gf0 = 0" "fe gf1 = 1" "length gf_121665 = 16" "length gf0 = 16" "length gf1 = 16"
  by code_simp+

text \<open>The middle of a step, between its two swaps.\<close>

definition ladder_core :: "gf \<Rightarrow> gf \<times> gf \<times> gf \<times> gf \<Rightarrow> gf \<times> gf \<times> gf \<times> gf" where
  "ladder_core x s = (case s of (a, b, c, d) \<Rightarrow>
    (let e = gf_A a c; a = gf_Z a c; c = gf_A b d; b = gf_Z b d; d = gf_S e; f = gf_S a;
         a = gf_M c a; c = gf_M b e; e = gf_A a c; a = gf_Z a c; b = gf_S a; c = gf_Z d f;
         a = gf_M c gf_121665; a = gf_A a d; c = gf_M c a; a = gf_M d f; d = gf_M b x; b = gf_S e
     in (a, b, c, d)))"

fun swap_state :: "bool \<Rightarrow> gf \<times> gf \<times> gf \<times> gf \<Rightarrow> gf \<times> gf \<times> gf \<times> gf" where
  "swap_state r (a, b, c, d) = (if r then (b, a, d, c) else (a, b, c, d))"

text \<open>The same step on residues, in the order of the code.\<close>

lemma code_order:
  fixes x2 z2 x3 z3 x1 :: int
  shows "rfc_step x1 (x2, z2, x3, z3) =
    (let e = (x2 + z2) mod prime_p; a = (x2 - z2) mod prime_p; c = (x3 + z3) mod prime_p; b = (x3 - z3) mod prime_p;
         d = e * e mod prime_p; f = a * a mod prime_p; a = c * a mod prime_p; c = b * e mod prime_p;
         e = (a + c) mod prime_p; a = (a - c) mod prime_p; b = a * a mod prime_p; c = (d - f) mod prime_p;
         a = c * (121665 mod prime_p) mod prime_p; a = (a + d) mod prime_p;
         c = c * a mod prime_p; a = d * f mod prime_p; d = b * x1 mod prime_p; b = e * e mod prime_p
     in (a, c, b, d))"
proof -
  have s: "(u + v) ^ 2 mod prime_p = (v + u) mod prime_p * ((v + u) mod prime_p) mod prime_p" for u v :: int
    by (simp only: mod_mult_eq power2_eq_square add.commute)
  have "x1 * (u - v) ^ 2 = (v - u) * (v - u) * x1" for u v :: int by (simp add: power2_eq_square algebra_simps)
  moreover have "y mod prime_p * (y mod prime_p) mod prime_p * x1 mod prime_p = y * y * x1 mod prime_p" for y :: int
    unfolding mod_mult_eq [of y prime_p y] by (rule mod_mult_left_eq)
  ultimately have d: "x1 * (u - v) ^ 2 mod prime_p = (v - u) mod prime_p * ((v - u) mod prime_p) mod prime_p * x1 mod prime_p" for u v :: int
    by (simp only:)
  have "E * (AA + 121665 * E) = E * (E * 121665 + AA)" for E AA :: int by (simp add: algebra_simps)
  then have e: "E * (AA + 121665 * E) mod prime_p =
      E * ((E * (121665 mod prime_p) mod prime_p + AA) mod prime_p) mod prime_p" for E AA :: int
    by (simp only: mod_mult_right_eq mod_add_left_eq)
  show ?thesis unfolding rfc_step_def Let_def prod.case s d e ..
qed

lemma ladder_core_value:
  assumes "length a = 16" "length b = 16" "length c = 16" "length d = 16" "length x = 16"
  shows "ladder_of (ladder_core x (a, b, c, d)) = rfc_step (fe x mod prime_p) (ladder_of (a, b, c, d))"
  using assms
  by (simp only: ladder_core_def ladder_of_def Let_def gf_S_def fe_mod_ops fe_constants prod.case code_order gf_lengths
      gf_M_length min.idem)

lemma ladder_core_ok:
  assumes "ladder_ok (a, b, c, d)" "within 65573 x"
  shows "ladder_ok (ladder_core x (a, b, c, d))"
proof -
  have m: "within 65573 (gf_M p q)" if "within 131146 p" "within 131146 q" for p q
    using that by (intro gf_M_within) (auto intro: within_mono)
  have w: "within 131146 p" if "within 65573 p" for p using that by (rule within_mono) simp
  have az: "within 131146 (gf_A p q)" "within 131146 (gf_Z p q)" if "within 65573 p" "within 65573 q" for p q
    using within_A_Z [OF that] by simp_all
  have k: "within 65573 gf_121665" by (rule withinI) (auto simp: gf_121665_def nth_Cons')
  have abcd: "within 65573 a" "within 65573 b" "within 65573 c" "within 65573 d" using assms(1) by (simp_all add: ladder_ok_def)
  show ?thesis
    unfolding ladder_ok_def ladder_core_def Let_def gf_S_def prod.case
    by (rule conjI m az abcd assms(2) k w)+
qed

lemma ladder_step_swaps:
  assumes "length a = 16" "length b = 16" "length c = 16" "length d = 16" "length x = 16" "bit_of z i = of_bool r"
  shows "ladder_step x z (a, b, c, d) i = swap_state r (ladder_core x (swap_state r (a, b, c, d)))"
proof (cases r)
  case True
  obtain a' b' c' d' where core: "ladder_core x (b, a, d, c) = (a', b', c', d')" by (metis prod_cases4)
  then have l: "length a' = 16" "length b' = 16" "length c' = 16" "length d' = 16"
    by (auto simp: ladder_core_def Let_def gf_S_def)
  have "uint (bit_of z i) = 1" using assms(6) True by simp
  then show ?thesis
    using True core assms l unfolding ladder_step_def ladder_core_def Let_def prod.case
    by (simp add: sel25519_cases gf_S_def)
next
  case False
  obtain a' b' c' d' where core: "ladder_core x (a, b, c, d) = (a', b', c', d')" by (metis prod_cases4)
  then have l: "length a' = 16" "length b' = 16" "length c' = 16" "length d' = 16"
    by (auto simp: ladder_core_def Let_def gf_S_def)
  have "uint (bit_of z i) = 0" using assms(6) False by simp
  then show ?thesis
    using False core assms l unfolding ladder_step_def ladder_core_def Let_def prod.case
    by (simp add: sel25519_cases gf_S_def)
qed

lemma bit_of_bit: "i < 8 * length z \<Longrightarrow> bit_of z i = of_bool (bit (le_value z) i)"
proof -
  assume "i < 8 * length z"
  moreover have "bit_of z i = of_bool (bit (z ! (i div 8)) (i mod 8))"
    by (simp add: bit_of_def and_one_eq bit_iff_odd_drop_bit mod_2_eq_odd)
  ultimately show ?thesis using bit_le_value [of i z] by simp
qed

lemma ladder_of_swap: "ladder_of (swap_state r s) = rfc_cswap r (ladder_of s)"
  by (cases s) (simp add: ladder_of_def)

lemma ladder_ok_swap: "ladder_ok (swap_state r s) = ladder_ok s"
  by (cases s) (auto simp: ladder_ok_def)

lemma rfc_cswap_twice: "rfc_cswap r (rfc_cswap swap s) = rfc_cswap (swap \<noteq> r) s"
  by (cases s) simp

lemma ladder_step_rfc:
  assumes "ladder_ok s" and "within 65573 x" and "i < 8 * length z"
  defines "r \<equiv> bit (le_value z) i"
  shows "ladder_ok (ladder_step x z s i)"
    "ladder_of (ladder_step x z s i) = rfc_cswap r (rfc_step (fe x mod prime_p) (rfc_cswap r (ladder_of s)))"
proof -
  obtain a b c d where s: "s = (a, b, c, d)" by (metis prod_cases4)
  obtain a' b' c' d' where s': "swap_state r s = (a', b', c', d')" by (metis prod_cases4)
  have l: "length a = 16" "length b = 16" "length c = 16" "length d = 16" "length x = 16"
    using assms(1,2) by (auto simp: s ladder_ok_def within_length)
  have ok': "ladder_ok (a', b', c', d')" using assms(1) ladder_ok_swap [of r s] s' by simp
  then have l': "length a' = 16" "length b' = 16" "length c' = 16" "length d' = 16"
    by (auto simp: ladder_ok_def within_length)
  have e: "ladder_step x z s i = swap_state r (ladder_core x (swap_state r s))"
    unfolding s by (rule ladder_step_swaps [OF l]) (simp add: r_def bit_of_bit assms(3))
  show "ladder_ok (ladder_step x z s i)"
    unfolding e ladder_ok_swap s' by (rule ladder_core_ok [OF ok' assms(2)])
  show "ladder_of (ladder_step x z s i) = rfc_cswap r (rfc_step (fe x mod prime_p) (rfc_cswap r (ladder_of s)))"
    unfolding e ladder_of_swap s' ladder_core_value [OF l' l(5)] unfolding s' [symmetric] ladder_of_swap ..
qed

lemma ladder_loop:
  assumes "within 65573 x" and "\<forall>i \<in> set is. i < 8 * length z"
    and "ladder_ok s" and "ladder_of s = rfc_cswap swap t"
  shows "\<exists>t' swap'. foldl (\<lambda>(s, swap) t. (rfc_step (fe x mod prime_p) (rfc_cswap (swap \<noteq> bit (le_value z) t) s), bit (le_value z) t))
      (t, swap) is = (t', swap') \<and>
    ladder_ok (foldl (ladder_step x z) s is) \<and> ladder_of (foldl (ladder_step x z) s is) = rfc_cswap swap' t'"
  using assms(2-4)
proof (induction "is" arbitrary: s t swap)
  case (Cons i "is")
  let ?r = "bit (le_value z) i"
  note st = ladder_step_rfc [OF Cons.prems(2) assms(1), of i z]
  have i: "i < 8 * length z" using Cons.prems(1) by simp
  have "ladder_of (ladder_step x z s i) = rfc_cswap ?r (rfc_step (fe x mod prime_p) (rfc_cswap (swap \<noteq> ?r) t))"
    using st(2) [OF i] by (simp add: Cons.prems(3) rfc_cswap_twice)
  then show ?case
    using Cons.IH [of "ladder_step x z s i" ?r "rfc_step (fe x mod prime_p) (rfc_cswap (swap \<noteq> ?r) t)"] Cons.prems(1) st(1) [OF i]
    by simp
qed simp

lemma unpack25519_within: "within 65573 (unpack25519 n)"
proof (rule withinI)
  have b: "0 \<le> uint a + uint b * 256 \<and> uint a + uint b * 256 \<le> 65535" for a b :: byte
    using uint_lt2p [of a] uint_lt2p [of b] by simp
  show "length (unpack25519 n) = 16" by (simp add: unpack25519_def Let_def)
  show "\<bar>unpack25519 n ! i\<bar> \<le> 65573" if "i < 16" for i
  proof (cases "i = 15")
    case True
    define y where "y = uint (n ! 30) + uint (n ! 31) * 256"
    have "unpack25519 n ! 15 = y mod 32768"
      by (simp add: unpack25519_def Let_def and_masks y_def)
    moreover have "0 \<le> y mod 32768" "y mod 32768 < 32768" by simp_all
    ultimately have "\<bar>unpack25519 n ! 15\<bar> \<le> 65573" by linarith
    then show ?thesis using True by simp
  next
    case False
    then have "unpack25519 n ! i = uint (n ! (2 * i)) + uint (n ! (2 * i + 1)) * 256"
      using that by (simp add: unpack25519_def Let_def)
    then show ?thesis using b [of "n ! (2 * i)" "n ! (2 * i + 1)"] by linarith
  qed
qed

lemma within_i64: "within M v \<Longrightarrow> M < 2 ^ 63 \<Longrightarrow> i64_limbs v"
  by (fastforce simp: within_def i64_limbs_def list_all_iff)

lemma mod_power_product: "(x mod m * (y mod m) ^ e) mod m = (x * y ^ e) mod (m :: int)"
  by (metis mod_mult_eq power_mod mod_mod_trivial)

text \<open>The code computes the function of the RFC.\<close>

lemma crypto_scalarmult_rfc:
  assumes "length n = 32" and "length p = 32"
  shows "int (le_value (crypto_scalarmult n p)) = rfc_x25519 (rfc_clamp (le_value n)) (le_value p mod 2 ^ 255)"
proof -
  define z where "z = clamp_scalar n"
  define x where "x = unpack25519 p"
  have z: "length z = 32" "le_value z = rfc_clamp (le_value n)" using clamp_value [OF assms(1)] by (simp_all add: z_def)
  have x: "within 65573 x" by (simp add: x_def unpack25519_within)
  have fx: "fe x mod prime_p = int (le_value p mod 2 ^ 255) mod prime_p"
    using fe_unpack25519 [OF assms(2)] by (simp add: x_def zmod_int)
  have small: "within 65573 gf0" "within 65573 gf1" by (auto intro!: withinI simp: gf0_def gf1_def nth_Cons')
  then have ok: "ladder_ok (gf1, x, gf0, gf1)" using x by (simp add: ladder_ok_def)
  have "1 mod prime_p = 1" "0 mod prime_p = 0" by (simp_all add: prime_p_def)
  then have init: "ladder_of (gf1, x, gf0, gf1) = rfc_cswap False (1, 0, fe x mod prime_p, 1)"
    by (simp add: ladder_of_def fe_constants)
  have bits: "\<forall>i \<in> set (rev [0..<255]). i < 8 * length z" using z(1) by auto
  obtain a b c d where abcd: "foldl (ladder_step x z) (gf1, x, gf0, gf1) (rev [0..<255]) = (a, b, c, d)" by (metis prod_cases4)
  obtain t swap where loop:
    "foldl (\<lambda>(s, swap) t. (rfc_step (fe x mod prime_p) (rfc_cswap (swap \<noteq> bit (le_value z) t) s), bit (le_value z) t))
      ((1, 0, fe x mod prime_p, 1), False) (rev [0..<255]) = (t, swap)"
    "ladder_ok (a, b, c, d)" "ladder_of (a, b, c, d) = rfc_cswap swap t"
    using ladder_loop [OF x bits ok init] unfolding abcd by blast
  have a: "within (2 ^ 24) a" "within (2 ^ 24) c" using loop(2) by (auto simp: ladder_ok_def intro: within_mono)
  then have l: "length a = 16" "length c = 16" by (simp_all add: within_length)
  have r: "i64_limbs (gf_M a (inv25519 c))"
    using gf_M_within [OF a(1) inv25519_within [OF a(2)]] by (rule within_i64) simp
  have "fe (gf_M a (inv25519 c)) mod prime_p = (fe a mod prime_p) * (fe (inv25519 c) mod prime_p) mod prime_p"
    using l inv25519_power(1) by (simp add: fe_mod_ops)
  also have "\<dots> = (fe a mod prime_p) * (fe c mod prime_p) ^ (2 ^ 255 - 21) mod prime_p"
    unfolding inv25519_power(2) [OF l(2)] mod_power_product by (rule mod_mult_eq)
  finally have f: "int (le_value (pack25519 (gf_M a (inv25519 c)))) = (fe a mod prime_p) * (fe c mod prime_p) ^ (2 ^ 255 - 21) mod prime_p"
    using pack25519_value [OF gf_M_length r] by simp
  have "crypto_scalarmult n p = pack25519 (gf_M a (inv25519 c))"
    unfolding crypto_scalarmult_def Let_def z_def [symmetric] x_def [symmetric] abcd prod.case ..
  moreover have "rfc_x25519 (le_value z) (le_value p mod 2 ^ 255) = (fe a mod prime_p) * (fe c mod prime_p) ^ (2 ^ 255 - 21) mod prime_p"
    unfolding rfc_x25519_def Let_def fx [symmetric] loop(1) prod.case loop(3) [symmetric] ladder_of_def ..
  ultimately show ?thesis using f z(2) by simp
qed

end
