(* ===== verification/Poly1305.thy ===== *)
theory Poly1305
  imports Secretbox Limbs Curve_Field Scalars X25519
begin

text \<open>
  Poly1305 of cmd/tweetnacl.c against RFC 8439: seventeen limbs of a byte each, multiplied in rows
  that wrap around at 256^17, reduced by two passes of carries after each block and once more at
  the end, without a branch on the value.
\<close>

unbundle bit_operations_syntax

section \<open>The standard\<close>

text \<open>RFC 8439, section 2.5: the blocks, each with a one behind it, are the coefficients of a
  polynomial, evaluated modulo \<open>2^130 - 5\<close> at the first half of the key with some bits cleared.\<close>

definition poly_p :: nat where
  "poly_p = 2 ^ 130 - 5"

definition poly_clamp :: "nat \<Rightarrow> nat" where
  "poly_clamp r = r AND 0x0ffffffc0ffffffc0ffffffc0fffffff"

definition rfc_poly1305 :: "bytes \<Rightarrow> bytes \<Rightarrow> bytes" where
  "rfc_poly1305 m k =
    (let r = poly_clamp (le_value (take 16 k)); s = le_value (take 16 (drop 16 k));
         a = foldl (\<lambda>a b. (a + le_value (b @ [1])) * r mod poly_p) 0 (chunks 16 m)
     in le_bytes 16 (a + s))"

section \<open>Limbs\<close>

text \<open>A list of words is read as the list of its numbers.\<close>

abbreviation limbs :: "ulong list \<Rightarrow> int list" where
  "limbs h \<equiv> map uint h"

definition carries_ok :: "int \<Rightarrow> ulong list \<Rightarrow> bool" where
  "carries_ok b h \<longleftrightarrow> b \<le> 2 ^ 60 \<and> list_all (\<lambda>x. uint x \<le> b) h"

lemma uint_ulong_add: "uint a + uint b < 2 ^ 64 \<Longrightarrow> uint (a + b) = uint a + uint (b :: ulong)"
  by (simp add: uint_plus_if_size word_size)

lemma uint_ulong_mult: "uint a * uint b < 2 ^ 64 \<Longrightarrow> uint (a * b) = uint a * uint (b :: ulong)"
  using uint_mult_lem [of a b] by simp

lemma uint_and_255: "uint (x AND 255 :: ulong) = uint x mod 256"
  by (simp add: uint_and and_masks)

lemma uint_drop: "uint (drop_bit n x :: ulong) = uint x div 2 ^ n"
proof (rule bit_eqI)
  fix m
  show "bit (uint (drop_bit n x)) m \<longleftrightarrow> bit (uint x div 2 ^ n) m"
    unfolding drop_bit_eq_div [symmetric] by (auto simp: bit_simps dest: bit_imp_le_length)
qed

text \<open>A pass of carries.\<close>

lemma poly_carries:
  assumes "carries_ok b h" and "uint u \<le> b" and "n \<le> length h"
  shows "case foldl poly_carry (h, u) [0..<n] of (h', u') \<Rightarrow>
    limbs h' = fst (norm_limbs 256 (take n (limbs h)) (uint u)) @ drop n (limbs h) \<and>
    uint u' = snd (norm_limbs 256 (take n (limbs h)) (uint u)) \<and> uint u' \<le> b"
  using assms(3)
proof (induction n)
  case 0
  then show ?case using assms(2) by simp
next
  case (Suc n)
  obtain h' u' where hu: "foldl poly_carry (h, u) [0..<n] = (h', u')" by force
  define ds where "ds = fst (norm_limbs 256 (take n (limbs h)) (uint u))"
  have l: "length ds = n" using Suc.prems by (simp add: ds_def)
  have ih: "limbs h' = ds @ drop n (limbs h)" "uint u' = snd (norm_limbs 256 (take n (limbs h)) (uint u))" "uint u' \<le> b"
    using Suc hu by (simp_all add: ds_def)
  have l': "length h' = length h" using arg_cong [OF ih(1), of length] l Suc.prems by simp
  have "limbs h' ! n = uint (h ! n)" unfolding ih(1) using l Suc.prems by (simp add: nth_append)
  then have hn: "h' ! n = h ! n" using l' Suc.prems by (simp add: word_uint_eq_iff)
  have b: "uint (h ! n) \<le> b" "b \<le> 2 ^ 60" using assms(1) Suc.prems by (simp_all add: carries_ok_def list_all_length)
  have v: "uint (u' + h ! n) = uint (h ! n) + uint u'" using ih(3) b by (subst uint_ulong_add) simp_all
  have d: "drop n (limbs h) = uint (h ! n) # drop (Suc n) (limbs h)" using Suc.prems by (simp add: Cons_nth_drop_Suc [symmetric] flip: drop_map)
  have s: "foldl poly_carry (h, u) [0..<Suc n] = (h'[n := (u' + h ! n) AND 255], drop_bit 8 (u' + h ! n))"
    using hu hn by (simp only: upt_Suc_append foldl_append foldl.simps le0 zero_le split Let_def poly_carry_def)
  have "limbs (h'[n := (u' + h ! n) AND 255]) = ds @ (uint (h ! n) + uint u') mod 256 # drop (Suc n) (limbs h)"
    using l by (simp add: map_update ih(1) d uint_and_255 v list_update_append)
  moreover have "uint (drop_bit 8 (u' + h ! n)) = (uint (h ! n) + uint u') div 256" by (simp add: uint_drop v)
  moreover have "0 \<le> uint (h ! n)" "0 \<le> uint u'" by simp_all
  then have "(uint (h ! n) + uint u') div 256 \<le> b" using b(1) ih(3) by linarith
  moreover have "take (Suc n) (limbs h) = take n (limbs h) @ [uint (h ! n)]" using Suc.prems by (simp add: take_Suc_conv_app_nth)
  ultimately show ?case
    unfolding s using ih(2) by (simp add: norm_append split_beta ds_def)
qed

text \<open>The addition.\<close>

lemma add1305_limbs:
  assumes "length h = 17" and "length c = 17" and "carries_ok b (map2 (+) h c)" and "0 \<le> b"
  shows "limbs (add1305 h c) = fst (norm_limbs 256 (limbs (map2 (+) h c)) 0)"
proof -
  let ?f = "\<lambda>(h, u) j. let u = u + (h ! j + c ! j) in (h[j := u AND 255], drop_bit 8 u)"
  let ?s = "map2 (+) h c"
  have "case foldl ?f (h, 0) [0..<n] of (h1, u1) \<Rightarrow> case foldl poly_carry (?s, 0) [0..<n] of (h2, u2) \<Rightarrow>
      u1 = u2 \<and> length h1 = 17 \<and> length h2 = 17 \<and> take n h1 = take n h2 \<and> drop n h1 = drop n h \<and> drop n h2 = drop n ?s" if "n \<le> 17" for n
    using that
  proof (induction n)
    case (Suc n)
    obtain h1 u1 where 1: "foldl ?f (h, 0) [0..<n] = (h1, u1)" by force
    obtain h2 u2 where 2: "foldl poly_carry (?s, 0) [0..<n] = (h2, u2)" by force
    have ih: "u1 = u2" "length h1 = 17" "length h2 = 17" "take n h1 = take n h2" "drop n h1 = drop n h" "drop n h2 = drop n ?s"
      using Suc 1 2 by simp_all
    have "drop n h1 ! 0 = h ! n" "drop n h2 ! 0 = h ! n + c ! n" unfolding ih(5,6) using Suc.prems assms(1,2) by simp_all
    then have n: "h1 ! n = h ! n" "h2 ! n = h ! n + c ! n" using Suc.prems ih(2,3) by simp_all
    have "drop (Suc n) h1 = drop (Suc n) h" "drop (Suc n) h2 = drop (Suc n) ?s"
      using arg_cong [OF ih(5), of "drop 1"] arg_cong [OF ih(6), of "drop 1"] by simp_all
    moreover have "foldl ?f (h, 0) [0..<Suc n] =
        (h1[n := (u1 + (h1 ! n + c ! n)) AND 255], drop_bit 8 (u1 + (h1 ! n + c ! n)))"
      using 1 by (simp only: upt_Suc_append foldl_append foldl.simps le0 zero_le split Let_def)
    moreover have "foldl poly_carry (?s, 0) [0..<Suc n] =
        (h2[n := (u2 + h2 ! n) AND 255], drop_bit 8 (u2 + h2 ! n))"
      using 2 by (simp only: upt_Suc_append foldl_append foldl.simps le0 zero_le split Let_def poly_carry_def)
    ultimately show ?case
      using ih(1-4) n Suc.prems by (simp add: take_Suc_conv_app_nth)
  qed (simp add: assms)
  from this [of 17] have "add1305 h c = fst (foldl poly_carry (?s, 0) [0..<17])"
    unfolding add1305_def by (auto split: prod.splits)
  moreover have "length ?s = 17" using assms(1,2) by simp
  ultimately show ?thesis
    using poly_carries [OF assms(3), of 0 17] assms(4) by (simp split: prod.splits)
qed

text \<open>A number in seventeen bytes; the last may reach 4 between two blocks.\<close>

definition bytes17 :: "ulong list \<Rightarrow> bool" where
  "bytes17 h \<longleftrightarrow> length h = 17 \<and> digits_ok 256 (limbs h)"

definition poly_num :: "ulong list \<Rightarrow> int" where
  "poly_num h = num 256 (limbs h)"

lemma add1305_num:
  assumes "bytes17 h" and "bytes17 c"
  shows "bytes17 (add1305 h c)" and "poly_num (add1305 h c) = (poly_num h + poly_num c) mod 256 ^ 17"
proof -
  have l: "length h = 17" "length c = 17" using assms by (simp_all add: bytes17_def)
  have b: "uint (h ! i) < 256" "uint (c ! i) < 256" if "i < 17" for i
    using assms that by (simp_all add: bytes17_def digits_ok_def list_all_length)
  have s: "limbs (map2 (+) h c) = map2 (+) (limbs h) (limbs c)"
  proof (intro nth_equalityI)
    fix i assume "i < length (limbs (map2 (+) h c))"
    then show "limbs (map2 (+) h c) ! i = map2 (+) (limbs h) (limbs c) ! i"
      using b [of i] l by (simp add: uint_ulong_add)
  qed simp
  have "uint (map2 (+) h c ! i) \<le> 512" if "i < 17" for i
    using b [OF that] l that by (simp add: uint_ulong_add)
  then have "carries_ok 512 (map2 (+) h c)" using l by (simp add: carries_ok_def list_all_length)
  from add1305_limbs [OF l this]
  have r: "limbs (add1305 h c) = fst (norm_limbs 256 (map2 (+) (limbs h) (limbs c)) 0)" by (simp only: s)
  have "length (limbs (add1305 h c)) = 17" unfolding r using l by simp
  then have "length (add1305 h c) = 17" by simp
  then show "bytes17 (add1305 h c)" unfolding bytes17_def r by (simp add: norm_digits)
  show "poly_num (add1305 h c) = (poly_num h + poly_num c) mod 256 ^ 17"
    unfolding poly_num_def r using l by (simp add: norm_carry num_map2)
qed

section \<open>A block\<close>

text \<open>Row \<open>j\<close> of the product is \<open>r\<close> moved up \<open>j\<close> limbs; what leaves at the top comes back
  at the bottom 320 times, as 256^17 is 320 modulo \<open>2^130 - 5\<close>.\<close>

definition poly_row :: "int list \<Rightarrow> nat \<Rightarrow> int list" where
  "poly_row r j = map (\<lambda>i. if j \<le> i then r ! (i - j) else 320 * r ! (i + 17 - j)) [0..<17]"

lemma num_scale: "num B (map ((*) a) xs) = a * num B xs"
  by (induction xs) (simp_all add: algebra_simps)

lemma num_sums: "num B (map (\<lambda>i. \<Sum>j\<leftarrow>js. f j i) [0..<n]) = (\<Sum>j\<leftarrow>js. num B (map (f j) [0..<n]))"
  by (induction n) (simp_all add: num_append sum_list_addf sum_list_const_mult)

lemma poly_p_int: "int poly_p = 2 ^ 130 - 5"
  by (simp add: poly_p_def)

lemma poly_row_num:
  assumes "length r = 17" and "j \<le> 17"
  shows "num 256 (poly_row r j) mod int poly_p = 256 ^ j * num 256 r mod int poly_p"
proof -
  have "poly_row r j = map ((*) 320) (drop (17 - j) r) @ take (17 - j) r"
    using assms by (intro nth_equalityI) (auto simp: poly_row_def nth_append add.commute)
  then have "num 256 (poly_row r j) = 320 * num 256 (drop (17 - j) r) + 256 ^ j * num 256 (take (17 - j) r)"
    using assms by (simp add: num_append num_scale)
  moreover have "num 256 r = num 256 (take (17 - j) r) + 256 ^ (17 - j) * num 256 (drop (17 - j) r)"
    using num_append [of 256 "take (17 - j) r" "drop (17 - j) r"] assms by simp
  then have "256 ^ j * num 256 r = 256 ^ j * num 256 (take (17 - j) r) + 256 ^ 17 * num 256 (drop (17 - j) r)"
    using assms(2) by (simp only: distrib_left mult.assoc [symmetric] power_add [symmetric] le_add_diff_inverse)
  moreover have "(256 :: int) ^ 17 = 64 * int poly_p + 320" by (simp add: poly_p_int)
  ultimately have "256 ^ j * num 256 r = num 256 (poly_row r j) + int poly_p * (64 * num 256 (drop (17 - j) r))"
    by (simp only: ring_distribs ac_simps)
  then show ?thesis by simp
qed

lemma uint_sum:
  assumes "\<And>j. j < n \<Longrightarrow> uint (w j) \<le> b" and "int n * b < 2 ^ 64"
  shows "uint (foldl (\<lambda>x j. x + w j) (0 :: ulong) [0..<n]) = (\<Sum>j\<leftarrow>[0..<n]. uint (w j)) \<and>
    uint (foldl (\<lambda>x j. x + w j) (0 :: ulong) [0..<n]) \<le> int n * b"
  using assms
proof (induction n)
  case (Suc n)
  have b: "0 \<le> b" using order_trans [OF _ Suc.prems(1) [of 0]] by simp
  have lt: "int n * b + b < 2 ^ 64" using Suc.prems(2) by (simp add: algebra_simps)
  then have "int n * b < 2 ^ 64" using b by linarith
  with Suc have ih: "uint (foldl (\<lambda>x j. x + w j) (0 :: ulong) [0..<n]) = (\<Sum>j\<leftarrow>[0..<n]. uint (w j))"
    "uint (foldl (\<lambda>x j. x + w j) (0 :: ulong) [0..<n]) \<le> int n * b" by simp_all
  have w: "uint (w n) \<le> b" using Suc.prems(1) by simp
  have "uint (foldl (\<lambda>x j. x + w j) 0 [0..<n] + w n) = uint (foldl (\<lambda>x j. x + w j) 0 [0..<n]) + uint (w n)"
    using ih(2) w lt by (intro uint_ulong_add) linarith
  then show ?case using ih w by (simp add: algebra_simps)
qed simp

definition poly_mult :: "ulong list \<Rightarrow> ulong list \<Rightarrow> ulong list" where
  "poly_mult r h = map (\<lambda>i. foldl (\<lambda>x j. x + h ! j * (if j \<le> i then r ! (i - j) else 320 * r ! (i + 17 - j))) 0 [0..<17]) [0..<17]"

lemma poly_mult_num:
  assumes "bytes17 h" and "bytes17 r"
  shows "length (poly_mult r h) = 17" and "carries_ok (2 ^ 29) (poly_mult r h)"
    and "poly_num (poly_mult r h) mod int poly_p = poly_num h * poly_num r mod int poly_p"
proof -
  have l: "length h = 17" "length r = 17" using assms by (simp_all add: bytes17_def)
  have b: "uint (h ! i) \<le> 255" "uint (r ! i) \<le> 255" if "i < 17" for i
    using assms that by (auto simp: bytes17_def digits_ok_def list_all_length)
  let ?w = "\<lambda>i j. h ! j * (if j \<le> i then r ! (i - j) else 320 * r ! (i + 17 - j))"
  have w: "uint (?w i j) = uint (h ! j) * poly_row (limbs r) j ! i \<and> uint (?w i j) \<le> 255 * (320 * 255)" if "i < 17" "j < 17" for i j
  proof -
    define y where "y = (if j \<le> i then r ! (i - j) else 320 * r ! (i + 17 - j))"
    have y: "uint y = poly_row (limbs r) j ! i \<and> uint y \<le> 320 * 255"
    proof (cases "j \<le> i")
      case True
      then show ?thesis using that l order_trans [OF b(2) [of "i - j"]] by (simp add: y_def poly_row_def)
    next
      case False
      then have k: "i + 17 - j < 17" by simp
      have "uint (320 * r ! (i + 17 - j)) = 320 * uint (r ! (i + 17 - j))"
        using b(2) [OF k] by (subst uint_ulong_mult) simp_all
      then show ?thesis using False that l b(2) [OF k] by (simp add: y_def poly_row_def)
    qed
    have p: "uint (h ! j) * uint y \<le> 255 * (320 * 255)" using b(1) [OF that(2)] conjunct2 [OF y] by (intro mult_mono) simp_all
    then have "uint (h ! j * y) = uint (h ! j) * uint y" by (intro uint_ulong_mult) simp
    then show ?thesis using p y unfolding y_def [symmetric] by simp
  qed
  have s: "uint (poly_mult r h ! i) = (\<Sum>j\<leftarrow>[0..<17]. uint (h ! j) * poly_row (limbs r) j ! i) \<and> uint (poly_mult r h ! i) \<le> 2 ^ 29"
    if "i < 17" for i
  proof -
    have e: "poly_mult r h ! i = foldl (\<lambda>x j. x + ?w i j) 0 [0..<17]"
      using that by (simp add: poly_mult_def del: upt_rec_numeral cong: if_cong)
    have "uint (poly_mult r h ! i) = (\<Sum>j\<leftarrow>[0..<17]. uint (?w i j)) \<and> uint (poly_mult r h ! i) \<le> int 17 * (255 * (320 * 255))"
      unfolding e using w [OF that] by (intro uint_sum) (blast, simp)
    moreover have "(\<Sum>j\<leftarrow>[0..<17]. uint (?w i j)) = (\<Sum>j\<leftarrow>[0..<17]. uint (h ! j) * poly_row (limbs r) j ! i)"
      using w [OF that] by (intro arg_cong [where f = sum_list] map_cong) auto
    ultimately show ?thesis by simp
  qed
  show len: "length (poly_mult r h) = 17" by (simp add: poly_mult_def)
  then show "carries_ok (2 ^ 29) (poly_mult r h)" using conjunct2 [OF s] by (simp add: carries_ok_def list_all_length)
  have "limbs (poly_mult r h) = map (\<lambda>i. \<Sum>j\<leftarrow>[0..<17]. uint (h ! j) * poly_row (limbs r) j ! i) [0..<17]"
    using len s by (intro nth_equalityI) (simp_all del: upt_rec_numeral)
  then have "poly_num (poly_mult r h) = (\<Sum>j\<leftarrow>[0..<17]. num 256 (map (\<lambda>i. uint (h ! j) * poly_row (limbs r) j ! i) [0..<17]))"
    unfolding poly_num_def by (simp only: num_sums)
  also have "\<dots> = (\<Sum>j\<leftarrow>[0..<17]. uint (h ! j) * num 256 (poly_row (limbs r) j))"
  proof (intro arg_cong [where f = sum_list] map_cong refl)
    fix j
    have "map (\<lambda>i. uint (h ! j) * poly_row (limbs r) j ! i) [0..<17] = map ((*) (uint (h ! j))) (poly_row (limbs r) j)"
      by (intro nth_equalityI) (simp_all add: poly_row_def)
    then show "num 256 (map (\<lambda>i. uint (h ! j) * poly_row (limbs r) j ! i) [0..<17]) = uint (h ! j) * num 256 (poly_row (limbs r) j)"
      by (simp only: num_scale)
  qed
  finally have x: "poly_num (poly_mult r h) = (\<Sum>j\<leftarrow>[0..<17]. uint (h ! j) * num 256 (poly_row (limbs r) j))" .
  have "(\<Sum>j\<leftarrow>[0..<n]. uint (h ! j) * num 256 (poly_row (limbs r) j)) mod int poly_p =
      (\<Sum>j\<leftarrow>[0..<n]. uint (h ! j) * 256 ^ j) * poly_num r mod int poly_p" if "n \<le> 17" for n
    using that
  proof (induction n)
    case (Suc n)
    have "uint (h ! n) * num 256 (poly_row (limbs r) n) mod int poly_p = uint (h ! n) * (256 ^ n * poly_num r) mod int poly_p"
      unfolding poly_num_def using poly_row_num [of "limbs r" n] l Suc.prems by (intro mod_mult_cong) simp_all
    with Suc show ?case by (simp add: distrib_right mult.assoc) (intro mod_add_cong, simp_all)
  qed simp
  moreover have "poly_num h = (\<Sum>j\<leftarrow>[0..<17]. uint (h ! j) * 256 ^ j)"
    unfolding poly_num_def num_sum using l by (intro arg_cong [where f = sum_list] map_cong) auto
  ultimately show "poly_num (poly_mult r h) mod int poly_p = poly_num h * poly_num r mod int poly_p"
    unfolding x by simp
qed


text \<open>What a block leaves: two passes of carries, the bits above 130 coming back five times.\<close>

definition poly_ok :: "ulong list \<Rightarrow> bool" where
  "poly_ok h \<longleftrightarrow> length h = 17 \<and> digits_ok 256 (take 16 (limbs h)) \<and> uint (h ! 16) \<le> 4"

lemma limbs_last: "length h = 17 \<Longrightarrow> drop 16 (limbs h) = [uint (h ! 16)]"
  by (simp add: Cons_nth_drop_Suc [symmetric] flip: drop_map)

lemma limbs_split: "length h = 17 \<Longrightarrow> limbs h = take 16 (limbs h) @ [uint (h ! 16)]"
  using append_take_drop_id [of 16 "limbs h"] limbs_last [of h] by simp

lemma poly_num_split: "length h = 17 \<Longrightarrow> poly_num h = num 256 (take 16 (limbs h)) + 256 ^ 16 * uint (h ! 16)"
  using arg_cong [OF limbs_split, of h "num 256"] by (simp add: poly_num_def num_append)

lemma poly_ok_bytes: "poly_ok h \<Longrightarrow> bytes17 h"
proof -
  assume h: "poly_ok h"
  then have l: "length h = 17" by (simp add: poly_ok_def)
  have "digits_ok 256 (take 16 (limbs h) @ [uint (h ! 16)])" using h by (simp add: poly_ok_def digits_ok_def)
  then show ?thesis using l by (simp add: bytes17_def flip: limbs_split)
qed

lemma poly_ok_num: "poly_ok h \<Longrightarrow> 0 \<le> poly_num h \<and> poly_num h < 5 * 256 ^ 16"
proof -
  assume h: "poly_ok h"
  then have "0 \<le> num 256 (take 16 (limbs h)) \<and> num 256 (take 16 (limbs h)) < 256 ^ 16"
    using digits_bound [of 256 "take 16 (limbs h)"] by (simp add: poly_ok_def)
  moreover have "0 \<le> uint (h ! 16)" by simp
  ultimately show ?thesis using h poly_num_split [of h] by (simp add: poly_ok_def)
qed

lemma uint_and_3: "uint (x AND 3 :: ulong) = uint x mod 4"
  using take_bit_eq_mask [of 2 "uint x"] by (simp add: uint_and take_bit_eq_mod mask_eq_exp_minus_1)

definition poly_reduce :: "ulong list \<Rightarrow> ulong list" where
  "poly_reduce h =
    (let (h, u) = foldl poly_carry (h, 0) [0..<16];
         u = u + h ! 16;
         h = h[16 := u AND 3];
         u = 5 * drop_bit 2 u;
         (h, u) = foldl poly_carry (h, u) [0..<16];
         u = u + h ! 16
     in h[16 := u])"

lemma poly_block_steps: "poly_block r h c = poly_reduce (poly_mult r (add1305 h c))"
  unfolding poly_block_def poly_reduce_def poly_mult_def Let_def ..

lemma poly_reduce_num:
  assumes "length x = 17" and "carries_ok (2 ^ 29) x"
  shows "poly_ok (poly_reduce x)" and "poly_num (poly_reduce x) mod int poly_p = poly_num x mod int poly_p"
proof -
  obtain h0 u0 where 0: "foldl poly_carry (x, 0) [0..<16] = (h0, u0)" by force
  define ys where "ys = fst (norm_limbs 256 (take 16 (limbs x)) 0)"
  note d = limbs_last [OF assms(1)]
  have h0: "limbs h0 = ys @ [uint (x ! 16)]" "uint u0 = snd (norm_limbs 256 (take 16 (limbs x)) 0)" "uint u0 \<le> 2 ^ 29"
    using poly_carries [OF assms(2), of 0 16] assms(1) 0 d by (simp_all add: ys_def)
  have ys: "length ys = 16" "digits_ok 256 ys" using assms(1) by (simp_all add: ys_def norm_digits)
  have l0: "length h0 = 17" using arg_cong [OF h0(1), of length] ys(1) by simp
  have x16: "uint (x ! 16) \<le> 2 ^ 29" using assms by (simp add: carries_ok_def list_all_length)
  have "uint (h0 ! 16) = limbs h0 ! 16" using l0 by simp
  then have h16: "uint (h0 ! 16) = uint (x ! 16)" using ys(1) by (simp add: h0(1) nth_append)
  define u1 where "u1 = u0 + h0 ! 16"
  have u1: "uint u1 = uint u0 + uint (x ! 16)" unfolding u1_def using h0(3) h16 x16 by (subst uint_ulong_add) simp_all
  then have u1b: "0 \<le> uint u1" "uint u1 \<le> 2 ^ 30" using h0(3) x16 by simp_all
  define u2 where "u2 = 5 * drop_bit 2 u1"
  have u2: "uint u2 = 5 * (uint u1 div 4)"
  proof -
    have "uint (drop_bit 2 u1) = uint u1 div 4" by (simp add: uint_drop)
    then show ?thesis unfolding u2_def using u1b by (subst uint_ulong_mult) simp_all
  qed
  define h1 where "h1 = h0[16 := u1 AND 3]"
  have h1: "limbs h1 = ys @ [uint u1 mod 4]" "length h1 = 17"
    using ys(1) l0 by (simp_all add: h1_def map_update h0(1) list_update_append uint_and_3)
  have "list_all (\<lambda>x. x \<le> 2 ^ 31) (limbs h1)"
    using ys(2) pos_mod_bound [of 4 "uint u1"] unfolding h1(1) digits_ok_def by (auto simp: list_all_iff)
  then have c1: "carries_ok (2 ^ 31) h1" by (simp add: carries_ok_def list_all_iff)
  obtain h2 u3 where 2: "foldl poly_carry (h1, u2) [0..<16] = (h2, u3)" by force
  define zs where "zs = fst (norm_limbs 256 ys (uint u2))"
  have u2b: "uint u2 \<le> 2 ^ 31" using u1b u2 by simp
  have h2: "limbs h2 = zs @ [uint u1 mod 4]" "uint u3 = snd (norm_limbs 256 ys (uint u2))"
    using poly_carries [OF c1 u2b, of 16] h1 ys(1) 2 by (simp_all add: zs_def)
  have zs: "length zs = 16" "digits_ok 256 zs" using ys(1) by (simp_all add: zs_def norm_digits)
  have l2: "length h2 = 17" using arg_cong [OF h2(1), of length] zs(1) by simp
  have "uint (h2 ! 16) = limbs h2 ! 16" using l2 by simp
  then have h2_16: "uint (h2 ! 16) = uint u1 mod 4" using zs(1) by (simp add: h2(1) nth_append)
  have nys: "0 \<le> num 256 ys" "num 256 ys < 256 ^ 16" using digits_bound [OF ys(2)] ys(1) by simp_all
  have "uint u3 = (num 256 ys + uint u2) div 256 ^ 16" using h2(2) ys(1) by (simp add: norm_carry)
  moreover have "(num 256 ys + uint u2) div 256 ^ 16 < 2"
    using nys u2b by simp
  ultimately have u3: "uint u3 \<le> 1" by simp
  have m: "0 \<le> uint u1 mod 4" "uint u1 mod 4 < 4" by simp_all
  have u4: "uint (u3 + h2 ! 16) = uint u3 + uint u1 mod 4" using u3 h2_16 m(2) by (subst uint_ulong_add) simp_all
  have r: "poly_reduce x = h2[16 := u3 + h2 ! 16]"
    unfolding poly_reduce_def Let_def using 0 2 by (simp add: u1_def u2_def h1_def)
  have lr: "limbs (poly_reduce x) = zs @ [uint u3 + uint u1 mod 4]"
    unfolding r using zs(1) by (simp add: map_update h2(1) list_update_append u4)
  show "poly_ok (poly_reduce x)"
    using l2 zs u3 m(2) u4 by (simp add: poly_ok_def lr) (simp add: r)
  define q m where "q = uint u1 div 4" and "m = uint u1 mod 4"
  have "num 256 zs + 256 ^ 16 * uint u3 = num 256 ys + 5 * q"
    using norm_num [of 256 ys "uint u2"] ys(1) h2(2) u2 by (simp add: zs_def q_def)
  moreover have "num 256 ys + 256 ^ 16 * uint u0 = num 256 (take 16 (limbs x))"
    using norm_num [of 256 "take 16 (limbs x)" 0] assms(1) h0(2) by (simp add: ys_def)
  moreover note poly_num_split [OF assms(1)]
  moreover have "poly_num (poly_reduce x) = num 256 zs + 256 ^ 16 * (uint u3 + m)"
    unfolding poly_num_def lr m_def using zs(1) by (simp add: num_append)
  moreover have "uint u0 + uint (x ! 16) = 4 * q + m" unfolding u1 [symmetric] by (simp add: q_def m_def)
  ultimately have "poly_num x = poly_num (poly_reduce x) + int poly_p * q"
    unfolding poly_p_int by simp
  then show "poly_num (poly_reduce x) mod int poly_p = poly_num x mod int poly_p" by simp
qed

lemma poly_block_num:
  assumes "poly_ok h" and "bytes17 c" and "bytes17 r" and "poly_num c < 2 ^ 130"
  shows "poly_ok (poly_block r h c)"
    and "poly_num (poly_block r h c) mod int poly_p = (poly_num h + poly_num c) * poly_num r mod int poly_p"
proof -
  note a = add1305_num [OF poly_ok_bytes [OF assms(1)] assms(2)]
  note m = poly_mult_num [OF a(1) assms(3)]
  show "poly_ok (poly_block r h c)" unfolding poly_block_steps by (rule poly_reduce_num(1) [OF m(1,2)])
  have "0 \<le> poly_num h" "poly_num h < 5 * 256 ^ 16" using poly_ok_num [OF assms(1)] by simp_all
  moreover have "0 \<le> poly_num c"
    using digits_bound [of 256 "limbs c"] assms(2) by (simp add: bytes17_def poly_num_def)
  ultimately have "poly_num (add1305 h c) = poly_num h + poly_num c" unfolding a(2) using assms(4) by (intro mod_pos_pos_trivial) simp_all
  then show "poly_num (poly_block r h c) mod int poly_p = (poly_num h + poly_num c) * poly_num r mod int poly_p"
    unfolding poly_block_steps poly_reduce_num(2) [OF m(1,2)] m(3) by simp
qed

section \<open>The key, the blocks and the last step\<close>

text \<open>Bytes as limbs.\<close>

lemma uint_ucast_byte [simp]: "uint (ucast (b :: byte) :: ulong) = uint b"
  by (simp add: uint_up_ucast is_up)

lemma bytes_num: "num 256 (limbs (map ucast (bs :: bytes))) = int (le_value bs)"
  by (induction bs) simp_all

lemma byte_limbs: "digits_ok 256 (limbs (map ucast (bs :: bytes)))"
  using order_le_less_trans [OF uint_byte(2), of 256] by (auto simp: digits_ok_def list_all_iff)

lemma bytes_poly:
  assumes "length bs = 17"
  shows "bytes17 (map ucast (bs :: bytes))" and "poly_num (map ucast bs) = int (le_value bs)"
  using assms byte_limbs [of bs] bytes_num [of bs] by (simp_all add: bytes17_def poly_num_def)

text \<open>Clearing bits of bytes clears those of the number.\<close>

lemma le_value_and:
  "length bs = length ms \<Longrightarrow> le_value (map2 (AND) bs ms) = le_value bs AND le_value ms"
proof (rule bit_eqI)
  fix i assume l: "length bs = length ms"
  show "bit (le_value (map2 (AND) bs ms)) i \<longleftrightarrow> bit (le_value bs AND le_value ms) i"
  proof (cases "i < 8 * length bs")
    case True
    then have "i div 8 < length bs" by simp
    then show ?thesis using True l by (simp add: bit_le_value bit_and_iff)
  next
    case False
    then show ?thesis using l le_value_high [of bs i] le_value_high [of "map2 (AND) bs ms" i] by (simp add: bit_and_iff)
  qed
qed

definition poly_mask :: bytes where
  "poly_mask = [255, 255, 255, 15, 252, 255, 255, 15, 252, 255, 255, 15, 252, 255, 255, 15]"

lemma ucast_and_255: "ucast (b :: byte) AND 255 = (ucast b :: ulong)"
  using uint_byte(2) [of b] by (simp add: word_uint_eq_iff uint_and_255)

lemma poly_key_bytes:
  assumes "16 \<le> length k"
  shows "poly_key k = map ucast (map2 (AND) (take 16 k) poly_mask @ [0])"
proof -
  have "take 16 k = map ((!) k) [0..<16]" using assms by (intro nth_equalityI) simp_all
  then show ?thesis unfolding poly_key_def poly_mask_def upt_16 by (simp add: Let_def unsigned_and_eq ucast_and_255)
qed

lemma poly_clamp_mask:
  assumes "length b = 16"
  shows "poly_clamp (le_value b) = le_value (map2 (AND) b poly_mask)"
proof -
  have "length b = length poly_mask" "le_value poly_mask = 0x0ffffffc0ffffffc0ffffffc0fffffff"
    using assms by (simp_all add: poly_mask_def)
  then show ?thesis by (simp add: poly_clamp_def le_value_and)
qed

lemma poly_key_num:
  assumes "16 \<le> length k"
  shows "bytes17 (poly_key k)" and "poly_num (poly_key k) = int (poly_clamp (le_value (take 16 k)))"
proof -
  have 17: "length (map2 (AND) (take 16 k) poly_mask @ [0]) = 17" using assms by (simp add: poly_mask_def)
  show "bytes17 (poly_key k)" unfolding poly_key_bytes [OF assms] by (rule bytes_poly [OF 17])
  show "poly_num (poly_key k) = int (poly_clamp (le_value (take 16 k)))"
    unfolding poly_key_bytes [OF assms] bytes_poly(2) [OF 17] using assms by (simp add: le_value_append poly_clamp_mask)
qed

text \<open>The blocks.\<close>

definition poly_chunk :: "bytes \<Rightarrow> ulong list" where
  "poly_chunk b = map ucast b @ [1] @ replicate (16 - length b) 0"

lemma poly_chunk_num:
  assumes "length b \<le> 16"
  shows "bytes17 (poly_chunk b)" and "poly_num (poly_chunk b) = int (le_value (b @ [1]))" and "poly_num (poly_chunk b) < 2 ^ 130"
proof -
  have e: "poly_chunk b = map ucast (b @ [1] @ replicate (16 - length b) 0)" by (simp add: poly_chunk_def)
  have l: "length (b @ [1] @ replicate (16 - length b) 0) = 17" using assms by simp
  show "bytes17 (poly_chunk b)" unfolding e by (rule bytes_poly [OF l])
  show v: "poly_num (poly_chunk b) = int (le_value (b @ [1]))"
    unfolding e bytes_poly(2) [OF l] by (simp add: le_value_append)
  have "(256 :: nat) ^ length b \<le> 256 ^ 16" using assms by (intro power_increasing) simp_all
  then have "le_value (b @ [1]) < 2 ^ 130" using le_value_bound [of b] by (simp add: le_value_append)
  then have "int (le_value (b @ [1])) < int (2 ^ 130)" by (simp only: of_nat_less_iff)
  then show "poly_num (poly_chunk b) < 2 ^ 130" unfolding v by simp
qed

abbreviation poly_eval :: "nat \<Rightarrow> nat \<Rightarrow> bytes list \<Rightarrow> nat" where
  "poly_eval r \<equiv> foldl (\<lambda>a b. (a + le_value (b @ [1])) * r mod poly_p)"

lemma poly_loop_step: "m \<noteq> [] \<Longrightarrow> poly_loop r h m = poly_loop r (poly_block r h (poly_chunk (take 16 m))) (drop 16 m)"
  by (subst poly_loop.simps) (simp add: poly_chunk_def)

lemma poly_loop_num:
  assumes "bytes17 r" and "poly_num r = int k" and "poly_ok h" and "poly_num h mod int poly_p = int (a mod poly_p)"
  shows "poly_ok (poly_loop r h m) \<and> poly_num (poly_loop r h m) mod int poly_p = int (poly_eval k a (chunks 16 m) mod poly_p)"
  using assms(3,4)
proof (induction m arbitrary: h a rule: length_induct)
  case (1 m)
  show ?case
  proof (cases "m = []")
    case True
    then show ?thesis using 1 by (simp add: poly_loop.simps)
  next
    case False
    let ?c = "poly_chunk (take 16 m)"
    have c: "bytes17 ?c" "poly_num ?c = int (le_value (take 16 m @ [1]))" "poly_num ?c < 2 ^ 130"
      using poly_chunk_num [of "take 16 m"] by simp_all
    note b = poly_block_num [OF 1(2) c(1) assms(1) c(3)]
    have "poly_num (poly_block r h ?c) mod int poly_p = (poly_num h mod int poly_p + poly_num ?c) * poly_num r mod int poly_p"
      unfolding b(2) by (intro mod_mult_cong mod_add_cong) simp_all
    also have "\<dots> = int (((a mod poly_p + le_value (take 16 m @ [1])) * k) mod poly_p)"
      unfolding 1(3) c(2) assms(2) by (simp only: of_nat_add of_nat_mult of_nat_mod)
    also have "\<dots> = int ((a + le_value (take 16 m @ [1])) * k mod poly_p mod poly_p)"
      by (simp only: mod_mod_trivial) (intro arg_cong [where f = int] mod_mult_cong mod_add_cong, simp_all)
    finally have s: "poly_num (poly_block r h ?c) mod int poly_p = int ((a + le_value (take 16 m @ [1])) * k mod poly_p mod poly_p)" .
    have "length (drop 16 m) < length m" using False by simp
    from 1(1) [rule_format, OF this b(1) s] show ?thesis
      unfolding poly_loop_step [OF False] using False by (simp add: chunks.simps [of 16 m])
  qed
qed

lemma poly_eval_less: "a < poly_p \<Longrightarrow> poly_eval r a bs < poly_p"
  by (induction bs arbitrary: a) (simp_all add: poly_p_def)

lemma bytes17_low: "bytes17 h \<Longrightarrow> 0 \<le> num 256 (take 16 (limbs h)) \<and> num 256 (take 16 (limbs h)) < 256 ^ 16"
proof -
  assume h: "bytes17 h"
  then have "digits_ok 256 (take 16 (limbs h))"
    unfolding bytes17_def digits_ok_def list_all_iff by (meson in_set_takeD)
  then show ?thesis using digits_bound [of 256 "take 16 (limbs h)"] h by (simp add: bytes17_def)
qed

text \<open>The last step subtracts the modulus where it can, in constant time.\<close>

definition poly_freeze :: "ulong list \<Rightarrow> ulong list" where
  "poly_freeze g =
    (let h = add1305 g minusp; s = - drop_bit 7 (h ! 16)
     in map (\<lambda>j. h ! j XOR (s AND (g ! j XOR h ! j))) [0..<17])"

lemma minusp_num: "bytes17 minusp" "poly_num minusp = 256 ^ 17 - int poly_p"
  by (simp_all add: bytes17_def minusp_def digits_ok_def poly_num_def poly_p_int)

lemma poly_freeze_num:
  assumes "poly_ok g"
  shows "bytes17 (poly_freeze g)" and "poly_num (poly_freeze g) = poly_num g mod int poly_p"
proof -
  note g = poly_ok_bytes [OF assms] poly_ok_num [OF assms]
  define h where "h = add1305 g minusp"
  have h: "bytes17 h" "poly_num h = (poly_num g + (256 ^ 17 - int poly_p)) mod 256 ^ 17"
    unfolding h_def minusp_num(2) [symmetric] by (rule add1305_num [OF g(1) minusp_num(1)])+
  have l: "length g = 17" "length h = 17" using g h by (simp_all add: bytes17_def)
  have t: "0 \<le> num 256 (take 16 (limbs h))" "num 256 (take 16 (limbs h)) < 256 ^ 16"
    using bytes17_low [OF h(1)] by simp_all
  have top: "0 \<le> uint (h ! 16)" "uint (h ! 16) < 256" using h(1) by (simp_all add: bytes17_def digits_ok_def list_all_length)
  define s where "s = - drop_bit 7 (h ! 16)"
  have f: "poly_freeze g = map (\<lambda>j. h ! j XOR (s AND (g ! j XOR h ! j))) [0..<17]"
    unfolding poly_freeze_def Let_def h_def [symmetric] s_def [symmetric] ..
  have d: "uint (drop_bit 7 (h ! 16)) = uint (h ! 16) div 128" by (simp add: uint_drop)
  have "poly_freeze g = (if poly_num g < int poly_p then g else h) \<and>
    (if poly_num g < int poly_p then poly_num g else poly_num h) = poly_num g mod int poly_p"
  proof (cases "poly_num g < int poly_p")
    case True
    then have "poly_num h = poly_num g + (256 ^ 17 - int poly_p)" unfolding h(2) using g(2) by (intro mod_pos_pos_trivial) (simp_all add: poly_p_int)
    then have "128 \<le> uint (h ! 16)" using poly_num_split [OF l(2)] t g(2) by (simp add: poly_p_int)
    then have "drop_bit 7 (h ! 16) = 1" using top d by (simp add: word_uint_eq_iff)
    then have s: "s = - 1" by (simp add: s_def)
    have "poly_freeze g = g" unfolding f s using l by (intro nth_equalityI) (simp_all add: xor.left_commute)
    then show ?thesis using True g(2) by simp
  next
    case False
    then have r: "0 \<le> poly_num g - int poly_p" "poly_num g - int poly_p < int poly_p" using g(2) by (simp_all add: poly_p_int)
    have "poly_num g + (256 ^ 17 - int poly_p) = (poly_num g - int poly_p) + 256 ^ 17" by simp
    then have "poly_num h = (poly_num g - int poly_p) mod 256 ^ 17" unfolding h(2) by (metis mod_add_self2)
    then have v: "poly_num h = poly_num g - int poly_p" using r by (simp add: poly_p_int)
    then have "uint (h ! 16) < 128" using poly_num_split [OF l(2)] t g(2) by (simp add: poly_p_int)
    then have "drop_bit 7 (h ! 16) = 0" using top d by (simp add: word_uint_eq_iff)
    then have s: "s = 0" by (simp add: s_def)
    have "poly_freeze g = h" unfolding f s using l by (intro nth_equalityI) simp_all
    moreover have "poly_num g mod int poly_p = poly_num g - int poly_p"
      using r mod_add_self2 [of "poly_num g - int poly_p" "int poly_p"] by (simp only: diff_add_cancel mod_pos_pos_trivial)
    ultimately show ?thesis using False v by simp
  qed
  then show "bytes17 (poly_freeze g)" "poly_num (poly_freeze g) = poly_num g mod int poly_p"
    using g h by (auto split: if_splits)
qed

theorem crypto_onetimeauth_rfc:
  assumes "32 \<le> length k"
  shows "crypto_onetimeauth m k = rfc_poly1305 m k"
proof -
  define r where "r = poly_clamp (le_value (take 16 k))"
  define a where "a = poly_eval r 0 (chunks 16 m)"
  define g where "g = poly_loop (poly_key k) (replicate 17 0) m"
  have key: "bytes17 (poly_key k)" "poly_num (poly_key k) = int r" using poly_key_num [of k] assms by (simp_all add: r_def)
  have "poly_ok (replicate 17 0)" "poly_num (replicate 17 0) mod int poly_p = int (0 mod poly_p)"
    by (simp_all add: poly_ok_def digits_ok_def poly_num_def list_all_iff)
  from poly_loop_num [OF key this]
  have g: "poly_ok g" "poly_num g mod int poly_p = int (a mod poly_p)" by (simp_all add: g_def a_def)
  have a: "a mod poly_p = a" using poly_eval_less [of 0 r "chunks 16 m"] by (simp add: a_def poly_p_def)
  define c where "c = map (\<lambda>j. ucast (k ! (j + 16)) :: ulong) [0..<16] @ [0]"
  define s where "s = take 16 (drop 16 k)"
  have "s = map (\<lambda>j. k ! (j + 16)) [0..<16]" using assms by (intro nth_equalityI) (simp_all add: s_def add.commute)
  then have c: "c = map ucast (s @ [0])" by (simp add: c_def)
  have ls: "length (s @ [0]) = 17" using assms by (simp add: s_def)
  note f = poly_freeze_num [OF g(1)]
  define h where "h = add1305 (poly_freeze g) c"
  have h: "bytes17 h" "poly_num h = (int a + int (le_value s)) mod 256 ^ 17"
    using add1305_num [OF f(1) bytes_poly(1) [OF ls]] unfolding f(2) g(2) a bytes_poly(2) [OF ls]
    by (simp_all add: h_def c le_value_append)
  have l: "length h = 17" using h(1) by (simp add: bytes17_def)
  define t where "t = map (\<lambda>j. ucast (h ! j) :: byte) [0..<16]"
  have t: "crypto_onetimeauth m k = t"
    unfolding crypto_onetimeauth_def t_def h_def poly_freeze_def g_def c_def Let_def ..
  have "limbs (map ucast t) = take 16 (limbs h)"
  proof (intro nth_equalityI)
    fix i assume "i < length (limbs (map ucast t))"
    then have i: "i < 16" by (simp add: t_def)
    then have "0 \<le> uint (h ! i)" "uint (h ! i) < 256" using h(1) by (simp_all add: bytes17_def digits_ok_def list_all_length)
    then show "limbs (map ucast t) ! i = take 16 (limbs h) ! i" using i l
      by (simp add: t_def unsigned_ucast_eq unsigned_take_bit_eq take_bit_int_eq_self)
  qed (simp add: t_def l)
  then have "int (le_value t) = num 256 (take 16 (limbs h))" using bytes_num [of t] by simp
  moreover have "num 256 (take 16 (limbs h)) = poly_num h mod 256 ^ 16"
    using poly_num_split [OF l] bytes17_low [OF h(1)] by simp
  moreover have "poly_num h mod 256 ^ 16 = (int a + int (le_value s)) mod 256 ^ 16"
    unfolding h(2) by (intro mod_mod_cancel) simp
  ultimately have "int (le_value t) = int ((a + le_value s) mod 256 ^ 16)" by (simp add: of_nat_mod)
  then have "le_value t = le_value (le_bytes 16 (a + le_value s))" by (simp only: of_nat_eq_iff le_value_le_bytes)
  then have "t = le_bytes 16 (a + le_value s)"
    using le_bytes_value [of t] le_bytes_value [of "le_bytes 16 (a + le_value s)"] by (simp add: t_def)
  then show ?thesis unfolding t rfc_poly1305_def Let_def a_def s_def r_def .
qed

end
