(* ===== verification/Curve_Points.thy ===== *)
theory Curve_Points
  imports X25519 Scalars
begin

text \<open>
  The points of cmd/tweetnacl.c (\<open>add\<close>, \<open>cswap\<close>, \<open>scalarmult\<close>, \<open>scalarbase\<close>, \<open>pack\<close>) are the points of
  RFC 8032 in extended coordinates, over integers modulo the prime: the code's addition is the RFC's
  formula, its ladder of conditional swaps is the ladder on the bits of the scalar, its \<open>pack\<close> is
  the RFC's encoding. \<open>point_ok\<close> bounds the limbs, so that no sum or product overflows.
\<close>

unbundle bit_operations_syntax


section \<open>The curve\<close>

text \<open>RFC 8032, section 5.1, over integers modulo the prime: a point in extended coordinates
  \<open>X, Y, Z, T\<close>, its addition (5.1.4), its encoding (5.1.2) and decoding (5.1.3). The multiplication is
  the ladder of bits from the highest.\<close>

type_synonym epoint = "int \<times> int \<times> int \<times> int"

definition rfc_d :: int where
  "rfc_d = 37095705934669439343138083508754565189542113879843219016388785533085940283555"

definition rfc_sqrt_m1 :: int where
  "rfc_sqrt_m1 = 19681161376707505956807079304988542015446066515923890162744021073123829784752"

definition rfc_base :: epoint where
  "rfc_base =
    (let x = 15112221349535400772501151409588531511454012693041857206046113283949847762202;
         y = 46316835694926478169428394003475163141307993866256225615783033603165251855960
     in (x, y, 1, x * y mod prime_p))"

definition rfc_add :: "epoint \<Rightarrow> epoint \<Rightarrow> epoint" where
  "rfc_add p q = (case p of (X1, Y1, Z1, T1) \<Rightarrow> (case q of (X2, Y2, Z2, T2) \<Rightarrow>
    (let A = (Y1 - X1) * (Y2 - X2) mod prime_p;
         B = (Y1 + X1) * (Y2 + X2) mod prime_p;
         C = T1 * 2 * rfc_d * T2 mod prime_p;
         D = Z1 * 2 * Z2 mod prime_p;
         E = B - A; F = D - C; G = D + C; H = B + A
     in (E * F mod prime_p, G * H mod prime_p, F * G mod prime_p, E * H mod prime_p))))"

definition rfc_mult :: "nat \<Rightarrow> epoint \<Rightarrow> epoint" where
  "rfc_mult s P = fst (foldl (\<lambda>(R0, R1) i.
      if bit s i then (rfc_add R0 R1, rfc_add R1 R1) else (rfc_add R0 R0, rfc_add R0 R1))
    ((0, 1, 1, 0), P) (rev [0..<256]))"

definition rfc_encode :: "epoint \<Rightarrow> nat" where
  "rfc_encode p = (case p of (X, Y, Z, T) \<Rightarrow>
    (let zinv = Z ^ (2 ^ 255 - 21) mod prime_p; x = X * zinv mod prime_p; y = Y * zinv mod prime_p
     in nat (y + 2 ^ 255 * (x mod 2))))"

text \<open>The constants are what the RFC says of them: \<open>d = -121665/121666\<close>, a root of \<open>-1\<close>, and the
  point on the curve with \<open>y = 4/5\<close> and even \<open>x\<close>; the coordinates' squares are named for the
  evaluation.\<close>

lemma rfc_constants: "(rfc_d * 121666 + 121665) mod prime_p = 0" "rfc_sqrt_m1 * rfc_sqrt_m1 mod prime_p = prime_p - 1"
  by code_simp+

lemma rfc_base_point:
  "case rfc_base of (X, Y, Z, T) \<Rightarrow> (Y * 5 - 4) mod prime_p = 0 \<and> even X \<and> Z = 1"
  by code_simp

lemma fe_curve_constants:
  "fe gf_D = rfc_d" "fe gf_D2 = 2 * rfc_d - prime_p" "fe gf_I = rfc_sqrt_m1" "(fe gf_X, fe gf_Y, 1, fe gf_X * fe gf_Y mod prime_p) = rfc_base"
  by code_simp+


section \<open>Points\<close>

definition point_of :: "point \<Rightarrow> epoint" where
  "point_of p = (case p of (a, b, c, d) \<Rightarrow> (fe a mod prime_p, fe b mod prime_p, fe c mod prime_p, fe d mod prime_p))"

definition point_ok :: "point \<Rightarrow> bool" where
  "point_ok p = (case p of (a, b, c, d) \<Rightarrow> within 65573 a \<and> within 65573 b \<and> within 65573 c \<and> within 65573 d)"

lemma gf_M_small: "within (2 ^ 24) a \<Longrightarrow> within (2 ^ 24) b \<Longrightarrow> within 65573 (gf_M a b)"
  by (rule gf_M_within)

lemma rfc_add_comm: "rfc_add p q = rfc_add q p"
  by (cases p; cases q) (simp add: rfc_add_def Let_def ac_simps)

lemma D2_value: "fe gf_D2 mod prime_p = 2 * rfc_d mod prime_p"
  unfolding fe_curve_constants(2) by (simp add: mod_diff_right_eq [symmetric])

lemma small_constants:
  "within 65573 gf0" "within 65573 gf1" "within 65573 gf_D" "within 65573 gf_D2" "within 65573 gf_X" "within 65573 gf_Y" "within 65573 gf_I"
  by (simp_all add: within_def list_all_iff gf0_def gf1_def gf_D_def gf_D2_def gf_X_def gf_Y_def gf_I_def)

lemma ed_add_rfc:
  assumes "point_ok p" and "point_ok q"
  shows "point_ok (ed_add p q)" and "point_of (ed_add p q) = rfc_add (point_of p) (point_of q)"
proof -
  obtain p0 p1 p2 p3 where p: "p = (p0, p1, p2, p3)" by (metis prod_cases4)
  obtain q0 q1 q2 q3 where q: "q = (q0, q1, q2, q3)" by (metis prod_cases4)
  have w: "within 65573 p0" "within 65573 p1" "within 65573 p2" "within 65573 p3"
    "within 65573 q0" "within 65573 q1" "within 65573 q2" "within 65573 q3"
    using assms by (simp_all add: point_ok_def p q)
  note l = w [THEN within_length]
  define a where "a = gf_M (gf_Z p1 p0) (gf_Z q1 q0)"
  define b where "b = gf_M (gf_A p0 p1) (gf_A q0 q1)"
  define c where "c = gf_M (gf_M p3 q3) gf_D2"
  define d where "d = gf_A (gf_M p2 q2) (gf_M p2 q2)"
  have s: "within (2 ^ 24) v" if "within (65573 + 65573) v" for v using that by (rule within_mono) simp
  have s': "within (2 ^ 24) v" if "within 65573 v" for v using that by (rule within_mono) simp
  have m: "within 65573 (gf_M u v)" if "within (2 ^ 24) u" "within (2 ^ 24) v" for u v using that by (rule gf_M_within)
  have wa: "within 65573 a" "within 65573 b"
    using m [OF s [OF within_A_Z(2) [OF w(2,1)]] s [OF within_A_Z(2) [OF w(6,5)]]]
      m [OF s [OF within_A_Z(1) [OF w(1,2)]] s [OF within_A_Z(1) [OF w(5,6)]]] by (simp_all add: a_def b_def)
  have wc: "within 65573 c" "within (65573 + 65573) d"
    using m [OF s' [OF m [OF s' [OF w(4)] s' [OF w(8)]]] s' [OF small_constants(4)]]
      within_A_Z(1) [OF m [OF s' [OF w(3)] s' [OF w(7)]] m [OF s' [OF w(3)] s' [OF w(7)]]] by (simp_all add: c_def d_def)
  have le: "within (2 ^ 24) (gf_Z b a)" "within (2 ^ 24) (gf_A b a)"
    using within_A_Z [OF wa(2,1)] by (auto intro: within_mono)
  have lf: "within (2 ^ 24) (gf_Z d c)" "within (2 ^ 24) (gf_A d c)"
    using within_A_Z [OF wc(2,1)] by (auto intro: within_mono)
  have e: "ed_add p q = (gf_M (gf_Z b a) (gf_Z d c), gf_M (gf_A b a) (gf_A d c), gf_M (gf_A d c) (gf_Z d c), gf_M (gf_Z b a) (gf_A b a))"
    by (simp add: ed_add_def p q Let_def a_def b_def c_def d_def)
  show "point_ok (ed_add p q)"
    unfolding e point_ok_def prod.case using le lf by (intro conjI m)
  note len = l wa [THEN within_length] wc [THEN within_length] small_constants(4) [THEN within_length]
  have fa: "fe a mod prime_p = (fe p1 mod prime_p - fe p0 mod prime_p) * (fe q1 mod prime_p - fe q0 mod prime_p) mod prime_p"
    by (simp only: a_def fe_mod_ops len gf_lengths min.idem mod_mult_eq)
  have fb: "fe b mod prime_p = (fe p1 mod prime_p + fe p0 mod prime_p) * (fe q1 mod prime_p + fe q0 mod prime_p) mod prime_p"
    by (simp only: b_def fe_mod_ops len gf_lengths min.idem mod_mult_eq add.commute)
  have fc: "fe c mod prime_p = fe p3 mod prime_p * 2 * rfc_d * (fe q3 mod prime_p) mod prime_p"
  proof -
    have k: "(u * v mod prime_p) * (2 * rfc_d mod prime_p) mod prime_p = u * 2 * rfc_d * v mod prime_p" for u v
      unfolding mod_mult_eq by (simp only: ac_simps)
    show ?thesis by (simp only: c_def fe_mod_ops len gf_M_length D2_value k)
  qed
  have fd: "fe d mod prime_p = fe p2 mod prime_p * 2 * (fe q2 mod prime_p) mod prime_p"
  proof -
    have k: "(u * v mod prime_p + u * v mod prime_p) mod prime_p = u * 2 * v mod prime_p" for u v
      unfolding mod_add_eq by (simp add: algebra_simps)
    show ?thesis by (simp only: d_def fe_mod_ops len gf_M_length k)
  qed
  show "point_of (ed_add p q) = rfc_add (point_of p) (point_of q)"
    unfolding e
    unfolding point_of_def rfc_add_def p q prod.case Let_def fa [symmetric] fb [symmetric] fc [symmetric] fd [symmetric]
    by (simp only: fe_mod_ops len gf_lengths min.idem mod_mult_eq) (simp only: mult.commute)
qed

text \<open>The ladder.\<close>

lemma cswap_cases:
  assumes "point_ok p" and "point_ok q"
  shows "cswap p q (of_bool r) = (if r then (q, p) else (p, q))"
  using assms
  by (cases p; cases q) (auto simp: cswap_def point_ok_def sel25519_cases within_length)

lemma scalarmult_step_rfc:
  assumes "point_ok p" and "point_ok q" and "i < 8 * length s"
  shows "scalarmult_step s (p, q) i = (if bit (le_value s) i then (ed_add p q, ed_add q q) else (ed_add p p, ed_add q p))"
proof -
  have c: "cswap u v 1 = (v, u)" "cswap u v 0 = (u, v)" if "point_ok u" "point_ok v" for u v
    using cswap_cases [OF that, of True] cswap_cases [OF that, of False] by simp_all
  show ?thesis
    using assms ed_add_rfc(1) [OF assms(1,2)] ed_add_rfc(1) [OF assms(1,1)] ed_add_rfc(1) [OF assms(2,2)] ed_add_rfc(1) [OF assms(2,1)]
    by (simp add: scalarmult_step_def bit_of_bit c)
qed

lemma scalarmult_loop:
  assumes "point_ok p" and "point_ok q" and "\<forall>i \<in> set is. i < 8 * length s"
  shows "case foldl (scalarmult_step s) (p, q) is of (p', q') \<Rightarrow> point_ok p' \<and> point_ok q' \<and>
    (point_of p', point_of q') = foldl (\<lambda>(R0, R1) i.
      if bit (le_value s) i then (rfc_add R0 R1, rfc_add R1 R1) else (rfc_add R0 R0, rfc_add R0 R1)) (point_of p, point_of q) is"
  using assms
proof (induction "is" arbitrary: p q)
  case (Cons i "is")
  have "point_ok (ed_add p p)" "point_ok (ed_add p q)" "point_ok (ed_add q p)" "point_ok (ed_add q q)"
    using Cons.prems by (simp_all only: ed_add_rfc(1))
  then show ?case
    using Cons.prems Cons.IH [of "ed_add p q" "ed_add q q"] Cons.IH [of "ed_add p p" "ed_add q p"]
      ed_add_rfc(2) [OF Cons.prems(1,2)] ed_add_rfc(2) [OF Cons.prems(1,1)] ed_add_rfc(2) [OF Cons.prems(2,2)] ed_add_rfc(2) [OF Cons.prems(2,1)]
      rfc_add_comm [of "point_of q" "point_of p"]
    by (simp add: scalarmult_step_rfc)
qed simp

lemma ed_scalarmult_rfc:
  assumes "point_ok q" and "length s = 32"
  shows "point_ok (ed_scalarmult q s)" and "point_of (ed_scalarmult q s) = rfc_mult (le_value s) (point_of q)"
proof -
  have id: "point_ok (gf0, gf1, gf1, gf0)" "point_of (gf0, gf1, gf1, gf0) = (0, 1, 1, 0)"
    using small_constants by (simp_all add: point_ok_def point_of_def fe_constants prime_p_def)
  have "\<forall>i \<in> set (rev [0..<256]). i < 8 * length s" using assms(2) by auto
  from scalarmult_loop [OF id(1) assms(1) this]
  show "point_ok (ed_scalarmult q s)" "point_of (ed_scalarmult q s) = rfc_mult (le_value s) (point_of q)"
    unfolding ed_scalarmult_def rfc_mult_def id(2) by (auto split: prod.splits dest: arg_cong [of _ _ fst])
qed

lemma base_point: "point_ok (gf_X, gf_Y, gf1, gf_M gf_X gf_Y)" "point_of (gf_X, gf_Y, gf1, gf_M gf_X gf_Y) = rfc_base"
proof -
  have "within 65573 (gf_M gf_X gf_Y)" using small_constants by (intro gf_M_within) (auto intro: within_mono)
  then show "point_ok (gf_X, gf_Y, gf1, gf_M gf_X gf_Y)" using small_constants by (simp add: point_ok_def)
  have "fe gf_X mod prime_p = fe gf_X" "fe gf_Y mod prime_p = fe gf_Y" "1 mod prime_p = 1" by code_simp+
  then show "point_of (gf_X, gf_Y, gf1, gf_M gf_X gf_Y) = rfc_base"
    unfolding fe_curve_constants(4) [symmetric] point_of_def prod.case
    using small_constants [THEN within_length] by (simp add: fe_constants fe_mod_ops mod_mult_eq)
qed

lemma scalarbase_rfc:
  assumes "length s = 32"
  shows "point_ok (scalarbase s)" and "point_of (scalarbase s) = rfc_mult (le_value s) rfc_base"
  using ed_scalarmult_rfc [OF base_point(1) assms] by (simp_all add: scalarbase_def base_point(2))

section \<open>Encoding\<close>

lemma pack_fe: "within (2 ^ 24) v \<Longrightarrow> int (le_value (pack25519 v)) = fe v mod prime_p"
  using within_i64 [of "2 ^ 24" v] by (intro pack25519_value within_length) simp_all

lemma le_value_odd: "bs \<noteq> [] \<Longrightarrow> odd (le_value bs) \<longleftrightarrow> odd (unat (bs ! 0))"
  by (cases bs) simp_all

lemma par25519_fe: "within (2 ^ 24) v \<Longrightarrow> par25519 v = of_bool (odd (fe v mod prime_p))"
proof -
  assume v: "within (2 ^ 24) v"
  have "pack25519 v \<noteq> []" using pack25519_length [of v] by force
  then have "odd (le_value (pack25519 v)) \<longleftrightarrow> odd (unat (pack25519 v ! 0))" by (rule le_value_odd)
  then have "odd (unat (pack25519 v ! 0)) \<longleftrightarrow> odd (fe v mod prime_p)"
    unfolding pack_fe [OF v, symmetric] by simp
  moreover have "b AND 1 = of_bool (odd (unat b))" for b :: byte
    proof -
    have "bit (unat b) 0 = bit b 0" by (simp add: bit_unsigned_iff)
    then show ?thesis by (simp add: and_one_eq mod_2_eq_odd bit_0)
  qed
  ultimately show ?thesis by (simp add: par25519_def)
qed

lemma top_bit_value:
  assumes "length r = 32" and "le_value r < 2 ^ 255"
  shows "le_value (r[31 := r ! 31 XOR push_bit 7 (of_bool s)]) = le_value r + 2 ^ 255 * of_bool s"
proof -
  have r: "r = take 31 r @ [r ! 31]" using take_Suc_conv_app_nth [of 31 r] assms(1) by simp
  have v: "le_value r = le_value (take 31 r) + 256 ^ 31 * unat (r ! 31)"
    using arg_cong [OF r, of le_value] assms(1) by (simp add: le_value_append)
  then have b: "unat (r ! 31) < 128" using assms(2) by simp
  have "r ! 31 XOR push_bit 7 (of_bool s) = r ! 31 + 128 * of_bool s"
  proof -
    have "\<not> bit (unat (r ! 31)) 7" using b by (simp add: bit_iff_odd)
    then have "\<not> bit (r ! 31) 7" by (simp add: bit_unsigned_iff)
    then have "bit (r ! 31 AND push_bit 7 1) n = bit (0 :: byte) n" if "n < LENGTH(8)" for n
      using that unfolding bit_and_iff bit_push_bit_iff bit_1_iff by (cases "n = 7") auto
    then have "r ! 31 AND push_bit 7 1 = 0" by (rule bit_word_eqI)
    then have "r ! 31 + push_bit 7 1 = r ! 31 XOR push_bit 7 1" by (rule disjunctive_add_eq_xor)
    then have "r ! 31 XOR 128 = r ! 31 + 128" by simp
    then show ?thesis by (cases s) simp_all
  qed
  moreover have "unat (r ! 31 + 128 * of_bool s) = unat (r ! 31) + 128 * of_bool s"
    using b by (cases s) (simp_all add: unat_word_ariths)
  moreover have "r[31 := x] = take 31 r @ [x]" for x using assms(1) by (subst r) (simp add: list_update_append)
  ultimately show ?thesis unfolding v using assms(1) by (simp add: le_value_append)
qed

lemma ed_pack_rfc:
  assumes "point_ok p"
  shows "le_value (ed_pack p) = rfc_encode (point_of p)"
proof -
  obtain a b c d where p: "p = (a, b, c, d)" by (metis prod_cases4)
  have w: "within (2 ^ 24) a" "within (2 ^ 24) b" "within (2 ^ 24) c"
    using assms by (auto simp: point_ok_def p intro: within_mono)
  note l = w [THEN within_length]
  have i: "within (2 ^ 24) (inv25519 c)" by (rule inv25519_within [OF w(3)])
  define z where "z = (fe c mod prime_p) ^ (2 ^ 255 - 21) mod prime_p"
  have z: "fe (inv25519 c) mod prime_p = z" "length (inv25519 c) = 16"
    using inv25519_power [OF l(3)] by (simp_all add: z_def power_mod)
  define x where "x = (fe a mod prime_p) * z mod prime_p"
  define y where "y = (fe b mod prime_p) * z mod prime_p"
  have m: "fe (gf_M a (inv25519 c)) mod prime_p = x" "fe (gf_M b (inv25519 c)) mod prime_p = y"
    using l z by (simp_all add: fe_mod_ops x_def y_def)
  have mw: "within (2 ^ 24) (gf_M a (inv25519 c))" "within (2 ^ 24) (gf_M b (inv25519 c))"
    using gf_M_within [OF w(1) i] gf_M_within [OF w(2) i] by (auto intro: within_mono)
  define r where "r = pack25519 (gf_M b (inv25519 c))"
  have r: "int (le_value r) = y" "length r = 32" using pack_fe [OF mw(2)] m(2) by (simp_all add: r_def)
  have y: "0 \<le> y" "y < 2 ^ 255" by (simp_all add: y_def prime_p_def pos_mod_bound [THEN less_trans])
  have "int (le_value r) < int (2 ^ 255)" using r(1) y(2) by simp
  then have rb: "le_value r < 2 ^ 255" by (simp only: of_nat_less_iff)
  have "ed_pack p = r[31 := r ! 31 XOR push_bit 7 (of_bool (odd x))]"
    by (simp add: ed_pack_def p Let_def par25519_fe [OF mw(1)] m(1) r_def)
  then have "le_value (ed_pack p) = le_value r + 2 ^ 255 * of_bool (odd x)"
    using top_bit_value [OF r(2) rb] by simp
  moreover have "x mod 2 = of_bool (odd x)" by (simp add: mod_2_eq_odd)
  moreover have "rfc_encode (point_of p) = nat (y + 2 ^ 255 * (x mod 2))"
    by (simp add: rfc_encode_def point_of_def p Let_def x_def y_def z_def)
  moreover have "nat (y + 2 ^ 255 * of_bool (odd x)) = le_value r + 2 ^ 255 * of_bool (odd x)"
  proof -
    have "y + 2 ^ 255 * of_bool (odd x) = int (le_value r + 2 ^ 255 * of_bool (odd x))" by (simp add: r(1))
    then show ?thesis by (simp only: nat_int)
  qed
  ultimately show ?thesis by (simp only:)
qed

end
