(* ===== verification/Ed25519.thy ===== *)
theory Ed25519
  imports Curve_Points Sha512
begin

text \<open>
  Key generation, signing and verifying of cmd/tweetnacl.c (\<open>crypto_sign_keypair\<close>, \<open>crypto_sign\<close>,
  \<open>unpackneg\<close>, \<open>crypto_sign_open\<close>) and of the wrappers in cmd/dump.c are RFC 8032 over integers, with
  the SHA-512 of the standard. What the decoding of a key accepts beyond the RFC is written into
  \<open>rfc_decode_x\<close>.
\<close>

unbundle bit_operations_syntax


section \<open>Signing\<close>

text \<open>RFC 8032, section 5.1.5 and 5.1.6, over the SHA-512 of the standard.\<close>

definition rfc_secret :: "bytes \<Rightarrow> nat \<times> bytes" where
  "rfc_secret seed = (let h = std_sha512 seed in (rfc_clamp (le_value (take 32 h)), drop 32 h))"

definition rfc_public :: "bytes \<Rightarrow> bytes" where
  "rfc_public seed = le_bytes 32 (rfc_encode (rfc_mult (fst (rfc_secret seed)) rfc_base))"

definition rfc_sign :: "bytes \<Rightarrow> bytes \<Rightarrow> bytes" where
  "rfc_sign seed m =
    (let (s, prefix) = rfc_secret seed;
         A = rfc_public seed;
         r = le_value (std_sha512 (prefix @ m)) mod group_order;
         R = le_bytes 32 (rfc_encode (rfc_mult r rfc_base));
         k = le_value (std_sha512 (R @ A @ m)) mod group_order
     in R @ le_bytes 32 ((r + k * s) mod group_order))"

lemma std_sha512_length: "length (std_sha512 m) = 64"
proof -
  have "length (concat (map (\<lambda>x. be_bytes 8 (unat x)) (var_words v))) = 64" for v
    by (simp add: var_words_def split: prod.splits)
  then show ?thesis by (simp add: std_sha512_def Let_def)
qed

lemma ed_clamp_value:
  assumes "length d = 64"
  shows "le_value (take 32 (ed_clamp d)) = rfc_clamp (le_value (take 32 d))" and "drop 32 (ed_clamp d) = drop 32 d"
    and "length (ed_clamp d) = 64"
proof -
  have "take 32 (ed_clamp d) = clamp_scalar (take 32 d)"
    using assms by (simp add: ed_clamp_def clamp_scalar_def Let_def take_update_swap list_update_swap)
  then show "le_value (take 32 (ed_clamp d)) = rfc_clamp (le_value (take 32 d))"
    using clamp_value(2) [of "take 32 d"] assms by simp
  show "drop 32 (ed_clamp d) = drop 32 d" "length (ed_clamp d) = 64" using assms by (simp_all add: ed_clamp_def Let_def drop_update_cancel)
qed

lemma scalarbase_take: "scalarbase (take 32 s) = scalarbase s" if "32 \<le> length s"
proof -
  have b: "bit_of (take 32 s) i = bit_of s i" if "i < 256" for i
    using that by (simp add: bit_of_def)
  have "foldl (scalarmult_step (take 32 s)) pq is = foldl (scalarmult_step s) pq is" if "set is \<subseteq> {0..<256}" for pq "is"
    using that by (intro foldl_cong refl) (auto simp: scalarmult_step_def b)
  from this [of "rev [0..<256]"] show ?thesis by (simp add: scalarbase_def ed_scalarmult_def)
qed

lemma keypair_rfc:
  assumes "length seed = 32"
  shows "crypto_sign_keypair seed = (rfc_public seed, seed @ rfc_public seed)"
proof -
  define d where "d = ed_clamp (std_sha512 seed)"
  have h: "crypto_hash seed = std_sha512 seed" using crypto_hash_std [of seed] assms by simp
  have l: "length d = 64" using ed_clamp_value(3) [OF std_sha512_length] by (simp add: d_def)
  have s: "le_value (take 32 d) = fst (rfc_secret seed)"
    using ed_clamp_value(1) [OF std_sha512_length] by (simp add: d_def rfc_secret_def Let_def)
  have t: "length (take 32 d) = 32" using l by simp
  have "le_value (ed_pack (scalarbase d)) = rfc_encode (rfc_mult (fst (rfc_secret seed)) rfc_base)"
    using scalarbase_take [of d] l ed_pack_rfc [OF scalarbase_rfc(1) [OF t]] scalarbase_rfc(2) [OF t] s by simp
  then have "ed_pack (scalarbase d) = rfc_public seed" unfolding rfc_public_def by (intro le_bytes_eq) simp_all
  then show ?thesis by (simp add: crypto_sign_keypair_def h d_def Let_def)
qed

lemma sign_rfc:
  assumes "length seed = 32" and m: "length m + 64 < 2 ^ 64"
  shows "crypto_sign m (seed @ rfc_public seed) = rfc_sign seed m @ m"
proof -
  define d where "d = ed_clamp (std_sha512 seed)"
  define pre where "pre = drop 32 (std_sha512 seed)"
  define s where "s = fst (rfc_secret seed)"
  have h: "crypto_hash seed = std_sha512 seed" using crypto_hash_std [of seed] assms by simp
  have d: "length d = 64" "drop 32 d = pre" "le_value (take 32 d) = s"
    using ed_clamp_value [OF std_sha512_length] by (simp_all add: d_def pre_def s_def rfc_secret_def Let_def)
  define r where "r = ed_reduce (std_sha512 (pre @ m))"
  have hr: "crypto_hash (pre @ m) = std_sha512 (pre @ m)"
    using m std_sha512_length [of seed] by (intro crypto_hash_std) (simp add: pre_def)
  have r: "le_value r = le_value (std_sha512 (pre @ m)) mod group_order" "length r = 32"
    using ed_reduce_value [OF std_sha512_length] by (simp_all add: r_def)
  define R where "R = ed_pack (scalarbase r)"
  have R: "R = le_bytes 32 (rfc_encode (rfc_mult (le_value r) rfc_base))" "length R = 32"
    unfolding R_def using ed_pack_rfc [OF scalarbase_rfc(1) [OF r(2)]] scalarbase_rfc(2) [OF r(2)] by (simp_all add: le_bytes_eq)
  have lA: "length (rfc_public seed) = 32" using keypair_rfc [OF assms(1)] crypto_sign_keypair_length(1) [of seed] by simp
  define h where "h = ed_reduce (std_sha512 (R @ rfc_public seed @ m))"
  have hh: "crypto_hash (R @ rfc_public seed @ m) = std_sha512 (R @ rfc_public seed @ m)"
    using m R(2) lA by (intro crypto_hash_std) simp
  have hv: "le_value h = le_value (std_sha512 (R @ rfc_public seed @ m)) mod group_order" "length h = 32"
    using ed_reduce_value [OF std_sha512_length] by (simp_all add: h_def)
  have "scalar_muladd r h d = le_bytes 32 ((le_value r + le_value h * s) mod group_order)"
    using scalar_muladd_value [OF r(2) hv(2), of d] d by (intro le_bytes_eq) simp_all
  moreover have "crypto_sign m (seed @ rfc_public seed) = R @ scalar_muladd r h d @ m"
    unfolding crypto_sign_def scalar_muladd_def using assms(1)
    by (simp add: Let_def \<open>crypto_hash seed = std_sha512 seed\<close> d(2) hr hh flip: d_def r_def R_def h_def)
  moreover have "rfc_secret seed = (s, pre)" by (simp add: s_def pre_def rfc_secret_def Let_def)
  ultimately show ?thesis by (simp add: rfc_sign_def Let_def r(1) [symmetric] R(1) [symmetric] hv(1) [symmetric])
qed


section \<open>Comparison\<close>

lemma vn_equal:
  assumes "length x = n" and "length y = n"
  shows "vn x y n = (if x = y then 0 else - 1)"
proof -
  define d where "d = foldl (\<lambda>d i. d OR (ucast (x ! i XOR y ! i) :: word64)) 0 [0..<n]"
  have b: "bit (foldl (\<lambda>d i. d OR (ucast (x ! i XOR y ! i) :: word64)) a is) k \<longleftrightarrow>
      bit a k \<or> (\<exists>i \<in> set is. k < 8 \<and> (bit (x ! i) k \<noteq> bit (y ! i) k))" for a "is" k
  proof (induction "is" arbitrary: a)
    case (Cons i "is")
    have one: "bit (ucast z :: word64) k \<longleftrightarrow> k < 8 \<and> bit z k" for z :: byte
      using bit_imp_le_length [of z k] by (auto simp: bit_ucast_iff)
    have "bit (a OR (ucast (x ! i XOR y ! i) :: word64)) k \<longleftrightarrow> bit a k \<or> k < 8 \<and> (bit (x ! i) k \<noteq> bit (y ! i) k)"
      unfolding bit_or_iff one bit_xor_iff ..
    then show ?case by (simp add: Cons) blast
  qed simp
  have dk: "bit d k \<longleftrightarrow> (\<exists>i < n. k < 8 \<and> (bit (x ! i) k \<noteq> bit (y ! i) k))" for k
    unfolding d_def b by auto
  show ?thesis
  proof (cases "x = y")
    case True
    then have "d = 0" using dk by (intro bit_word_eqI) simp
    then show ?thesis using True unfolding vn_def Let_def d_def [symmetric] by (simp add: mask_eq_exp_minus_1)
  next
    case False
    then obtain i where i: "i < n" "x ! i \<noteq> y ! i" using assms by (metis nth_equalityI)
    then obtain k where k: "k < 8" "bit (x ! i) k \<noteq> bit (y ! i) k" using bit_word_eqI [of "x ! i" "y ! i"] by auto
    then have "bit d k" using i dk by auto
    then have nz: "d \<noteq> 0" by auto
    have "take_bit 8 d = d" using dk by (intro bit_eqI) (auto simp: bit_take_bit_iff)
    then have "unat d < 2 ^ 8" using unsigned_take_bit_eq [of 8 d, where ?'a = nat] by (metis take_bit_nat_less_exp)
    moreover have "unat (d - 1) = unat d - 1" using nz by (simp add: unat_minus_one)
    ultimately have "unat (d - 1) < 256" by simp
    then have "d - 1 < 256" by (simp add: word_less_nat_alt)
    then have "drop_bit 8 (d - 1) = 0" by (simp add: drop_bit_eq_div div_word_less)
    then show ?thesis using False unfolding vn_def Let_def d_def [symmetric] by simp
  qed
qed

section \<open>Verifying\<close>

text \<open>RFC 8032, section 5.1.3 and 5.1.7, except that the code takes the \<open>y\<close> of a key modulo the prime
  and keeps \<open>x = 0\<close> with either sign, where the RFC rejects.\<close>

definition rfc_decode_x :: "int \<Rightarrow> bool \<Rightarrow> int option" where
  "rfc_decode_x y sign =
    (let u = (y ^ 2 - 1) mod prime_p;
         v = (rfc_d * y ^ 2 + 1) mod prime_p;
         x = u * v ^ 3 * (u * v ^ 7) ^ (2 ^ 252 - 3) mod prime_p;
         x = (if v * x ^ 2 mod prime_p = u then x else x * rfc_sqrt_m1 mod prime_p)
     in if v * x ^ 2 mod prime_p \<noteq> u then None
        else Some (if odd x = sign then x else - x mod prime_p))"

definition rfc_verify :: "bytes \<Rightarrow> bytes \<Rightarrow> bytes \<Rightarrow> bool" where
  "rfc_verify pk sig m =
    (let R = le_value (take 32 sig); S = le_value (drop 32 sig); y = int (le_value pk mod 2 ^ 255) in
     if \<not> S < group_order then False
     else case rfc_decode_x y (bit (le_value pk) 255) of
       None \<Rightarrow> False
     | Some x \<Rightarrow>
         (let k = le_value (std_sha512 (take 32 sig @ pk @ m)) mod group_order;
              minus_A = (- x mod prime_p, y mod prime_p, 1, - x * y mod prime_p)
          in R = rfc_encode (rfc_add (rfc_mult k minus_A) (rfc_mult S rfc_base))))"

lemma neq25519_fe:
  assumes "within (2 ^ 24) a" and "within (2 ^ 24) b"
  shows "neq25519 a b \<noteq> 0 \<longleftrightarrow> fe a mod prime_p \<noteq> fe b mod prime_p"
proof -
  have "pack25519 a = pack25519 b \<longleftrightarrow> le_value (pack25519 a) = le_value (pack25519 b)"
    using le_bytes_value [of "pack25519 a"] le_bytes_value [of "pack25519 b"] by (metis pack25519_length)
  then show ?thesis
    unfolding pack_fe [OF assms(1), symmetric] pack_fe [OF assms(2), symmetric]
    by (simp add: neq25519_def crypto_verify_32_def vn_equal)
qed

lemma gf_neg:
  assumes "within 65573 a"
  shows "within 65573 (gf_Z gf0 a)" and "fe (gf_Z gf0 a) = - fe a"
proof -
  have "within 0 gf0" by (simp add: within_def gf0_def list_all_iff)
  from within_A_Z(2) [OF this assms] show "within 65573 (gf_Z gf0 a)" by simp
  show "fe (gf_Z gf0 a) = - fe a" using within_length [OF assms] by (simp add: fe_Z fe_constants)
qed

lemma top_bit: "length p = 32 \<Longrightarrow> drop_bit 7 (p ! 31) = (of_bool (bit (le_value p) 255) :: byte)"
proof -
  assume "length p = 32"
  then have "bit (le_value p) 255 \<longleftrightarrow> bit (p ! 31) 7" using bit_le_value [of 255 p] by simp
  moreover have "drop_bit 7 (b :: byte) = of_bool (bit b 7)"for b
  proof (rule bit_word_eqI)
    fix n
    show "bit (drop_bit 7 b) n = bit (of_bool (bit b 7) :: byte) n"
      using bit_imp_le_length [of b "7 + n"] by (cases n) (auto simp: bit_drop_bit_eq bit_0)
  qed
  ultimately show ?thesis by simp
qed

text \<open>A field element stands for an integer if it has its residue and limbs small enough to be
  multiplied.\<close>

definition stands_for :: "gf \<Rightarrow> int \<Rightarrow> bool" where
  "stands_for a u \<longleftrightarrow> within (2 ^ 24) a \<and> fe a mod prime_p = u mod prime_p"

lemma stands_M: "stands_for a u \<Longrightarrow> stands_for b v \<Longrightarrow> stands_for (gf_M a b) (u * v)"
  using gf_M_within [of a b]
  by (auto simp: stands_for_def fe_mod_ops within_length mod_mult_eq intro: within_mono)

lemma stands_S: "stands_for a u \<Longrightarrow> stands_for (gf_S a) (u * u)"
  by (simp add: gf_S_def stands_M)

lemma stands_pow: "stands_for a u \<Longrightarrow> stands_for (pow2523 a) (u ^ (2 ^ 252 - 3))"
proof -
  assume a: "stands_for a u"
  then have "within (2 ^ 24) (pow2523 a)"
    using within_chain [of a a "\<lambda>a. a \<noteq> 1" "rev [0..<251]"] by (simp add: stands_for_def pow2523_def power_step_def [abs_def])
  moreover have "fe (pow2523 a) mod prime_p = (fe a mod prime_p) ^ (2 ^ 252 - 3) mod prime_p"
    unfolding power_mod using a by (intro pow2523_power(2)) (auto simp: stands_for_def dest: within_length)
  moreover have "(u mod prime_p) ^ (2 ^ 252 - 3) mod prime_p = u ^ (2 ^ 252 - 3) mod prime_p" by (rule power_mod)
  moreover have "fe a mod prime_p = u mod prime_p" using a by (simp add: stands_for_def)
  ultimately show ?thesis by (simp only: stands_for_def)
qed

lemma stands_small: "within 65573 a \<Longrightarrow> fe a mod prime_p = u mod prime_p \<Longrightarrow> stands_for a u"
  by (auto simp: stands_for_def intro: within_mono)

lemma stands_mod: "stands_for a u \<Longrightarrow> u mod prime_p = v mod prime_p \<Longrightarrow> stands_for a v"
  by (simp add: stands_for_def)

lemma stands_constants: "stands_for gf1 1" "stands_for gf_D rfc_d" "stands_for gf_I rfc_sqrt_m1"
  using small_constants by (auto intro: stands_small simp: fe_constants fe_curve_constants)

lemma stands_A_Z:
  assumes "within 65573 a" "within 65573 b" "stands_for a u" "stands_for b v"
  shows "stands_for (gf_A a b) (u + v)" "stands_for (gf_Z a b) (u - v)"
  using assms within_A_Z [OF assms(1,2)]
  by (auto simp: stands_for_def fe_mod_ops within_length mod_add_eq mod_diff_eq intro: within_mono)

lemma M_small: "stands_for a u \<Longrightarrow> stands_for b v \<Longrightarrow> within 65573 (gf_M a b)"
  by (simp add: stands_for_def gf_M_within)

lemma unpackneg_rfc:
  assumes "length p = 32"
  shows "case rfc_decode_x (int (le_value p mod 2 ^ 255)) (bit (le_value p) 255) of
      None \<Rightarrow> unpackneg p = None
    | Some x \<Rightarrow> \<exists>q. unpackneg p = Some q \<and> point_ok q \<and> point_of q =
        (- x mod prime_p, int (le_value p mod 2 ^ 255) mod prime_p, 1, - x * int (le_value p mod 2 ^ 255) mod prime_p)"
proof -
  define y where "y = int (le_value p mod 2 ^ 255)"
  define sign where "sign = bit (le_value p) 255"
  define r1 where "r1 = unpack25519 p"
  have r1: "within 65573 r1" "fe r1 = y" using unpack25519_within [of p] fe_unpack25519 [OF assms] by (simp_all add: r1_def y_def zmod_int)
  have s1: "stands_for r1 y" using r1 by (auto intro: stands_small)
  define yy where "yy = gf_S r1"
  define n where "n = gf_Z yy gf1"
  define den where "den = gf_A gf1 (gf_M yy gf_D)"
  define u where "u = (y ^ 2 - 1) mod prime_p"
  define v where "v = (rfc_d * y ^ 2 + 1) mod prime_p"
  have yy: "stands_for yy (y * y)" "within 65573 yy" unfolding yy_def gf_S_def using s1 by (auto intro: stands_M M_small)
  have n: "stands_for n u"
    unfolding n_def by (rule stands_mod [OF stands_A_Z(2) [OF yy(2) small_constants(2) yy(1) stands_constants(1)]]) (simp add: u_def power2_eq_square)
  have den: "stands_for den v"
    unfolding den_def
    by (rule stands_mod [OF stands_A_Z(1) [OF small_constants(2) M_small [OF yy(1) stands_constants(2)] stands_constants(1) stands_M [OF yy(1) stands_constants(2)]]])
       (simp add: v_def power2_eq_square algebra_simps)
  define t where "t = gf_M (gf_M (gf_M (gf_S (gf_S den)) (gf_S den)) n) den"
  define r0 where "r0 = gf_M (gf_M (gf_M (gf_M (pow2523 t) n) den) den) den"
  define x where "x = u * v ^ 3 * (u * v ^ 7) ^ (2 ^ 252 - 3) mod prime_p"
  have t: "stands_for t (u * v ^ 7)"
  proof -
    have "stands_for t (v * v * (v * v) * (v * v) * u * v)" unfolding t_def by (intro stands_M stands_S n den)
    moreover have "v * v * (v * v) * (v * v) * u * v = u * v ^ 7" by (simp add: eval_nat_numeral)
    ultimately show ?thesis by simp
  qed
  have r0: "stands_for r0 x" "within 65573 r0"
  proof -
    have f: "stands_for (gf_M (gf_M (gf_M (pow2523 t) n) den) den) ((u * v ^ 7) ^ (2 ^ 252 - 3) * u * v * v)"
      by (intro stands_M stands_pow t n den)
    then show "within 65573 r0" unfolding r0_def by (rule M_small [OF _ den])
    have "stands_for r0 ((u * v ^ 7) ^ (2 ^ 252 - 3) * u * v * v * v)" unfolding r0_def using f den by (rule stands_M)
    then show "stands_for r0 x" by (rule stands_mod) (simp add: x_def power3_eq_cube ac_simps)
  qed
  have chk: "neq25519 (gf_M (gf_S r) den) n \<noteq> 0 \<longleftrightarrow> v * z ^ 2 mod prime_p \<noteq> u" if "stands_for r z" for r z
  proof -
    have "stands_for (gf_M (gf_S r) den) (z * z * v)" by (intro stands_M stands_S that den)
    then show ?thesis
      using n neq25519_fe [of "gf_M (gf_S r) den" n] by (simp add: stands_for_def u_def power2_eq_square ac_simps)
  qed
  define r0' where "r0' = (if neq25519 (gf_M (gf_S r0) den) n \<noteq> 0 then gf_M r0 gf_I else r0)"
  define x' where "x' = (if v * x ^ 2 mod prime_p = u then x else x * rfc_sqrt_m1 mod prime_p)"
  have r0': "stands_for r0' x'" "within 65573 r0'" "x' mod prime_p = x'"
    using r0 chk [OF r0(1)] stands_M [OF r0(1) stands_constants(3)] M_small [OF r0(1) stands_constants(3)]
    by (auto simp: r0'_def x'_def stands_for_def x_def)
  define r where "r = (if par25519 r0' = drop_bit 7 (p ! 31) then gf_Z gf0 r0' else r0')"
  have un: "unpackneg p = (if neq25519 (gf_M (gf_S r0') den) n \<noteq> 0 then None else Some (r, r1, gf1, gf_M r r1))"
    unfolding unpackneg_def Let_def r1_def [symmetric] yy_def [symmetric] n_def [symmetric] den_def [symmetric] t_def [symmetric]
      r0_def [symmetric] r0'_def [symmetric] r_def [symmetric] ..
  have dec: "rfc_decode_x y sign = (if v * x' ^ 2 mod prime_p \<noteq> u then None else Some (if odd x' = sign then x' else - x' mod prime_p))"
    unfolding rfc_decode_x_def Let_def u_def [symmetric] v_def [symmetric] x_def [symmetric] x'_def [symmetric] ..
  have "par25519 r0' = of_bool (odd x')" using par25519_fe [of r0'] r0' by (simp add: stands_for_def)
  then have par: "par25519 r0' = drop_bit 7 (p ! 31) \<longleftrightarrow> odd x' = sign" by (simp add: top_bit [OF assms] sign_def)
  have r: "within 65573 r" "fe r mod prime_p = (if odd x' = sign then - x' else x') mod prime_p"
    using r0' gf_neg [OF r0'(2)] mod_minus_eq [of "fe r0'" prime_p] mod_minus_eq [of x' prime_p]
    by (auto simp: r_def par stands_for_def)
  have rx: "fe r mod prime_p = - (if odd x' = sign then x' else - x' mod prime_p) mod prime_p"
    unfolding r(2) by (simp add: mod_minus_eq)
  have sr: "stands_for r (- (if odd x' = sign then x' else - x' mod prime_p))" using stands_small [OF r(1) rx] .
  have "point_ok (r, r1, gf1, gf_M r r1)" using r(1) r1(1) small_constants(2) M_small [OF sr s1] by (simp add: point_ok_def)
  moreover have "point_of (r, r1, gf1, gf_M r r1) =
      (- (if odd x' = sign then x' else - x' mod prime_p) mod prime_p, y mod prime_p, 1,
       - (if odd x' = sign then x' else - x' mod prime_p) * y mod prime_p)"
    using stands_M [OF sr s1] rx r1(2) by (simp add: point_of_def stands_for_def fe_constants prime_p_def)
  ultimately show ?thesis
    unfolding y_def [symmetric] sign_def [symmetric] dec un chk [OF r0'(1)] by (simp split: if_split)
qed

text \<open>\<open>ed25519_verify\<close> of cmd/dump.c, which also wants a canonical scalar.\<close>

lemma verify_rfc:
  assumes "length pk = 32" and "length sig = 64" and m: "length m + 64 < 2 ^ 64"
  shows "ed_valid pk sig m \<longleftrightarrow> rfc_verify pk sig m"
proof -
  define y where "y = int (le_value pk mod 2 ^ 255)"
  define R where "R = take 32 sig"
  define S where "S = drop 32 sig"
  have l: "length R = 32" "length S = 32" "sig = R @ S" using assms by (simp_all add: R_def S_def)
  have c: "scalar_canonical S \<longleftrightarrow> le_value S < group_order" by (rule scalar_canonical_less [OF l(2)])
  define h where "h = ed_reduce (std_sha512 (R @ pk @ m))"
  have hh: "crypto_hash (R @ pk @ m) = std_sha512 (R @ pk @ m)" using m l assms(1) by (intro crypto_hash_std) simp
  have h: "le_value h = le_value (std_sha512 (R @ pk @ m)) mod group_order" "length h = 32"
    using ed_reduce_value [OF std_sha512_length] by (simp_all add: h_def)
  note un = unpackneg_rfc [OF assms(1), folded y_def]
  show ?thesis
  proof (cases "rfc_decode_x y (bit (le_value pk) 255)")
    case None
    then have "unpackneg pk = None" using un by simp
    then have "crypto_sign_open (sig @ m) pk = - 1" using l by (simp add: crypto_sign_open_def)
    then show ?thesis unfolding ed_valid_def rfc_verify_def Let_def y_def [symmetric] None by simp
  next
    case (Some x)
    then obtain q where q: "unpackneg pk = Some q" "point_ok q" "point_of q = (- x mod prime_p, y mod prime_p, 1, - x * y mod prime_p)"
      using un by auto
    define t where "t = ed_pack (ed_add (ed_scalarmult q h) (scalarbase S))"
    note qm = ed_scalarmult_rfc [OF q(2) h(2)] and bm = scalarbase_rfc [OF l(2)]
    have t: "le_value t = rfc_encode (rfc_add (rfc_mult (le_value h) (point_of q)) (rfc_mult (le_value S) rfc_base))" "length t = 32"
      unfolding t_def using ed_pack_rfc [OF ed_add_rfc(1) [OF qm(1) bm(1)]] ed_add_rfc(2) [OF qm(1) bm(1)] qm(2) bm(2) by simp_all
    have "foldl (\<lambda>d i. d OR (ucast ((sig @ m) ! i XOR t ! i) :: word64)) 0 [0..<32] =
        foldl (\<lambda>d i. d OR ucast (R ! i XOR t ! i)) 0 [0..<32]"
      using l by (intro foldl_cong) (auto simp: nth_append)
    then have v: "vn (sig @ m) t 32 = vn R t 32" unfolding vn_def by (simp only:)
    have "R = t \<longleftrightarrow> le_value R = le_value t" using le_bytes_value [of R] le_bytes_value [of t] l(1) t(2) by metis
    then have "crypto_sign_open (sig @ m) pk = 0 \<longleftrightarrow> le_value R = le_value t"
      using l assms(1) q(1) v vn_equal [OF l(1) t(2)]
      by (simp add: crypto_sign_open_def Let_def hh crypto_verify_32_def flip: t_def h_def)
    then show ?thesis
      using Some c unfolding ed_valid_def rfc_verify_def Let_def y_def [symmetric] R_def [symmetric] S_def [symmetric]
      by (simp add: t(1) q(3) h(1) flip: h_def)
  qed
qed

end
