(* ===== verification/Nacl_Box.thy ===== *)
theory Nacl_Box
  imports Salsa20 Poly1305 Ed25519
begin

text \<open>
  The streams, secretbox and box of cmd/tweetnacl.c: the stream is XSalsa20 with a counter of eight
  bytes, a secretbox is XSalsa20 with Poly1305, opening undoes sealing and refuses what does not
  carry the right authenticator, and a box is a secretbox under the hash of the X25519 secret.
\<close>

unbundle bit_operations_syntax

section \<open>The stream of the specification\<close>

text \<open>A key stream: block \<open>i\<close> is the hash of the nonce and the number \<open>i\<close>, least significant byte
  first. XSalsa20 takes the first half of a longer nonce into the key.\<close>

definition salsa20_stream :: "nat \<Rightarrow> bytes \<Rightarrow> bytes \<Rightarrow> bytes" where
  "salsa20_stream d n k =
    take d (concat (map (\<lambda>i. salsa20_hash (n @ le_bytes 8 i) k salsa_sigma) [0..<(d + 63) div 64]))"

definition xsalsa20_stream :: "nat \<Rightarrow> bytes \<Rightarrow> bytes \<Rightarrow> bytes" where
  "xsalsa20_stream d n k = salsa20_stream d (drop 16 n) (hsalsa20_hash (take 16 n) k salsa_sigma)"

text \<open>The counter.\<close>

lemma le_bytes_mod: "le_bytes n (x mod 256 ^ n) = le_bytes n x"
  using le_bytes_eq [of "le_bytes n x" n "x mod 256 ^ n"] by (simp add: le_value_le_bytes)

abbreviation count_step :: "bytes \<times> ulong \<Rightarrow> nat \<Rightarrow> bytes \<times> ulong" where
  "count_step \<equiv> \<lambda>(z, u) i. let u = u + ucast (z ! i) in (z[i := ucast u], drop_bit 8 u)"

lemma count_steps:
  "unat u < 256 \<Longrightarrow>
    fst (foldl count_step (a @ bs, u) [length a..<length a + length bs]) = a @ le_bytes (length bs) (le_value bs + unat u)"
proof (induction bs arbitrary: a u)
  case (Cons b bs)
  define v where "v = u + ucast b"
  have "unat (ucast b :: ulong) = unat b" by (simp only: unat_eq_nat_uint uint_ucast_byte)
  moreover have l: "unat u + unat b < 512" using Cons.prems unat_byte_less [of b] by linarith
  ultimately have v: "unat v = unat u + unat b" unfolding v_def by (simp add: unat_word_ariths)
  have d: "unat (drop_bit 8 v) = unat v div 256"
    using uint_drop [of 8 v] by (simp only: unat_eq_nat_uint nat_div_distrib uint_ge_0) simp
  then have c: "unat (drop_bit 8 v) < 256" using v l by simp
  have w: "(ucast v :: byte) = word_of_nat (unat b + 256 * le_value bs + unat u)"
  proof -
    have e: "unat b + 256 * le_value bs + unat u = unat v + le_value bs * 256" by (simp add: v)
    show ?thesis unfolding e by (simp add: word_unat_eq_iff unat_of_nat unsigned_ucast_eq take_bit_eq_mod del: of_nat_add of_nat_mult)
  qed
  have q: "(unat b + 256 * le_value bs + unat u) div 256 = le_value bs + unat (drop_bit 8 v)" unfolding d v by simp
  have r: "[length a..<length a + length (b # bs)] = length a # [length (a @ [ucast v])..<length (a @ [ucast v]) + length bs]"
    by (simp add: upt_conv_Cons del: upt_Suc)
  have "foldl count_step (a @ b # bs, u) [length a..<length a + length (b # bs)] =
      foldl count_step ((a @ [ucast v]) @ bs, drop_bit 8 v) [length (a @ [ucast v])..<length (a @ [ucast v]) + length bs]"
    unfolding r by (simp add: v_def Let_def list_update_append nth_append)
  then show ?case
    using Cons.IH [OF c, of "a @ [ucast v]"] by (simp add: w q)
qed simp

lemma count_up_le_bytes: "length n = 8 \<Longrightarrow> count_up (n @ le_bytes 8 i) = n @ le_bytes 8 (Suc i)"
proof -
  assume n: "length n = 8"
  have "count_up (n @ le_bytes 8 i) = n @ le_bytes 8 (le_value (le_bytes 8 i) + 1)"
    using count_steps [of 1 n "le_bytes 8 i"] n by (simp add: count_up_def Let_def)
  also have "le_bytes 8 (le_value (le_bytes 8 i) + 1) = le_bytes 8 ((i mod 256 ^ 8 + 1) mod 256 ^ 8)"
    unfolding le_value_le_bytes le_bytes_mod ..
  also have "\<dots> = le_bytes 8 (Suc i)" unfolding mod_add_left_eq le_bytes_mod by simp
  finally show ?thesis .
qed

text \<open>The blocks.\<close>

lemma salsa20_hash_length [simp]: "length (salsa20_hash inp k c) = 64"
proof -
  have "length (rowround x) = 16" for x by (simp add: rowround_def Let_def split: prod.splits)
  then have "length ((doubleround ^^ 10) x) = 16" for x by (simp add: numeral_eq_Suc doubleround_def)
  then show ?thesis by (simp add: salsa20_hash_def Let_def length_concat o_def word_le_def salsa_state_def sum_list_triv)
qed

lemma xor_with_none: "n \<le> length x \<Longrightarrow> xor_with None x n = take n x"
  by (intro nth_equalityI) (simp_all add: xor_with_def)

lemma salsa_loop_stream:
  assumes "length n = 8" and "32 \<le> length k"
  shows "salsa_loop None b (n @ le_bytes 8 i) k =
    take b (concat (map (\<lambda>j. salsa20_hash (n @ le_bytes 8 j) k salsa_sigma) [i..<i + (b + 63) div 64]))"
proof (induction b arbitrary: i rule: less_induct)
  case (less b)
  have h: "crypto_core_salsa20 (n @ le_bytes 8 i) k salsa_sigma = salsa20_hash (n @ le_bytes 8 i) k salsa_sigma"
    using assms by (intro crypto_core_salsa20_hash) (simp_all add: salsa_sigma_def)
  consider "b = 0" | "0 < b" "b < 64" | "64 \<le> b" by linarith
  then show ?case
  proof cases
    case 1
    then show ?thesis by (simp add: salsa_loop.simps)
  next
    case 2
    then have "(b + 63) div 64 = 1" by simp
    then show ?thesis using 2 by (subst salsa_loop.simps) (simp add: h xor_with_none)
  next
    case 3
    then have "(b + 63) div 64 = Suc ((b - 64 + 63) div 64)" by simp
    then have "[i..<i + (b + 63) div 64] = i # [Suc i..<Suc i + (b - 64 + 63) div 64]" by (simp add: upt_conv_Cons)
    moreover have "salsa_loop None (b - 64) (n @ le_bytes 8 (Suc i)) k =
        take (b - 64) (concat (map (\<lambda>j. salsa20_hash (n @ le_bytes 8 j) k salsa_sigma) [Suc i..<Suc i + (b - 64 + 63) div 64]))"
      using 3 by (intro less) simp
    ultimately show ?thesis using 3 by (subst salsa_loop.simps) (simp add: h xor_with_none count_up_le_bytes [OF assms(1)])
  qed
qed

lemma le_bytes_0: "le_bytes n 0 = replicate n 0"
  by (induction n) simp_all

lemma hsalsa20_hash_length [simp]: "length (hsalsa20_hash n k c) = 32"
  by (simp add: hsalsa20_hash_def Let_def word_le_def)

lemma le_word_take: "4 * i + 4 \<le> n \<Longrightarrow> le_word (take n b) i = le_word b i"
  by (simp add: le_word_def drop_take min_def)

theorem crypto_stream_xsalsa20:
  assumes "length n = 24" and "32 \<le> length k"
  shows "crypto_stream d n k = xsalsa20_stream d n k"
proof -
  have "crypto_core_hsalsa20 n k salsa_sigma = hsalsa20_hash n k salsa_sigma"
    using assms by (intro crypto_core_hsalsa20_hash) (simp_all add: salsa_sigma_def)
  also have "\<dots> = hsalsa20_hash (take 16 n) k salsa_sigma"
    by (simp add: hsalsa20_hash_def salsa_state_def le_word_take)
  finally have k: "crypto_core_hsalsa20 n k salsa_sigma = hsalsa20_hash (take 16 n) k salsa_sigma" .
  have "crypto_stream d n k = salsa_loop None d (drop 16 n @ le_bytes 8 0) (hsalsa20_hash (take 16 n) k salsa_sigma)"
    using assms by (auto simp: crypto_stream_def crypto_stream_salsa20_def crypto_stream_salsa20_xor_def k le_bytes_0 salsa_loop.simps [of None 0])
  then show ?thesis
    using assms by (simp only: salsa_loop_stream length_drop hsalsa20_hash_length order.refl)
      (simp add: xsalsa20_stream_def salsa20_stream_def)
qed

section \<open>Streams\<close>

text \<open>Enciphering is exclusive or with the stream; a shorter stream is the start of a longer one.\<close>

lemma salsa_loop_length: "length (salsa_loop m b z k) = b"
proof (induction m b z k rule: salsa_loop.induct)
  case (1 m b z k)
  then show ?case by (subst salsa_loop.simps) (simp add: xor_with_def)
qed

lemma salsa_loop_xor:
  "b \<le> length m \<Longrightarrow> salsa_loop (Some m) b z k = map2 (XOR) (take b m) (salsa_loop None b z k)"
proof (induction b arbitrary: m z rule: less_induct)
  case (less b)
  have x: "xor_with (Some m) x n = map2 (XOR) (take n m) (xor_with None x n)" if "n \<le> length m" for x n
    using that by (intro nth_equalityI) (simp_all add: xor_with_def)
  have l: "length (xor_with m x n) = n" for m x n by (simp add: xor_with_def)
  show ?case
  proof (cases "64 \<le> b")
    case True
    have "take b m = take 64 m @ take (b - 64) (drop 64 m)" using True by (metis le_add_diff_inverse take_add)
    moreover have "salsa_loop (Some (drop 64 m)) (b - 64) (count_up z) k =
        map2 (XOR) (take (b - 64) (drop 64 m)) (salsa_loop None (b - 64) (count_up z) k)"
      using less True by simp
    ultimately show ?thesis
      using True less.prems x [of 64] by (subst (1 2) salsa_loop.simps) (simp add: l zip_append)
  next
    case False
    then show ?thesis using x [OF less.prems] by (subst (1 2) salsa_loop.simps) simp
  qed
qed

lemma crypto_stream_xor_xsalsa20:
  assumes "length n = 24" and "32 \<le> length k" and "d \<le> length m"
  shows "crypto_stream_xor m d n k = map2 (XOR) (take d m) (xsalsa20_stream d n k)"
  using salsa_loop_xor [OF assms(3)] crypto_stream_xsalsa20 [OF assms(1,2), of d]
  by (simp add: crypto_stream_xor_def crypto_stream_def crypto_stream_salsa20_def crypto_stream_salsa20_xor_def Let_def split: if_splits)

lemma xsalsa20_stream_length [simp]:
  "length n = 24 \<Longrightarrow> 32 \<le> length k \<Longrightarrow> length (xsalsa20_stream d n k) = d"
  by (simp add: crypto_stream_def crypto_stream_salsa20_def crypto_stream_salsa20_xor_def Let_def salsa_loop_length
      flip: crypto_stream_xsalsa20)

lemma xsalsa20_stream_prefix:
  assumes "e \<le> d"
  shows "take e (xsalsa20_stream d n k) = xsalsa20_stream e n k"
proof -
  have "(e + 63) div 64 \<le> (d + 63) div 64" using assms by (intro div_le_mono) simp
  then have u: "[0..<(d + 63) div 64] = [0..<(e + 63) div 64] @ [(e + 63) div 64..<(d + 63) div 64]"
    by (metis le0 le_add_diff_inverse upt_add_eq_append)
  have "length (concat (map (\<lambda>i. salsa20_hash (n @ le_bytes 8 i) k c) js)) = 64 * length js" for n k c js
    by (induction js) simp_all
  moreover have "e \<le> 64 * ((e + 63) div 64)" by simp
  ultimately show ?thesis using assms unfolding xsalsa20_stream_def salsa20_stream_def u by (simp add: min_def)
qed

section \<open>secretbox\<close>

text \<open>XSalsa20 with Poly1305: the first 32 bytes of the stream are the key of the authenticator,
  the rest enciphers. What is sent is the authenticator and the cipher text.\<close>

definition seal_box :: "bytes \<Rightarrow> bytes \<Rightarrow> bytes \<Rightarrow> bytes" where
  "seal_box k n msg =
    (let s = xsalsa20_stream (32 + length msg) n k; c = map2 (XOR) msg (drop 32 s)
     in rfc_poly1305 c (take 32 s) @ c)"

definition open_box :: "bytes \<Rightarrow> bytes \<Rightarrow> bytes \<Rightarrow> bytes option" where
  "open_box k n box =
    (let c = drop 16 box; s = xsalsa20_stream (32 + length c) n k
     in if take 16 box = rfc_poly1305 c (take 32 s) then Some (map2 (XOR) c (drop 32 s)) else None)"

lemma rfc_poly1305_length [simp]: "length (rfc_poly1305 m k) = 16"
  by (simp add: rfc_poly1305_def Let_def)

lemma rfc_poly1305_key: "rfc_poly1305 m (take 32 k) = rfc_poly1305 m k"
  by (simp add: rfc_poly1305_def Let_def drop_take)

lemma xor_xor: "length s = length msg \<Longrightarrow> map2 (XOR) (map2 (XOR) msg s) s = (msg :: bytes)"
  by (induction msg s rule: list_induct2') (simp_all add: xor.assoc)

lemma open_seal:
  assumes "length n = 24" and "32 \<le> length k"
  shows "open_box k n (seal_box k n msg) = Some msg"
  using assms by (simp add: open_box_def seal_box_def Let_def xor_xor)

lemma secretbox_seals:
  assumes "length n = 24" and "32 \<le> length k"
  shows "crypto_secretbox (replicate 32 0 @ msg) (32 + length msg) n k = Some (replicate 16 0 @ seal_box k n msg)"
proof -
  define s where "s = xsalsa20_stream (32 + length msg) n k"
  have s: "length s = 32 + length msg" using assms by (simp add: s_def)
  have z: "map2 (XOR) (replicate 32 0) (take 32 s) = take 32 s"
    using s by (intro nth_equalityI) simp_all
  have "map2 (XOR) (replicate 32 0 @ msg) s = map2 (XOR) (replicate 32 0 @ msg) (take 32 s @ drop 32 s)" by simp
  also have "\<dots> = take 32 s @ map2 (XOR) msg (drop 32 s)"
    using s z by (subst zip_append) simp_all
  finally have x: "crypto_stream_xor (replicate 32 0 @ msg) (32 + length msg) n k = take 32 s @ map2 (XOR) msg (drop 32 s)"
    using assms by (simp add: crypto_stream_xor_xsalsa20 s_def)
  have a: "crypto_onetimeauth c (take 32 s @ c') = rfc_poly1305 c (take 32 s)" for c c'
    using rfc_poly1305_key [of c "take 32 s @ c'"] s by (simp add: crypto_onetimeauth_rfc)
  show ?thesis
    unfolding crypto_secretbox_def x Let_def using s by (simp add: a seal_box_def Let_def flip: s_def)
qed

lemma vn_take: "vn (take m x) y n = vn x y n" if "n \<le> m"
proof -
  have "foldl (\<lambda>d i. d OR (ucast (take m x ! i XOR y ! i) :: word64)) 0 [0..<n] =
      foldl (\<lambda>d i. d OR ucast (x ! i XOR y ! i)) 0 [0..<n]"
    using that by (intro foldl_cong) auto
  then show ?thesis unfolding vn_def by (simp only:)
qed

lemma secretbox_opens:
  assumes "length n = 24" and "32 \<le> length k" and "length c = d" and "32 \<le> d"
  shows "crypto_secretbox_open c d n k = map_option (\<lambda>m. replicate 32 0 @ m) (open_box k n (drop 16 c))"
proof -
  define s where "s = xsalsa20_stream d n k"
  have s: "length s = d" using assms(1,2) by (simp add: s_def)
  have p: "crypto_stream 32 n k = take 32 s"
    using assms by (simp add: s_def crypto_stream_xsalsa20 xsalsa20_stream_prefix)
  have d: "32 + length (drop 16 (drop 16 c)) = d" using assms by simp
  have "crypto_stream_xor c d n k = map2 (XOR) c s" using assms by (simp add: crypto_stream_xor_xsalsa20 s_def)
  then have x: "drop 32 (crypto_stream_xor c d n k) = map2 (XOR) (drop 32 c) (drop 32 s)"
    by (simp add: drop_map drop_zip)
  have t: "take (d - 32) (drop 32 c) = drop 32 c" using assms by simp
  define a where "a = rfc_poly1305 (drop 32 c) (take 32 s)"
  have a: "crypto_onetimeauth (drop 32 c) (take 32 s) = a" using s assms(4) by (simp add: a_def crypto_onetimeauth_rfc)
  have v: "crypto_verify_16 (drop 16 c) a = (if take 16 (drop 16 c) = a then 0 else - 1)"
    using vn_equal [of "take 16 (drop 16 c)" 16 a] assms vn_take [of 16 16 "drop 16 c" a]
    by (simp add: crypto_verify_16_def a_def)
  show ?thesis
    unfolding crypto_secretbox_open_def crypto_onetimeauth_verify_def t p a v x
    unfolding open_box_def Let_def d s_def [symmetric] using assms(4) by (simp add: a_def)
qed

lemma secretbox_opens_any:
  assumes "length n = 24" and "length k = 32"
  shows "crypto_secretbox_open (replicate 16 0 @ box) (16 + length box) n k =
    (if length box < 16 then None else map_option (\<lambda>m. replicate 32 0 @ m) (open_box k n box))"
proof (cases "length box < 16")
  case True
  then show ?thesis by (simp add: crypto_secretbox_open_def)
next
  case False
  then show ?thesis using secretbox_opens [OF assms(1) _ refl, of k "replicate 16 0 @ box"] assms(2) by simp
qed

section \<open>box\<close>

text \<open>The key of a box is the hash of the point both sides agree on.\<close>

definition box_secret :: "bytes \<Rightarrow> bytes \<Rightarrow> bytes" where
  "box_secret x y = hsalsa20_hash (replicate 16 0)
     (le_bytes 32 (nat (rfc_x25519 (rfc_clamp (le_value x)) (le_value y mod 2 ^ 255)))) salsa_sigma"

lemma box_key:
  assumes "length x = 32" and "length y = 32"
  shows "crypto_box_beforenm y x = box_secret x y"
proof -
  have "crypto_scalarmult x y = le_bytes 32 (nat (rfc_x25519 (rfc_clamp (le_value x)) (le_value y mod 2 ^ 255)))"
    using crypto_scalarmult_rfc [OF assms] by (intro le_bytes_eq crypto_scalarmult_length) simp
  then show ?thesis
    unfolding crypto_box_beforenm_def box_secret_def
    by (simp only:) (intro crypto_core_hsalsa20_hash, simp_all add: salsa_sigma_def)
qed

lemma box_round_trip:
  assumes "length n = 24" and "crypto_box_beforenm y x = crypto_box_beforenm y' x'"
  shows "crypto_box (replicate 32 0 @ msg) (32 + length msg) n y x = Some (replicate 16 0 @ box) \<Longrightarrow>
    crypto_box_open (replicate 16 0 @ box) (32 + length msg) n y' x' = Some (replicate 32 0 @ msg)"
proof -
  define k where "k = crypto_box_beforenm y x"
  have k: "length k = 32" unfolding k_def crypto_box_beforenm_def
    by (subst crypto_core_hsalsa20_hash) (simp_all add: crypto_scalarmult_length salsa_sigma_def)
  assume "crypto_box (replicate 32 0 @ msg) (32 + length msg) n y x = Some (replicate 16 0 @ box)"
  then have b: "box = seal_box k n msg"
    using secretbox_seals [OF assms(1), of k msg] k by (simp add: crypto_box_def crypto_box_afternm_def k_def Let_def)
  then have "length (replicate 16 0 @ box) = 32 + length msg"
    using assms(1) k by (simp add: seal_box_def Let_def)
  from secretbox_opens [OF assms(1) _ this] show ?thesis
    using open_seal [OF assms(1), of k msg] k assms(2)
    by (simp add: crypto_box_open_def crypto_box_open_afternm_def b k_def Let_def)
qed

end
