(* ===== verification/Harness.thy ===== *)
theory Harness
  imports Program
begin

text \<open>
  conformance/microReticulum/dump.cpp: the harness that prints the lines of cmd/dump from what
  another implementation computes. That implementation, microReticulum, is not in the repository:
  it is the record \<open>rns\<close>, an argument of every definition, with one field for each of its functions
  and constants the harness uses. The types of its objects are parameters; a \<open>Bytes\<close> is the bytes
  it holds. A function of it returns or throws an exception, and what an exception says is \<open>Inl\<close>.

  A method that changes its object returns the changed object. The harness prints when it is done,
  from the vector \<open>out\<close>; the lines of a computation are that vector. What it and the library log goes
  to standard error and is not modelled. An exception is the stop value
  \<open>Fatal\<close> until \<open>main\<close> catches it. Indexing a vector beyond its end is \<open>Out_of_bounds\<close>.
\<close>

section \<open>The library\<close>

type_synonym 'a call = "string + 'a"

record advertisement =
  adv_t :: nat
  adv_d :: nat
  adv_n :: nat
  adv_h :: bytes
  adv_r :: bytes
  adv_o :: bytes
  adv_i :: nat
  adv_l :: nat
  adv_q :: bytes
  adv_f :: nat
  adv_m :: bytes

record ('i, 'p, 'k, 't) rns =
  rns_constant :: "string \<Rightarrow> nat"
  rns_to_hex :: "bytes \<Rightarrow> string"
  rns_assign_hex :: "string \<Rightarrow> bytes call"
  rns_left :: "bytes \<Rightarrow> nat \<Rightarrow> bytes"
  rns_mid :: "bytes \<Rightarrow> nat \<Rightarrow> bytes"
  rns_mid_len :: "bytes \<Rightarrow> nat \<Rightarrow> nat \<Rightarrow> bytes"
  rns_append :: "bytes \<Rightarrow> bytes \<Rightarrow> bytes"
  rns_identity :: 'i
  rns_load_public_key :: "'i \<Rightarrow> bytes \<Rightarrow> 'i call"
  rns_load_private_key :: "'i \<Rightarrow> bytes \<Rightarrow> 'i call"
  rns_get_public_key :: "'i \<Rightarrow> bytes call"
  rns_get_private_key :: "'i \<Rightarrow> bytes call"
  rns_hash :: "'i \<Rightarrow> bytes call"
  rns_validate :: "'i \<Rightarrow> bytes \<Rightarrow> bytes \<Rightarrow> bool call"
  rns_sign :: "'i \<Rightarrow> bytes \<Rightarrow> bytes call"
  rns_decrypt :: "'i \<Rightarrow> bytes \<Rightarrow> bytes call"
  rns_full_hash :: "bytes \<Rightarrow> bytes call"
  rns_truncated_hash :: "bytes \<Rightarrow> bytes call"
  rns_validate_announce :: "'p \<Rightarrow> bool call"
  rns_name_hash :: "bytes \<Rightarrow> bytes \<Rightarrow> bytes call"
  rns_packet :: "bytes \<Rightarrow> 'p call"
  rns_unpack :: "'p \<Rightarrow> (bool \<times> 'p) call"
  rns_data :: "'p \<Rightarrow> bytes"
  rns_destination_hash :: "'p \<Rightarrow> bytes"
  rns_transport_id :: "'p \<Rightarrow> bytes"
  rns_context :: "'p \<Rightarrow> byte"
  rns_get_hash :: "'p \<Rightarrow> bytes call"
  rns_private_key :: "bytes \<Rightarrow> 'k call"
  rns_public_bytes :: "'k \<Rightarrow> bytes call"
  rns_exchange :: "'k \<Rightarrow> bytes \<Rightarrow> bytes call"
  rns_hkdf :: "nat \<Rightarrow> bytes \<Rightarrow> bytes \<Rightarrow> bytes call"
  rns_token :: "bytes \<Rightarrow> 't call"
  rns_verify_hmac :: "'t \<Rightarrow> bytes \<Rightarrow> bool call"
  rns_token_decrypt :: "'t \<Rightarrow> bytes \<Rightarrow> bytes call"
  rns_mode_from_lr :: "'p \<Rightarrow> nat call"
  rns_mode_from_lp :: "'p \<Rightarrow> nat call"
  rns_mtu_from_lr :: "'p \<Rightarrow> nat call"
  rns_mtu_from_lp :: "'p \<Rightarrow> nat call"
  rns_link_id :: "'p \<Rightarrow> bytes call"
  rns_adv_unpack :: "bytes \<Rightarrow> advertisement call"

text \<open>Calling the library, and indexing the blobs.\<close>

definition call :: "'a call \<Rightarrow> 'a prog" where
  "call c = (case c of Inl what \<Rightarrow> halt (Fatal what) | Inr a \<Rightarrow> ret a)"

definition nth_blob :: "'a list \<Rightarrow> nat \<Rightarrow> 'a prog" where
  "nth_blob b i = (if i < length b then ret (b ! i) else halt Out_of_bounds)"

section \<open>Printing\<close>

definition header_minimum :: "('i, 'p, 'k, 't) rns \<Rightarrow> bytes \<Rightarrow> nat" where
  "header_minimum L raw =
    (if length raw = 0 then rns_constant L ''HEADER_MINSIZE''
     else if fl_header_type (raw ! 0) = 1 then rns_constant L ''HEADER_MAXSIZE''
     else rns_constant L ''HEADER_MINSIZE'')"

text \<open>\<open>f\<close> writes the line \<open>field\<close> does, with the same width.\<close>

definition micro_f :: "string \<Rightarrow> string \<Rightarrow> unit prog" where
  "micro_f name val = print [Field name val]"

definition c_str :: "string \<Rightarrow> string" where
  "c_str s = takeWhile (\<lambda>c. c \<noteq> NUL) s"

definition hexs :: "('i, 'p, 'k, 't) rns \<Rightarrow> bytes \<Rightarrow> string" where
  "hexs L b = (if length b \<noteq> 0 then c_str (rns_to_hex L b) else ''-'')"

definition micro_invalid :: "string \<Rightarrow> string \<Rightarrow> nat \<Rightarrow> string \<Rightarrow> nat \<Rightarrow> unit prog" where
  "micro_invalid reason k1 v1 k2 v2 = seq [micro_f ''invalid'' reason, micro_f k1 (dec v1), micro_f k2 (dec v2)]"

definition micro_dest_types :: "string list" where
  "micro_dest_types = [''single'', ''group'', ''plain'', ''link'']"

definition micro_packet_types :: "string list" where
  "micro_packet_types = [''data'', ''announce'', ''linkrequest'', ''proof'']"

definition micro_xport_types :: "string list" where
  "micro_xport_types = [''broadcast'', ''transport'', ''relay'', ''tunnel'']"

definition micro_contexts :: "(string \<times> string) list" where
  "micro_contexts =
    [(''CONTEXT_NONE'', ''none''), (''RESOURCE'', ''resource''), (''RESOURCE_ADV'', ''resource_adv''),
     (''RESOURCE_REQ'', ''resource_req''), (''RESOURCE_HMU'', ''resource_hmu''),
     (''RESOURCE_PRF'', ''resource_prf''), (''RESOURCE_ICL'', ''resource_icl''),
     (''RESOURCE_RCL'', ''resource_rcl''), (''REQUEST'', ''request''), (''RESPONSE'', ''response''),
     (''PATH_RESPONSE'', ''path_response''), (''CHANNEL'', ''channel''), (''KEEPALIVE'', ''keepalive''),
     (''LINKIDENTIFY'', ''link_identify''), (''LINKCLOSE'', ''link_close''), (''LINKPROOF'', ''link_proof''),
     (''LRRTT'', ''link_rtt''), (''LRPROOF'', ''link_request_proof'')]"

definition micro_context_name :: "('i, 'p, 'k, 't) rns \<Rightarrow> byte \<Rightarrow> string" where
  "micro_context_name L c =
    (case map_of (map (\<lambda>(k, n). (rns_constant L k, n)) micro_contexts) (unat c) of
       Some n \<Rightarrow> n | None \<Rightarrow> hex02 (unat c))"

definition micro_print_header :: "('i, 'p, 'k, 't) rns \<Rightarrow> 'p \<Rightarrow> bytes \<Rightarrow> unit prog" where
  "micro_print_header L p raw =
    andthen (load_byte raw 0) (\<lambda>flags. andthen (load_byte raw 1) (\<lambda>hops. seq
      [micro_f ''flags'' (hex02 (unat flags)),
       micro_f ''header_type'' (dec (fl_header_type flags + 1)),
       micro_f ''context_flag'' (if fl_context_flag flags \<noteq> 0 then ''set'' else ''unset''),
       field_table ''transport_type'' micro_xport_types (fl_transport_type flags),
       field_table ''destination_type'' micro_dest_types (fl_destination_type flags),
       field_table ''packet_type'' micro_packet_types (fl_packet_type flags),
       micro_f ''hops'' (dec (unat hops)),
       (if fl_header_type flags = 1 then micro_f ''transport_id'' (hexs L (rns_transport_id L p))
        else micro_f ''transport_id'' ''-''),
       micro_f ''destination_hash'' (hexs L (rns_destination_hash L p)),
       micro_f ''context'' (micro_context_name L (rns_context L p)),
       micro_f ''payload_length'' (dec (length (rns_data L p)))]))"

section \<open>Reading\<close>

text \<open>\<open>std::getline\<close> until the end of the file: the lines without their ends, of any length; nothing
  follows a last newline. A file that does not open has no line.\<close>

function getlines :: "string \<Rightarrow> string list" where
  "getlines s =
    (if s = [] then []
     else takeWhile (\<lambda>c. c \<noteq> newline) s #
       getlines (drop 1 (dropWhile (\<lambda>c. c \<noteq> newline) s)))"

  by pat_completeness auto

termination getlines
proof (relation "measure length")
  fix s :: string
  assume "s \<noteq> []"
  then have "0 < length s" by simp
  then have "length (drop 1 (dropWhile (\<lambda>c. c \<noteq> newline) s)) < length s"
    using length_dropWhile_le [of "\<lambda>c. c \<noteq> newline" s] unfolding length_drop by linarith
  then show "(drop 1 (dropWhile (\<lambda>c. c \<noteq> newline) s), s) \<in> measure length" by simp
qed simp

declare getlines.simps [simp del]

definition pop_eol :: "string \<Rightarrow> string" where
  "pop_eol s = rev (dropWhile (\<lambda>c. c = newline \<or> c = CR) (rev s))"

text \<open>Outside the \<open>try\<close> block: an exception here ends the program.\<close>

fun read_raw_lines :: "('i, 'p, 'k, 't) rns \<Rightarrow> string list \<Rightarrow> (bytes \<times> bool) list prog" where
  "read_raw_lines L [] = ret []"
| "read_raw_lines L (line # ls) =
    (let line = pop_eol line in
     if line = [] then read_raw_lines L ls
     else if line = ''-'' then andthen (read_raw_lines L ls) (\<lambda>bs. ret (([], True) # bs))
     else (case rns_assign_hex L (c_str line) of
         Inl what \<Rightarrow> abort
       | Inr b \<Rightarrow> andthen (read_raw_lines L ls) (\<lambda>bs. ret ((b, False) # bs))))"

definition read_raw :: "('i, 'p, 'k, 't) rns \<Rightarrow> string option \<Rightarrow> (bytes list \<times> bool list) prog" where
  "read_raw L file =
    andthen (read_raw_lines L (case file of None \<Rightarrow> [] | Some s \<Rightarrow> getlines s)) (\<lambda>bs.
      ret (map fst bs, map snd bs))"

section \<open>Kinds without a packet\<close>

definition kind_identity :: "('i, 'p, 'k, 't) rns \<Rightarrow> bytes list \<Rightarrow> unit prog" where
  "kind_identity L b =
    andthen (nth_blob b 0) (\<lambda>b0.
    andthen (call (rns_load_public_key L (rns_identity L) b0)) (\<lambda>id.
    andthen (call (rns_get_public_key L id)) (\<lambda>pub.
    andthen (seq
      [micro_f ''public_key'' (hexs L pub),
       micro_f ''x25519_public'' (hexs L (rns_left L pub 32)),
       micro_f ''ed25519_public'' (hexs L (rns_mid L pub 32))]) (\<lambda>_.
    andthen (call (rns_hash L id)) (\<lambda>h. micro_f ''identity_hash'' (hexs L h))))))"

definition kind_keyset :: "('i, 'p, 'k, 't) rns \<Rightarrow> bytes list \<Rightarrow> unit prog" where
  "kind_keyset L b =
    andthen (nth_blob b 0) (\<lambda>b0.
    andthen (call (rns_load_private_key L (rns_identity L) b0)) (\<lambda>id.
    andthen (call (rns_get_private_key L id)) (\<lambda>prv.
    andthen (call (rns_get_public_key L id)) (\<lambda>pub.
    andthen (seq
      [micro_f ''private_key'' (hexs L prv),
       micro_f ''x25519_private'' (hexs L (rns_left L prv 32)),
       micro_f ''ed25519_private'' (hexs L (rns_mid L prv 32)),
       micro_f ''public_key'' (hexs L pub),
       micro_f ''x25519_public'' (hexs L (rns_left L pub 32)),
       micro_f ''ed25519_public'' (hexs L (rns_mid L pub 32))]) (\<lambda>_.
    andthen (call (rns_hash L id)) (\<lambda>h. micro_f ''identity_hash'' (hexs L h)))))))"

text \<open>The loop over the aspects of a name: the rest of the name from \<open>start\<close> on.\<close>

function aspect_loop :: "('i, 'p, 'k, 't) rns \<Rightarrow> bytes \<Rightarrow> unit prog" where
  "aspect_loop L s =
    andthen (micro_f ''aspect'' (hexs L (takeWhile (\<lambda>c. c \<noteq> 0x2e) s))) (\<lambda>_.
      if dropWhile (\<lambda>c. c \<noteq> 0x2e) s = [] then ret ()
      else aspect_loop L (tl (dropWhile (\<lambda>c. c \<noteq> 0x2e) s)))"

  by pat_completeness auto

termination aspect_loop
proof (relation "measure (length \<circ> snd)")
  fix L :: "('i, 'p, 'k, 't) rns" and s :: bytes and u :: unit
  assume "dropWhile (\<lambda>c. c \<noteq> 0x2e) s \<noteq> []"
  then have "0 < length (dropWhile (\<lambda>c. c \<noteq> 0x2e) s)" by simp
  then have "length (tl (dropWhile (\<lambda>c. c \<noteq> 0x2e) s)) < length s"
    using length_dropWhile_le [of "\<lambda>c. c \<noteq> 0x2e" s] unfolding length_tl by linarith
  then show "((L, tl (dropWhile (\<lambda>c. c \<noteq> 0x2e) s)), L, s) \<in> measure (length \<circ> snd)" by simp
qed simp

declare aspect_loop.simps [simp del]

definition kind_destination :: "('i, 'p, 'k, 't) rns \<Rightarrow> bytes list \<Rightarrow> bool \<Rightarrow> unit prog" where
  "kind_destination L b no_identity =
    andthen (nth_blob b 0) (\<lambda>name.
    let app = takeWhile (\<lambda>c. c \<noteq> 0x2e) name;
        rest = dropWhile (\<lambda>c. c \<noteq> 0x2e) name;
        aspects = (if rest = [] then [] else tl rest)
    in andthen (call (rns_name_hash L (takeWhile (\<lambda>c. c \<noteq> 0) app)
         (if rest = [] then [] else takeWhile (\<lambda>c. c \<noteq> 0) aspects))) (\<lambda>nh.
    andthen (micro_f ''name'' (hexs L name)) (\<lambda>_.
    andthen (micro_f ''app_name'' (hexs L app)) (\<lambda>_.
    andthen (if rest \<noteq> [] then aspect_loop L aspects else ret ()) (\<lambda>_.
    andthen (micro_f ''name_hash'' (hexs L nh)) (\<lambda>_.
    andthen (if no_identity then andthen (micro_f ''identity_hash'' ''-'') (\<lambda>_. ret nh)
       else andthen (nth_blob b 1) (\<lambda>b1.
            andthen (micro_f ''identity_hash'' (hexs L b1)) (\<lambda>_. ret (rns_append L nh b1)))) (\<lambda>material.
    andthen (call (rns_truncated_hash L material)) (\<lambda>h.
      micro_f ''destination_hash'' (hexs L h)))))))))"

definition kind_signature :: "('i, 'p, 'k, 't) rns \<Rightarrow> bytes list \<Rightarrow> unit prog" where
  "kind_signature L b =
    andthen (nth_blob b 0) (\<lambda>b0.
    andthen (call (rns_load_public_key L (rns_identity L) b0)) (\<lambda>id.
    andthen (micro_f ''ed25519_public'' (hexs L (rns_mid L b0 32))) (\<lambda>_.
    andthen (nth_blob b 1) (\<lambda>b1.
    andthen (micro_f ''message_length'' (dec (length b1))) (\<lambda>_.
    andthen (call (rns_full_hash L b1)) (\<lambda>h.
    andthen (micro_f ''message_sha256'' (hexs L h)) (\<lambda>_.
    andthen (nth_blob b 2) (\<lambda>b2.
    andthen (micro_f ''signature'' (hexs L b2)) (\<lambda>_.
    andthen (call (rns_validate L id b2 b1)) (\<lambda>ok.
      micro_f ''valid'' (yesno ok)))))))))))"

definition kind_sign :: "('i, 'p, 'k, 't) rns \<Rightarrow> bytes list \<Rightarrow> unit prog" where
  "kind_sign L b =
    andthen (nth_blob b 0) (\<lambda>b0.
    andthen (call (rns_load_private_key L (rns_identity L) b0)) (\<lambda>id.
    andthen (nth_blob b 1) (\<lambda>b1.
    andthen (seq [micro_f ''private_key'' (hexs L b0), micro_f ''ed25519_private'' (hexs L (rns_mid L b0 32))]) (\<lambda>_.
    andthen (call (rns_get_public_key L id)) (\<lambda>pub.
    andthen (micro_f ''ed25519_public'' (hexs L (rns_mid L pub 32))) (\<lambda>_.
    andthen (micro_f ''message_length'' (dec (length b1))) (\<lambda>_.
    andthen (call (rns_full_hash L b1)) (\<lambda>h.
    andthen (micro_f ''message_sha256'' (hexs L h)) (\<lambda>_.
    andthen (call (rns_sign L id b1)) (\<lambda>sig.
      micro_f ''signature'' (hexs L sig)))))))))))"

section \<open>Kinds with a packet\<close>

text \<open>How every packet kind begins: \<open>None\<close> where it prints that the header is short and returns.\<close>

definition micro_short :: "('i, 'p, 'k, 't) rns \<Rightarrow> bytes \<Rightarrow> unit prog" where
  "micro_short L raw = micro_invalid ''short-header'' ''length'' (length raw) ''minimum_length'' (header_minimum L raw)"

definition micro_unpack :: "('i, 'p, 'k, 't) rns \<Rightarrow> bytes \<Rightarrow> 'p option prog" where
  "micro_unpack L raw =
    andthen (call (rns_packet L raw)) (\<lambda>p.
    andthen (call (rns_unpack L p)) (\<lambda>(ok, p).
      if ok then ret (Some p) else andthen (micro_short L raw) (\<lambda>_. ret None)))"

definition micro_open :: "('i, 'p, 'k, 't) rns \<Rightarrow> bytes \<Rightarrow> 'p option prog" where
  "micro_open L raw =
    (if length raw < 2 then andthen (micro_short L raw) (\<lambda>_. ret None) else micro_unpack L raw)"

text \<open>\<open>kind_announce\<close> after the packet is unpacked. The header is printed in place there, by the
  statements of \<open>print_header\<close>.\<close>

definition micro_announce :: "('i, 'p, 'k, 't) rns \<Rightarrow> bytes \<Rightarrow> 'p \<Rightarrow> unit prog" where
  "micro_announce L raw p =
    andthen (load_byte raw 0) (\<lambda>flags.
    let context_flag = fl_context_flag flags;
        payload = rns_data L p;
        minimum = 64 + 10 + 10 + 64 + (if context_flag \<noteq> 0 then 32 else 0)
    in if length payload < minimum then
         micro_invalid ''short-payload'' ''payload_length'' (length payload) ''minimum_length'' minimum
       else
         let at = 0;
             public_key = rns_mid_len L payload at 64; at = at + 64;
             name_hash = rns_mid_len L payload at 10; at = at + 10;
             random_hash = rns_mid_len L payload at 10; at = at + 10;
             (ratchet, at) = (if context_flag \<noteq> 0 then (rns_mid_len L payload at 32, at + 32) else ([], at));
             signature = rns_mid_len L payload at 64; at = at + 64;
             app_data = rns_mid L payload at
         in andthen (call (rns_truncated_hash L public_key)) (\<lambda>identity_hash.
            andthen (call (rns_truncated_hash L (rns_append L name_hash identity_hash))) (\<lambda>expected.
            let dest = rns_destination_hash L p;
                signed_data = foldl (rns_append L) [] ([dest, public_key, name_hash, random_hash] @
                  (if context_flag \<noteq> 0 then [ratchet] else []) @ [app_data])
            in andthen (seq
              [micro_print_header L p raw,
               micro_f ''public_key'' (hexs L public_key),
               micro_f ''name_hash'' (hexs L name_hash),
               micro_f ''random_hash'' (hexs L random_hash),
               micro_f ''ratchet'' (if context_flag \<noteq> 0 then hexs L ratchet else ''-''),
               micro_f ''signature'' (hexs L signature),
               micro_f ''app_data'' (if length app_data \<noteq> 0 then hexs L app_data else ''-''),
               micro_f ''identity_hash'' (hexs L identity_hash),
               micro_f ''expected_hash'' (hexs L expected),
               micro_f ''destination_match'' (yesno (dest = expected)),
               micro_f ''signed_data'' (hexs L signed_data)]) (\<lambda>_.
            andthen (call (rns_validate_announce L p)) (\<lambda>ok.
              micro_f ''signature_valid'' (yesno ok))))))"

definition kind_announce :: "('i, 'p, 'k, 't) rns \<Rightarrow> bytes list \<Rightarrow> unit prog" where
  "kind_announce L b =
    andthen (nth_blob b 0) (\<lambda>raw. andthen (micro_open L raw) (\<lambda>r.
      case r of None \<Rightarrow> ret () | Some p \<Rightarrow> micro_announce L raw p))"

text \<open>\<open>kind_encrypted\<close> after the packet is unpacked; \<open>size () - 48\<close> is of a payload of at least 80.\<close>

definition micro_encrypted :: "('i, 'p, 'k, 't) rns \<Rightarrow> bytes list \<Rightarrow> bool \<Rightarrow> bytes \<Rightarrow> bytes \<Rightarrow> 'p \<Rightarrow> unit prog" where
  "micro_encrypted L b no_ratchet priv raw p =
    (let payload = rns_data L p in
     if length payload < 32 + 48 then
       micro_invalid ''short-payload'' ''payload_length'' (length payload) ''minimum_length'' (32 + 48)
     else
       let ephemeral = rns_left L payload 32;
           token = rns_mid L payload 32;
           iv = rns_left L token 16;
           ct = rns_mid_len L token 16 (length token - 48);
           mac = rns_mid L token (length token - 32)
       in andthen (call (rns_load_private_key L (rns_identity L) priv)) (\<lambda>id.
          andthen (if no_ratchet then ret (rns_left L priv 32) else nth_blob b 1) (\<lambda>agree.
          andthen (if no_ratchet then ret [] else andthen (call (rns_private_key L agree)) (\<lambda>k.
              call (rns_public_bytes L k))) (\<lambda>ratchet_pub.
          andthen (call (rns_private_key L agree)) (\<lambda>k.
          andthen (call (rns_exchange L k ephemeral)) (\<lambda>shared.
          andthen (call (rns_hash L id)) (\<lambda>salt.
          andthen (call (rns_hkdf L (rns_constant L ''DERIVED_KEY_LENGTH'') shared salt)) (\<lambda>derived.
          let half = length derived div 2 in
          andthen (call (rns_token L derived)) (\<lambda>tok.
          andthen (call (rns_verify_hmac L tok token)) (\<lambda>hmac_ok.
          andthen (call (rns_decrypt L id payload)) (\<lambda>plaintext.
          andthen (seq
            [micro_print_header L p raw,
             micro_f ''ephemeral_public'' (hexs L ephemeral),
             micro_f ''iv'' (hexs L iv),
             micro_f ''ciphertext'' (hexs L ct),
             micro_f ''hmac'' (hexs L mac)]) (\<lambda>_.
          andthen (call (rns_hash L id)) (\<lambda>h. seq
            [micro_f ''identity_hash'' (hexs L h),
             micro_f ''ratchet_public'' (if no_ratchet then ''-'' else hexs L ratchet_pub),
             micro_f ''shared_key'' (hexs L shared),
             micro_f ''signing_key'' (hexs L (rns_left L derived half)),
             micro_f ''encryption_key'' (hexs L (rns_mid L derived half)),
             micro_f ''hmac_valid'' (yesno hmac_ok),
             (if \<not> hmac_ok then seq [micro_f ''plaintext_length'' ''-'', micro_f ''plaintext'' ''-'']
              else seq [micro_f ''plaintext_length'' (dec (length plaintext)),
                        micro_f ''plaintext'' (if length plaintext \<noteq> 0 then hexs L plaintext else ''-'')])])))))))))))))"

definition kind_encrypted :: "('i, 'p, 'k, 't) rns \<Rightarrow> bytes list \<Rightarrow> bool \<Rightarrow> unit prog" where
  "kind_encrypted L b no_ratchet =
    andthen (nth_blob b 0) (\<lambda>priv. andthen (nth_blob b 2) (\<lambda>raw.
    andthen (micro_f ''recipient_private'' (hexs L priv)) (\<lambda>_.
    andthen (if no_ratchet then micro_f ''ratchet_private'' ''-''
      else andthen (nth_blob b 1) (\<lambda>b1. micro_f ''ratchet_private'' (hexs L b1))) (\<lambda>_.
    andthen (micro_open L raw) (\<lambda>r.
      case r of None \<Rightarrow> ret () | Some p \<Rightarrow> micro_encrypted L b no_ratchet priv raw p)))))"

definition print_mode :: "('i, 'p, 'k, 't) rns \<Rightarrow> nat \<Rightarrow> unit prog" where
  "print_mode L mode =
    (if mode = rns_constant L ''MODE_AES256_CBC'' then micro_f ''mode'' ''aes256_cbc''
     else micro_f ''mode'' (hex02 mode))"

text \<open>The two lines after \<open>signalling\<close>, with the functions for a request or a proof.\<close>

definition micro_signalling :: "('i, 'p, 'k, 't) rns \<Rightarrow> nat call \<Rightarrow> nat call \<Rightarrow> bool \<Rightarrow> unit prog" where
  "micro_signalling L mode mtu signalled =
    andthen (call mode) (\<lambda>m. andthen (print_mode L m) (\<lambda>_.
      if signalled then andthen (call mtu) (\<lambda>n. micro_f ''mtu'' (dec n)) else micro_f ''mtu'' ''-''))"

definition micro_invalid_length :: "nat \<Rightarrow> nat \<Rightarrow> unit prog" where
  "micro_invalid_length len accepted =
    andthen (micro_invalid ''invalid-length'' ''payload_length'' len ''accepted_length'' accepted) (\<lambda>_.
      micro_f ''signalled_length'' (dec (accepted + SIGNALLEN)))"

definition kind_linkrequest :: "('i, 'p, 'k, 't) rns \<Rightarrow> bytes list \<Rightarrow> unit prog" where
  "kind_linkrequest L b =
    andthen (nth_blob b 0) (\<lambda>raw. andthen (micro_open L raw) (\<lambda>r. case r of None \<Rightarrow> ret () | Some p \<Rightarrow>
      let payload = rns_data L p; signalled = (length payload = ECPUBSIZE + SIGNALLEN)
      in if \<not> signalled \<and> length payload \<noteq> ECPUBSIZE then micro_invalid_length (length payload) ECPUBSIZE
         else andthen (seq
           [micro_print_header L p raw,
            micro_f ''x25519_public'' (hexs L (rns_left L payload 32)),
            micro_f ''ed25519_public'' (hexs L (rns_mid_len L payload 32 32)),
            micro_f ''signalling'' (if signalled then hexs L (rns_mid L payload ECPUBSIZE) else ''-''),
            micro_signalling L (rns_mode_from_lr L p) (rns_mtu_from_lr L p) signalled]) (\<lambda>_.
           andthen (call (rns_link_id L p)) (\<lambda>id. micro_f ''link_id'' (hexs L id)))))"

text \<open>The end of \<open>kind_proof\<close>, once with a key of the link and once with an identity.\<close>

definition micro_proof_verdict :: "('i, 'p, 'k, 't) rns \<Rightarrow> bytes \<Rightarrow> bytes \<Rightarrow> bytes \<Rightarrow> bytes \<Rightarrow> unit prog" where
  "micro_proof_verdict L key shown signature hash =
    andthen (seq
      [micro_f ''signature'' (hexs L signature),
       micro_f ''signer_ed25519'' (hexs L shown)]) (\<lambda>_.
    andthen (call (rns_load_public_key L (rns_identity L) key)) (\<lambda>signer.
    andthen (call (rns_validate L signer signature hash)) (\<lambda>ok.
      micro_f ''signature_valid'' (yesno ok))))"

definition micro_proof :: "('i, 'p, 'k, 't) rns \<Rightarrow> 'p \<Rightarrow> bytes \<Rightarrow> bytes \<Rightarrow> 'p \<Rightarrow> unit prog" where
  "micro_proof L proved signer_public raw p =
    andthen (micro_print_header L p raw) (\<lambda>_.
    andthen (call (rns_get_hash L proved)) (\<lambda>packet_hash.
    let payload = rns_data L p;
        explicit_form = (length payload = 96);
        signature = (if explicit_form then rns_mid L payload 32 else payload)
    in andthen (seq
      [micro_f ''form'' (if explicit_form then ''explicit'' else ''implicit''),
       micro_f ''packet_hash'' (hexs L packet_hash),
       micro_f ''proof_hash'' (if explicit_form then hexs L (rns_left L payload 32) else ''-''),
       micro_f ''hash_match'' (yesno (\<not> explicit_form \<or> rns_left L payload 32 = packet_hash))]) (\<lambda>_.
    andthen (load_byte raw 0) (\<lambda>flags.
      if fl_destination_type flags = 3 then
        andthen (seq
          [micro_f ''link_id'' (hexs L (rns_destination_hash L proved)),
           micro_f ''link_id_match'' (yesno (rns_destination_hash L p = rns_destination_hash L proved))]) (\<lambda>_.
        micro_proof_verdict L (rns_append L (replicate 32 0) signer_public) signer_public signature packet_hash)
      else
        andthen (seq
          [micro_f ''proof_destination'' (hexs L (rns_left L packet_hash 16)),
           micro_f ''destination_match'' (yesno (rns_destination_hash L p = rns_left L packet_hash 16))]) (\<lambda>_.
        micro_proof_verdict L signer_public (rns_mid L signer_public 32) signature packet_hash)))))"

definition kind_proof :: "('i, 'p, 'k, 't) rns \<Rightarrow> bytes list \<Rightarrow> unit prog" where
  "kind_proof L b =
    andthen (nth_blob b 0) (\<lambda>proved_raw. andthen (nth_blob b 1) (\<lambda>signer_public. andthen (nth_blob b 2) (\<lambda>raw.
    andthen (seq
      [micro_f ''proved_packet'' (hexs L proved_raw),
       micro_f ''signer_public'' (hexs L signer_public)]) (\<lambda>_.
    andthen (micro_unpack L proved_raw) (\<lambda>r. case r of None \<Rightarrow> ret () | Some proved \<Rightarrow>
    andthen (micro_unpack L raw) (\<lambda>r. case r of None \<Rightarrow> ret () | Some p \<Rightarrow>
      micro_proof L proved signer_public raw p))))))"

definition micro_linkproof :: "('i, 'p, 'k, 't) rns \<Rightarrow> bytes \<Rightarrow> bytes \<Rightarrow> bytes \<Rightarrow> 'p \<Rightarrow> unit prog" where
  "micro_linkproof L request_raw identity_public raw p =
    (let payload = rns_data L p; signalled = (length payload = 96 + SIGNALLEN) in
     if \<not> signalled \<and> length payload \<noteq> 96 then micro_invalid_length (length payload) 96
     else
       andthen (call (rns_packet L request_raw)) (\<lambda>request.
       andthen (call (rns_unpack L request)) (\<lambda>(_, request).
       andthen (call (rns_link_id L request)) (\<lambda>link_id.
       let signature = rns_left L payload 64;
           x25519_public = rns_mid_len L payload 64 32;
           signalling = (if signalled then rns_mid L payload 96 else []);
           signer_ed = rns_mid L identity_public 32;
           signed_data = foldl (rns_append L) [] [link_id, x25519_public, signer_ed, signalling]
       in andthen (call (rns_load_public_key L (rns_identity L) identity_public)) (\<lambda>signer.
          andthen (seq
            [micro_print_header L p raw,
             micro_f ''link_id'' (hexs L link_id),
             micro_f ''link_id_match'' (yesno (rns_destination_hash L p = link_id)),
             micro_f ''signature'' (hexs L signature),
             micro_f ''x25519_public'' (hexs L x25519_public),
             micro_f ''signalling'' (if signalled then hexs L signalling else ''-''),
             micro_signalling L (rns_mode_from_lp L p) (rns_mtu_from_lp L p) signalled,
             micro_f ''signer_ed25519'' (hexs L signer_ed),
             micro_f ''signed_data'' (hexs L signed_data)]) (\<lambda>_.
          andthen (call (rns_validate L signer signature signed_data)) (\<lambda>ok.
            micro_f ''signature_valid'' (yesno ok))))))))"

definition kind_linkproof :: "('i, 'p, 'k, 't) rns \<Rightarrow> bytes list \<Rightarrow> unit prog" where
  "kind_linkproof L b =
    andthen (nth_blob b 0) (\<lambda>request_raw. andthen (nth_blob b 1) (\<lambda>identity_public. andthen (nth_blob b 2) (\<lambda>raw.
    andthen (seq
      [micro_f ''link_request'' (hexs L request_raw),
       micro_f ''signer_public'' (hexs L identity_public)]) (\<lambda>_.
    andthen (micro_open L raw) (\<lambda>r. case r of None \<Rightarrow> ret () | Some p \<Rightarrow>
      micro_linkproof L request_raw identity_public raw p)))))"

text \<open>The last part of \<open>kind_linkdata\<close>: what a context has behind the token. The library decodes
  an advertisement only; the fields of the others are dashes.\<close>

definition absent_fields :: "string list \<Rightarrow> unit prog" where
  "absent_fields names = seq (map (\<lambda>name. micro_f name ''-'') names)"

definition micro_advertisement :: "('i, 'p, 'k, 't) rns \<Rightarrow> advertisement \<Rightarrow> unit prog" where
  "micro_advertisement L adv = seq
    [micro_f ''transfer_size'' (dec (adv_t adv)), micro_f ''data_size'' (dec (adv_d adv)),
     micro_f ''resource_parts'' (dec (adv_n adv)), micro_f ''resource_hash'' (hexs L (adv_h adv)),
     micro_f ''resource_random'' (hexs L (adv_r adv)), micro_f ''original_hash'' (hexs L (adv_o adv)),
     micro_f ''segment_index'' (dec (adv_i adv)), micro_f ''total_segments'' (dec (adv_l adv)),
     micro_f ''request_id'' (hexs L (adv_q adv)), micro_f ''resource_flags'' (hex02 (adv_f adv)),
     micro_f ''hashmap'' (hexs L (adv_m adv))]"

definition micro_identify :: "('i, 'p, 'k, 't) rns \<Rightarrow> bytes \<Rightarrow> bytes \<Rightarrow> unit prog" where
  "micro_identify L lid plaintext =
    (let pub = rns_left L plaintext 64;
         sig = rns_mid L plaintext 64;
         signed_data = foldl (rns_append L) [] [lid, pub]
     in andthen (call (rns_load_public_key L (rns_identity L) pub)) (\<lambda>id.
        andthen (micro_f ''identity_public'' (hexs L pub)) (\<lambda>_.
        andthen (call (rns_hash L id)) (\<lambda>h.
        andthen (seq [micro_f ''identity_hash'' (hexs L h), micro_f ''identity_signed'' (hexs L signed_data)]) (\<lambda>_.
        andthen (call (rns_validate L id sig signed_data)) (\<lambda>ok.
          micro_f ''identity_valid'' (yesno ok)))))))"

definition micro_contents :: "('i, 'p, 'k, 't) rns \<Rightarrow> nat \<Rightarrow> bytes \<Rightarrow> bytes \<Rightarrow> unit prog" where
  "micro_contents L context lid plaintext = seq
    [if context = 0x0e \<and> length plaintext \<ge> 6 then
       absent_fields [''msgtype'', ''sequence'', ''declared_length'', ''message''] else ret (),
     if context = rns_constant L ''RESOURCE_ADV'' then
       andthen (call (rns_adv_unpack L plaintext)) (\<lambda>adv. micro_advertisement L adv) else ret (),
     if context = rns_constant L ''RESOURCE_REQ'' then
       absent_fields [''hashmap_exhausted'', ''last_map_hash'', ''resource_hash'', ''requested_hashes''] else ret (),
     if context = rns_constant L ''RESOURCE_HMU'' then
       absent_fields [''resource_hash'', ''segment_index'', ''hashmap''] else ret (),
     if context = rns_constant L ''RESOURCE_ICL'' \<or> context = rns_constant L ''RESOURCE_RCL'' then
       absent_fields [''resource_hash''] else ret (),
     if context = rns_constant L ''REQUEST'' then
       absent_fields [''request_time'', ''request_path_hash'', ''request_data''] else ret (),
     if context = rns_constant L ''RESPONSE'' then absent_fields [''request_id'', ''response_data''] else ret (),
     if context = rns_constant L ''LINKIDENTIFY'' \<and> length plaintext = 128 then
       micro_identify L lid plaintext else ret ()]"

definition micro_sealed :: "('i, 'p, 'k, 't) rns \<Rightarrow> 'p \<Rightarrow> bytes \<Rightarrow> bytes \<Rightarrow> 'p \<Rightarrow> unit prog" where
  "micro_sealed L request lid responder_private p =
    (let payload = rns_data L p;
         have_token = (length payload \<ge> 48);
         iv = (if have_token then rns_left L payload 16 else []);
         ct = (if have_token then rns_mid_len L payload 16 (length payload - 48) else []);
         mac = (if have_token then rns_mid L payload (length payload - 32) else [])
     in andthen (call (rns_private_key L responder_private)) (\<lambda>k.
        andthen (call (rns_exchange L k (rns_left L (rns_data L request) 32))) (\<lambda>shared.
        andthen (call (rns_hkdf L 64 shared lid)) (\<lambda>derived.
        let half = length derived div 2 in
        andthen (call (rns_token L derived)) (\<lambda>tok.
        andthen (call (rns_verify_hmac L tok payload)) (\<lambda>hmac_ok.
        andthen (if hmac_ok then call (rns_token_decrypt L tok payload) else ret []) (\<lambda>plaintext.
        andthen (seq
          [micro_f ''iv'' (hexs L iv), micro_f ''ciphertext'' (hexs L ct), micro_f ''hmac'' (hexs L mac),
           micro_f ''shared_key'' (hexs L shared),
           micro_f ''signing_key'' (hexs L (rns_left L derived half)),
           micro_f ''encryption_key'' (hexs L (rns_mid L derived half)),
           micro_f ''hmac_valid'' (yesno hmac_ok)]) (\<lambda>_.
        if \<not> hmac_ok then seq [micro_f ''plaintext_length'' ''-'', micro_f ''plaintext'' ''-'']
        else andthen (seq
          [micro_f ''plaintext_length'' (dec (length plaintext)),
           micro_f ''plaintext'' (if length plaintext \<noteq> 0 then hexs L plaintext else ''-'')]) (\<lambda>_.
          micro_contents L (unat (rns_context L p)) lid plaintext)))))))))"

definition kind_linkdata :: "('i, 'p, 'k, 't) rns \<Rightarrow> bytes list \<Rightarrow> unit prog" where
  "kind_linkdata L b =
    andthen (nth_blob b 0) (\<lambda>request_raw. andthen (nth_blob b 1) (\<lambda>responder_private. andthen (nth_blob b 2) (\<lambda>raw.
    andthen (seq
      [micro_f ''link_request'' (hexs L request_raw),
       micro_f ''responder_private'' (hexs L responder_private)]) (\<lambda>_.
    andthen (micro_open L raw) (\<lambda>r. case r of None \<Rightarrow> ret () | Some p \<Rightarrow>
    andthen (call (rns_packet L request_raw)) (\<lambda>request.
    andthen (call (rns_unpack L request)) (\<lambda>(_, request).
    andthen (call (rns_link_id L request)) (\<lambda>link_id.
    andthen (seq
      [micro_print_header L p raw,
       micro_f ''link_id'' (hexs L link_id),
       micro_f ''link_id_match'' (yesno (rns_destination_hash L p = link_id))]) (\<lambda>_.
      if unat (rns_context L p) = rns_constant L ''RESOURCE'' \<or> unat (rns_context L p) = rns_constant L ''KEEPALIVE'' then
        seq [micro_f ''encrypted'' ''no'',
             micro_f ''plaintext_length'' (dec (length (rns_data L p))),
             micro_f ''plaintext'' (if length (rns_data L p) \<noteq> 0 then hexs L (rns_data L p) else ''-'')]
      else andthen (micro_f ''encrypted'' ''yes'') (\<lambda>_.
        micro_sealed L request link_id responder_private p))))))))))"

section \<open>main\<close>

definition micro_kinds :: "('i, 'p, 'k, 't) rns \<Rightarrow> (string \<times> (bytes list \<Rightarrow> bool list \<Rightarrow> unit prog)) list" where
  "micro_kinds L =
    [(''identity'', \<lambda>b a. kind_identity L b),
     (''keyset'', \<lambda>b a. kind_keyset L b),
     (''destination'', \<lambda>b a. andthen (nth_blob a 1) (kind_destination L b)),
     (''signature'', \<lambda>b a. kind_signature L b),
     (''sign'', \<lambda>b a. kind_sign L b),
     (''announce'', \<lambda>b a. kind_announce L b),
     (''encrypted'', \<lambda>b a. andthen (nth_blob a 1) (kind_encrypted L b)),
     (''linkrequest'', \<lambda>b a. kind_linkrequest L b),
     (''linkproof'', \<lambda>b a. kind_linkproof L b),
     (''linkdata'', \<lambda>b a. kind_linkdata L b),
     (''proof'', \<lambda>b a. kind_proof L b)]"

text \<open>The \<open>catch\<close> block: an exception clears \<open>out\<close> and its text is the one line printed.\<close>

definition catch :: "unit prog \<Rightarrow> unit prog" where
  "catch m = (case snd m of
     Inl s \<Rightarrow> (case s of Fatal what \<Rightarrow> micro_f ''error'' what | Abort \<Rightarrow> abort
                | Out_of_bounds \<Rightarrow> halt Out_of_bounds)
   | Inr _ \<Rightarrow> m)"

definition micro_main :: "('i, 'p, 'k, 't) rns \<Rightarrow> string list \<Rightarrow> (string \<Rightarrow> string option) \<Rightarrow> nat prog" where
  "micro_main L argv fs =
    (if length argv \<noteq> 3 then ret 2
     else andthen (read_raw L (fs (argv ! 2))) (\<lambda>(blobs, absent).
       case map_of (micro_kinds L) (argv ! 1) of
         None \<Rightarrow> ret 77
       | Some kind \<Rightarrow> andthen (catch (kind blobs absent)) (\<lambda>_. ret 0)))"

end
