(* ===== verification/Harness_Laws.thy ===== *)
theory Harness_Laws
  imports Harness
begin

text \<open>
  What the harness relies on: the functions of the library, as Reticulum documents them, are laws of
  three locales over the record \<open>rns\<close>, for byte strings, for keys and for packets. They are stated
  with the functions of cmd/dump, which other theories show to be the standards. Inside the locales
  the kinds without a packet, and the header, print what \<open>dump\<close> prints.
\<close>

section \<open>What the harness relies on\<close>

text \<open>The library as Reticulum documents it, in three layers. First its byte strings.\<close>

locale rns_bytes =
  fixes L :: "('i, 'p, 'k, 't) rns"
  assumes to_hex: "rns_to_hex L b = hex_bytes b"
    and assign_hex: "rns_assign_hex L (hex_bytes b) = Inr b"
    and left: "rns_left L b n = take n b"
    and mid: "rns_mid L b i = drop i b"
    and mid_len: "rns_mid_len L b i n = take n (drop i b)"
    and append: "rns_append L a b = a @ b"

text \<open>Then keys: an identity that holds the public key \<open>k\<close>, or the private key \<open>k\<close>.\<close>

definition public_identity :: "('i, 'p, 'k, 't) rns \<Rightarrow> bytes \<Rightarrow> 'i \<Rightarrow> bool" where
  "public_identity L k who \<longleftrightarrow>
     rns_get_public_key L who = Inr k \<and> rns_hash L who = Inr (truncated_hash k 16) \<and>
     (\<forall>sig msg. length sig = 64 \<longrightarrow> rns_validate L who sig msg = Inr (ed_valid (drop 32 k) sig msg))"

text \<open>Decrypting with a private key: the plaintext of a packet that opens, anything otherwise.\<close>

definition recipient_key :: "bytes \<Rightarrow> bytes \<Rightarrow> bytes option" where
  "recipient_key k pl = agreement (take 32 k) (take 32 pl) (truncated_hash (keyset_public k) 16)"

definition private_identity :: "('i, 'p, 'k, 't) rns \<Rightarrow> bytes \<Rightarrow> 'i \<Rightarrow> bool" where
  "private_identity L k who \<longleftrightarrow>
     rns_get_private_key L who = Inr k \<and> rns_get_public_key L who = Inr (keyset_public k) \<and>
     rns_hash L who = Inr (truncated_hash (keyset_public k) 16) \<and>
     (\<forall>msg. rns_sign L who msg = Inr (ed_signature (drop 32 k) msg)) \<and>
     (\<forall>pl. 80 \<le> length pl \<longrightarrow> (\<exists>m. rns_decrypt L who pl = Inr m \<and>
        (\<forall>key m'. recipient_key k pl = Some key \<longrightarrow> tok.unseal key (drop 32 pl) = Some m' \<longrightarrow> m = m')))"

locale rns_keys = rns_bytes L for L :: "('i, 'p, 'k, 't) rns" +
  assumes load_public: "length k = 64 \<Longrightarrow>
      \<exists>who. rns_load_public_key L (rns_identity L) k = Inr who \<and> public_identity L k who"
    and load_private: "length k = 64 \<Longrightarrow>
      \<exists>who. rns_load_private_key L (rns_identity L) k = Inr who \<and> private_identity L k who"
    and full_hash: "rns_full_hash L m = Inr (sha256 m)"
    and short_hash: "rns_truncated_hash L m = Inr (truncated_hash m 16)"
    and name_hash: "0x2e \<notin> set app \<Longrightarrow> rns_name_hash L app aspects =
      Inr (truncated_hash (app @ (if aspects = [] then [] else 0x2e # aspects)) 10)"
    and exchange: "length s = 32 \<Longrightarrow> \<exists>k. rns_private_key L s = Inr k \<and>
      (\<forall>peer. length peer = 32 \<longrightarrow> crypto_scalarmult s peer \<noteq> replicate 32 0 \<longrightarrow>
        rns_exchange L k peer = Inr (crypto_scalarmult s peer))"
    and key_length: "rns_constant L ''DERIVED_KEY_LENGTH'' = 64"
    and derive: "s \<noteq> [] \<Longrightarrow> rns_hkdf L 64 s salt = Inr (hkdf s salt 64)"
    and token: "length k = 64 \<Longrightarrow> \<exists>t. rns_token L k = Inr t \<and>
      (\<forall>bs. 48 \<le> length bs \<longrightarrow> rns_verify_hmac L t bs = Inr (token_valid k bs)) \<and>
      (\<forall>bs m. tok.unseal k bs = Some m \<longrightarrow> rns_token_decrypt L t bs = Inr m)"

text \<open>Last packets: an object that holds the packet \<open>p\<close>.\<close>

definition mode_of :: "bytes \<Rightarrow> nat" where
  "mode_of s = (if s = [] then 1 else signalling_value s div 2 ^ 21)"

definition packet_object :: "('i, 'p, 'k, 't) rns \<Rightarrow> packet \<Rightarrow> 'p \<Rightarrow> bool" where
  "packet_object L p q \<longleftrightarrow>
     rns_data L q = p_payload p \<and> rns_destination_hash L q = p_destination p \<and>
     rns_transport_id L q = p_transport p \<and> rns_context L q = p_context p \<and>
     rns_get_hash L q = Inr (packet_hash p) \<and> rns_link_id L q = Inr (link_id p) \<and>
     (length (p_payload p) = 64 \<or> length (p_payload p) = 67 \<longrightarrow>
        rns_mode_from_lr L q = Inr (mode_of (drop 64 (p_payload p)))) \<and>
     (length (p_payload p) = 67 \<longrightarrow>
        rns_mtu_from_lr L q = Inr (signalling_value (drop 64 (p_payload p)) mod 2 ^ 21)) \<and>
     (length (p_payload p) = 96 \<or> length (p_payload p) = 99 \<longrightarrow>
        rns_mode_from_lp L q = Inr (mode_of (drop 96 (p_payload p)))) \<and>
     (length (p_payload p) = 99 \<longrightarrow>
        rns_mtu_from_lp L q = Inr (signalling_value (drop 96 (p_payload p)) mod 2 ^ 21)) \<and>
     (\<forall>a. decode_announcement (fl_context_flag (p_flags p)) (p_payload p) = Inr a \<longrightarrow>
        rns_validate_announce L q = Inr (ed_valid (drop 32 (an_public_key a)) (an_signature a)
          (signed_part (p_destination p) a)))"

text \<open>The header sizes without and with a transport id; a header that is cut short does not unpack.\<close>

locale rns_packets = rns_keys L for L :: "('i, 'p, 'k, 't) rns" +
  assumes header_sizes: "rns_constant L ''HEADER_MINSIZE'' = 19" "rns_constant L ''HEADER_MAXSIZE'' = 35"
    and cipher_mode: "rns_constant L ''MODE_AES256_CBC'' = 1"
    and context_constants: "map (rns_constant L)
      [''CONTEXT_NONE'', ''RESOURCE'', ''RESOURCE_ADV'', ''RESOURCE_REQ'', ''RESOURCE_HMU'', ''RESOURCE_PRF'',
       ''RESOURCE_ICL'', ''RESOURCE_RCL'', ''REQUEST'', ''RESPONSE'', ''PATH_RESPONSE'', ''CHANNEL'',
       ''KEEPALIVE'', ''LINKIDENTIFY'', ''LINKCLOSE'', ''LINKPROOF'', ''LRRTT'', ''LRPROOF''] =
      [0x00, 0x01, 0x02, 0x03, 0x04, 0x05, 0x06, 0x07, 0x09, 0x0a, 0x0b, 0x0e, 0xfa, 0xfb, 0xfc, 0xfd, 0xfe, 0xff]"
    and unpack: "decode_packet raw = Inr p \<Longrightarrow>
      \<exists>q q'. rns_packet L raw = Inr q \<and> rns_unpack L q = Inr (True, q') \<and> packet_object L p q'"
    and unpack_short: "2 \<le> length raw \<Longrightarrow> length raw < 19 + 16 * fl_header_type (raw ! 0) \<Longrightarrow>
      \<exists>q q'. rns_packet L raw = Inr q \<and> rns_unpack L q = Inr (False, q')"

text \<open>A name the harness hands on unchanged: no zero byte, which would end a C string, and no empty
  rest after the first dot, which it takes for no rest.\<close>

definition harness_name :: "bytes \<Rightarrow> bool" where
  "harness_name name \<longleftrightarrow> 0 \<notin> set name \<and> dropWhile (\<lambda>c. c \<noteq> 0x2e) name \<noteq> [0x2e]"

section \<open>The same lines\<close>

lemma micro_f_print [simp, prog_simps]: "micro_f name val = print [Field name val]"
  by (simp add: micro_f_def)

lemma call_ret [simp, prog_simps]: "call (Inr a) = ret a"
  by (simp add: call_def)

lemma nth_blob_ok [simp, prog_simps]: "i < length b \<Longrightarrow> nth_blob b i = ret (b ! i)"
  by (simp add: nth_blob_def)

context rns_bytes
begin

lemmas slices = left mid mid_len append

lemma hexs_value [simp]: "hexs L b = hex_value b"
proof -
  have "c_str (hex_bytes b) = hex_bytes b"
    using hex_bytes_plain(1) [of b] by (auto simp: c_str_def plain_text_def intro!: takeWhile_eq_all_conv [THEN iffD2])
  then show ?thesis by (simp add: hexs_def hex_value_def to_hex)
qed

end

context rns_keys
begin

lemma identity_same: "length k = 64 \<Longrightarrow> kind_identity L [k] = print (identity_fields k)"
proof -
  assume k: "length k = 64"
  obtain who where who: "rns_load_public_key L (rns_identity L) k = Inr who" "public_identity L k who"
    using load_public [OF k] by blast
  then show ?thesis
    using k by (simp add: kind_identity_def public_identity_def identity_fields_def slices hex_value_length)
qed

lemma keyset_same: "length k = 64 \<Longrightarrow> kind_keyset L [k] = print (keyset_fields k)"
proof -
  assume k: "length k = 64"
  obtain who where who: "rns_load_private_key L (rns_identity L) k = Inr who" "private_identity L k who"
    using load_private [OF k] by blast
  then show ?thesis
    using k by (simp add: kind_keyset_def private_identity_def keyset_fields_def identity_fields_def slices hex_value_length)
qed

lemma signature_same:
  assumes "length k = 64" and "length sig = 64"
  shows "kind_signature L [k, msg, sig] = print (signature_fields k msg sig)"
proof -
  obtain who where who: "rns_load_public_key L (rns_identity L) k = Inr who" "public_identity L k who"
    using load_public [OF assms(1)] by blast
  then show ?thesis
    using assms by (simp add: kind_signature_def public_identity_def signature_fields_def slices full_hash hex_value_length)
qed

lemma sign_same: "length k = 64 \<Longrightarrow> kind_sign L [k, msg] = print (sign_fields k msg)"
proof -
  assume k: "length k = 64"
  obtain who where who: "rns_load_private_key L (rns_identity L) k = Inr who" "private_identity L k who"
    using load_private [OF k] by blast
  then show ?thesis
    using k by (simp add: kind_sign_def private_identity_def sign_fields_def keyset_public_def slices full_hash hex_value_length)
qed

end

lemma split_on_first:
  "split_on c xs = takeWhile (\<lambda>x. x \<noteq> c) xs #
     (if dropWhile (\<lambda>x. x \<noteq> c) xs = [] then [] else split_on c (tl (dropWhile (\<lambda>x. x \<noteq> c) xs)))"
  by (induction xs) auto

lemma takeWhile_all: "c \<notin> set xs \<Longrightarrow> takeWhile (\<lambda>x. x \<noteq> c) xs = xs"
  by (induction xs) auto

context rns_keys
begin

lemma aspect_loop_print: "aspect_loop L s = print (map (\<lambda>c. Field ''aspect'' (hex_value c)) (split_on 0x2e s))"
proof (induction s rule: length_induct)
  case (1 s)
  let ?d = "dropWhile (\<lambda>c. c \<noteq> 0x2e) s"
  show ?case
  proof (cases "?d = []")
    case True
    then show ?thesis by (subst aspect_loop.simps, subst split_on_first) simp
  next
    case False
    then have "0 < length ?d" by (simp only: length_greater_0_conv simp_thms)
    then have "length (tl ?d) < length s"
      using length_dropWhile_le [of "\<lambda>c. c \<noteq> 0x2e" s] unfolding length_tl by linarith
    then have "aspect_loop L (tl ?d) = print (map (\<lambda>c. Field ''aspect'' (hex_value c)) (split_on 0x2e (tl ?d)))"
      using 1 by blast
    then show ?thesis
      using False by (subst aspect_loop.simps, subst split_on_first) (simp del: dropWhile_eq_Nil_conv)
  qed
qed

lemma destination_same:
  assumes "harness_name name" and "no_identity \<Longrightarrow> who = []" and "\<not> no_identity \<Longrightarrow> length who = 16"
  shows "kind_destination L [name, who] no_identity = print (destination_fields name who)"
proof -
  define app where "app = takeWhile (\<lambda>c. c \<noteq> 0x2e) name"
  define rest where "rest = dropWhile (\<lambda>c. c \<noteq> 0x2e) name"
  have name: "name = app @ rest" by (simp add: app_def rest_def)
  have zero: "0 \<notin> set app" "0 \<notin> set rest" using assms(1) unfolding harness_name_def name by auto
  have r: "rest = [] \<or> (\<exists>as. rest = 0x2e # as \<and> as \<noteq> [])"
  proof (cases rest)
    case (Cons c as)
    then have "c = 0x2e" using hd_dropWhile [of "\<lambda>c. c \<noteq> 0x2e" name] by (simp add: rest_def)
    then show ?thesis using Cons assms(1) by (auto simp: harness_name_def rest_def)
  qed simp
  have dot: "0x2e \<notin> set app" unfolding app_def by (auto dest: set_takeWhileD)
  have nh: "rns_name_hash L (takeWhile (\<lambda>c. c \<noteq> 0) app)
      (if rest = [] then [] else takeWhile (\<lambda>c. c \<noteq> 0) (if rest = [] then [] else tl rest)) = Inr (truncated_hash name 10)"
  proof -
    have a: "takeWhile (\<lambda>c. c \<noteq> 0) app = app" "takeWhile (\<lambda>c. c \<noteq> 0) (tl rest) = tl rest"
      using r zero by (auto intro!: takeWhile_all)
    show ?thesis
    proof (cases "rest = []")
      case True
      then show ?thesis unfolding a using name_hash [OF dot, of "[]"] by (simp add: name)
    next
      case False
      then obtain as where "rest = 0x2e # as" "as \<noteq> []" using r by blast
      then show ?thesis unfolding if_not_P [OF False] a using name_hash [OF dot, of as] by (simp add: name)
    qed
  qed
  have fields: "name_fields name = Field ''app_name'' (hex_value app) #
      (if rest = [] then [] else map (\<lambda>c. Field ''aspect'' (hex_value c)) (split_on 0x2e (tl rest)))"
    unfolding name_fields_def by (subst split_on_first) (simp add: component_fields_def flip: app_def rest_def)
  show ?thesis
    using assms(2,3) nh
    unfolding kind_destination_def
    by (cases no_identity; cases "rest = []")
       (simp_all add: Let_def destination_fields_def fields dest_hash_of_def aspect_loop_print append short_hash
         hex_value_length hex_value_def [of "[]"] andthen_assoc del: dropWhile_eq_Nil_conv flip: app_def rest_def)
qed

end

context rns_packets
begin

lemma constants [simp]:
  "rns_constant L ''CONTEXT_NONE'' = 0x00" "rns_constant L ''RESOURCE'' = 0x01" "rns_constant L ''RESOURCE_ADV'' = 0x02"
  "rns_constant L ''RESOURCE_REQ'' = 0x03" "rns_constant L ''RESOURCE_HMU'' = 0x04" "rns_constant L ''RESOURCE_PRF'' = 0x05"
  "rns_constant L ''RESOURCE_ICL'' = 0x06" "rns_constant L ''RESOURCE_RCL'' = 0x07" "rns_constant L ''REQUEST'' = 0x09"
  "rns_constant L ''RESPONSE'' = 0x0a" "rns_constant L ''PATH_RESPONSE'' = 0x0b" "rns_constant L ''CHANNEL'' = 0x0e"
  "rns_constant L ''KEEPALIVE'' = 0xfa" "rns_constant L ''LINKIDENTIFY'' = 0xfb" "rns_constant L ''LINKCLOSE'' = 0xfc"
  "rns_constant L ''LINKPROOF'' = 0xfd" "rns_constant L ''LRRTT'' = 0xfe" "rns_constant L ''LRPROOF'' = 0xff"
  using context_constants by simp_all

lemma context_same: "micro_context_name L c = context_text c"
proof -
  have "map (\<lambda>(k, n). (rns_constant L k, n)) micro_contexts = contexts"
    by (simp add: micro_contexts_def contexts_def)
  then show ?thesis by (simp add: micro_context_name_def context_text_def context_name_def)
qed

lemma header_same:
  assumes "packet_object L p q" and "wf_packet p"
  shows "micro_print_header L q (packet_bytes p) = print (header_fields p)"
proof -
  have t: "length (p_transport p) = 16 * fl_header_type (p_flags p)" "length (p_destination p) = 16"
    using assms(2) by (simp_all add: wf_packet_def)
  have b: "load_byte (packet_bytes p) 0 = ret (p_flags p)" "load_byte (packet_bytes p) 1 = ret (p_hops p)"
    by (simp_all add: load_byte_def packet_bytes_def)
  have x: "field_table n micro_xport_types (fl_transport_type f) = print [Field n (xport_types ! fl_transport_type f)]"
    "field_table n micro_dest_types (fl_destination_type f) = print [Field n (dest_types ! fl_destination_type f)]"
    "field_table n micro_packet_types (fl_packet_type f) = print [Field n (packet_types ! fl_packet_type f)]" for n f
  proof -
    have "fl_transport_type f = 0 \<or> fl_transport_type f = 1" using flag_bounds(3) [of f] by linarith
    then show "field_table n micro_xport_types (fl_transport_type f) = print [Field n (xport_types ! fl_transport_type f)]"
      by (auto simp: field_table_ok micro_xport_types_def xport_types_def)
    show "field_table n micro_dest_types (fl_destination_type f) = print [Field n (dest_types ! fl_destination_type f)]"
      "field_table n micro_packet_types (fl_packet_type f) = print [Field n (packet_types ! fl_packet_type f)]"
      unfolding micro_dest_types_def micro_packet_types_def dest_types_def [symmetric] packet_types_def [symmetric] by simp_all
  qed
  show ?thesis
    using assms(1) t fl_header_type_cases [of "p_flags p"]
    unfolding micro_print_header_def b andthen_ret header_fields_def
    by (auto simp: x packet_object_def context_same hex_value_length hex_value_def [of "[]"])
qed

end

end
