(* ===== verification/Harness_Packets.thy ===== *)
theory Harness_Packets
  imports Harness_Laws
begin

text \<open>
  The kinds with a packet: inside the locale of the library's laws each prints what \<open>dump\<close> prints. The
  harness makes fewer checks than \<open>dump\<close> does; the definitions of this theory say of a packet that the
  missing ones would have passed.
\<close>

section \<open>Unpacking and announces\<close>

text \<open>Packets on which both header checks agree: a longer one than two bytes, below the hop limit, which
  the library does not know.\<close>

definition routed :: "bytes \<Rightarrow> bool" where
  "routed raw \<longleftrightarrow> 2 \<le> length raw \<and> unat (raw ! 1) < 128"

lemma hex_or_dash [simp]:
  "(if x \<noteq> [] then hex_value x else ''-'') = hex_value x" "(if x = [] then ''-'' else hex_value x) = hex_value x"
  by (simp_all add: hex_value_def)

lemma hex_value_Nil: "hex_value [] = ''-''"
  by (simp add: hex_value_def)

context rns_packets
begin

lemma unpack_same:
  assumes "routed raw"
  shows "decode_packet raw = Inl f \<Longrightarrow> micro_unpack L raw = andthen (print (fault_fields f)) (\<lambda>_. ret None)"
    and "decode_packet raw = Inr p \<Longrightarrow> \<exists>q. micro_unpack L raw = ret (Some q) \<and> packet_object L p q"
proof -
  assume f: "decode_packet raw = Inl f"
  then have s: "2 \<le> length raw" "length raw < 19 + 16 * fl_header_type (raw ! 0)"
    "f = mk_fault ''short-header'' ''length'' (length raw) ''minimum_length'' (19 + 16 * fl_header_type (raw ! 0))"
    using assms by (auto simp: routed_def decode_packet_def Let_def split: if_splits)
  obtain q q' where "rns_packet L raw = Inr q" "rns_unpack L q = Inr (False, q')" using unpack_short [OF s(1,2)] by blast
  moreover have "header_minimum L raw = 19 + 16 * fl_header_type (raw ! 0)"
    using s(1) fl_header_type_cases [of "raw ! 0"] by (auto simp: header_minimum_def header_sizes)
  ultimately show "micro_unpack L raw = andthen (print (fault_fields f)) (\<lambda>_. ret None)"
    by (simp add: micro_unpack_def micro_short_def micro_invalid_def s(3) fault_fields_def mk_fault_def)
next
  assume "decode_packet raw = Inr p"
  from unpack [OF this] show "\<exists>q. micro_unpack L raw = ret (Some q) \<and> packet_object L p q"
    by (auto simp: micro_unpack_def)
qed

lemma open_same:
  assumes "routed raw"
  shows "decode_packet raw = Inl f \<Longrightarrow> micro_open L raw = andthen (print (fault_fields f)) (\<lambda>_. ret None)"
    and "decode_packet raw = Inr p \<Longrightarrow> \<exists>q. micro_open L raw = ret (Some q) \<and> packet_object L p q"
  using unpack_same [OF assms] assms by (simp_all add: micro_open_def routed_def)

lemma announce_packet_same:
  assumes "packet_object L p q" and "decode_packet raw = Inr p"
  shows "micro_announce L raw q = print (case decode_announcement (fl_context_flag (p_flags p)) (p_payload p) of
      Inl f \<Rightarrow> fault_fields f | Inr a \<Rightarrow> announcement_fields p a)"
proof -
  define cf where "cf = fl_context_flag (p_flags p)"
  have cf: "cf = 0 \<or> cf = 1" unfolding cf_def by (rule fl_context_flag_cases)
  have p: "wf_packet p" "raw = packet_bytes p" using assms(2) by (simp_all add: decode_packet_iff)
  have b: "load_byte raw 0 = ret (p_flags p)" by (simp add: p load_byte_def packet_bytes_def)
  have d: "length (p_destination p) = 16" using p(1) by (simp add: wf_packet_def)
  note h = header_same [OF assms(1) p(1), folded p(2)]
  have q: "rns_data L q = p_payload p" "rns_destination_hash L q = p_destination p"
    using assms(1) by (simp_all add: packet_object_def)
  show ?thesis
  proof (cases "decode_announcement cf (p_payload p)")
    case (Inl f)
    then show ?thesis
      using cf unfolding micro_announce_def b andthen_ret Let_def q cf_def [symmetric]
      by (auto simp: decode_announcement_def Let_def micro_invalid_def fault_fields_def mk_fault_def split: if_splits)
  next
    case (Inr a)
    then have v: "rns_validate_announce L q = Inr (ed_valid (drop 32 (an_public_key a)) (an_signature a)
          (signed_part (p_destination p) a))"
      using assms(1) by (simp add: packet_object_def cf_def)
    show ?thesis
    proof (cases "cf = 1")
      case True
      have l: "180 \<le> length (p_payload p)" and a: "a = \<lparr>an_public_key = take 64 (p_payload p), an_name_hash = take 10 (drop 64 (p_payload p)),
          an_random_hash = take 10 (drop 74 (p_payload p)), an_ratchet = take 32 (drop 84 (p_payload p)),
          an_signature = take 64 (drop 116 (p_payload p)), an_app_data = drop 180 (p_payload p)\<rparr>"
        using Inr True by (simp_all add: decode_announcement_def Let_def split: if_splits)
      show ?thesis
        unfolding micro_announce_def b andthen_ret Let_def q cf_def [symmetric] Inr
        using True l d h v
        by (simp add: a slices short_hash announcement_fields_def announced_destination_def signed_part_def
            hex_value_length hex_value_Nil)
    next
      case False
      then have z: "cf = 0" using cf by simp
      have l: "148 \<le> length (p_payload p)" and a: "a = \<lparr>an_public_key = take 64 (p_payload p), an_name_hash = take 10 (drop 64 (p_payload p)),
          an_random_hash = take 10 (drop 74 (p_payload p)), an_ratchet = [],
          an_signature = take 64 (drop 84 (p_payload p)), an_app_data = drop 148 (p_payload p)\<rparr>"
        using Inr z by (simp_all add: decode_announcement_def Let_def split: if_splits)
      show ?thesis
        unfolding micro_announce_def b andthen_ret Let_def q cf_def [symmetric] Inr
        using z l d h v
        by (simp add: a slices short_hash announcement_fields_def announced_destination_def signed_part_def
            hex_value_length hex_value_Nil)
    qed
  qed
qed

lemma announce_same:
  assumes "routed raw"
  shows "kind_announce L [raw] = print (announce_fields raw)"
proof (cases "decode_packet raw")
  case (Inl f)
  then show ?thesis using open_same(1) [OF assms] by (simp add: kind_announce_def announce_fields_def andthen_assoc)
next
  case (Inr p)
  obtain q where "micro_open L raw = ret (Some q)" "packet_object L p q" using open_same(2) [OF assms Inr] by blast
  then show ?thesis
    using announce_packet_same [of p q raw] Inr by (simp add: kind_announce_def announce_fields_def)
qed

end

section \<open>Encrypted packets and link requests\<close>

text \<open>A token the harness treats as the reference does: there is a key, and the padding of a plaintext
  whose MAC is right is right, too.\<close>

definition clear_cut :: "bytes option \<Rightarrow> bytes \<Rightarrow> bool" where
  "clear_cut key bs \<longleftrightarrow> (case key of None \<Rightarrow> False | Some k \<Rightarrow> token_valid k bs \<longrightarrow> tok.unseal k bs \<noteq> None)"

definition harness_encrypted :: "bytes \<Rightarrow> packet \<Rightarrow> bool" where
  "harness_encrypted priv p \<longleftrightarrow> length (p_payload p) < 80 \<or>
     clear_cut (recipient_key priv (p_payload p)) (drop 32 (p_payload p))"

lemma unseal_needs_mac: "tok.unseal k bs = Some m \<Longrightarrow> token_valid k bs"
  by (auto simp: tok.unseal_def token_valid_def Let_def split: if_splits)

context rns_packets
begin

text \<open>A key both sides agree on, as the library computes it, and a token under it.\<close>

lemma agreed:
  assumes "agreement scalar peer salt = Some k" and "length scalar = 32" and "length peer = 32"
  obtains x sh t where "rns_private_key L scalar = Inr x" and "rns_exchange L x peer = Inr sh"
    and "rns_hkdf L 64 sh salt = Inr k" and "length k = 64" and "rns_token L k = Inr t"
    and "\<And>bs. 48 \<le> length bs \<Longrightarrow> rns_verify_hmac L t bs = Inr (token_valid k bs)"
    and "\<And>bs m. tok.unseal k bs = Some m \<Longrightarrow> rns_token_decrypt L t bs = Inr m"
    and "agreement_fields scalar peer salt = [Field ''shared_key'' (hex_value sh),
      Field ''signing_key'' (hex_value (take 32 k)), Field ''encryption_key'' (hex_value (drop 32 k))]"
proof -
  define sh where "sh = crypto_scalarmult scalar peer"
  have sh: "sh \<noteq> replicate 32 0" "k = hkdf sh salt 64"
    using assms(1) by (auto simp: agreement_def Let_def sh_def split: if_splits)
  have k: "length k = 64" by (simp add: sh)
  have ne: "sh \<noteq> []"
    using crypto_scalarmult_length [of scalar peer] unfolding sh_def by (metis list.size(3) zero_neq_numeral)
  obtain x where "rns_private_key L scalar = Inr x" "rns_exchange L x peer = Inr sh"
    using exchange [OF assms(2)] assms(3) sh(1) unfolding sh_def by blast
  moreover obtain t where "rns_token L k = Inr t"
    "\<And>bs. 48 \<le> length bs \<Longrightarrow> rns_verify_hmac L t bs = Inr (token_valid k bs)"
    "\<And>bs m. tok.unseal k bs = Some m \<Longrightarrow> rns_token_decrypt L t bs = Inr m"
    using token [OF k] by blast
  moreover have "agreement_fields scalar peer salt = [Field ''shared_key'' (hex_value sh),
      Field ''signing_key'' (hex_value (take 32 k)), Field ''encryption_key'' (hex_value (drop 32 k))]"
    using k ne assms(1) by (simp add: agreement_fields_def sh_def mac_half_def cipher_half_def hex_value_nonempty hex_value_length)
  ultimately show thesis using derive [OF ne, of salt] k by (intro that) (simp_all add: sh(2))
qed

lemma plaintext_same:
  assumes "token_valid k bs \<longrightarrow> tok.unseal k bs \<noteq> None" and "\<forall>m'. tok.unseal k bs = Some m' \<longrightarrow> m = m'"
  shows "plaintext_fields (Some k) bs = Field ''hmac_valid'' (yesno (token_valid k bs)) #
    (if token_valid k bs then [Field ''plaintext_length'' (dec (length m)), Field ''plaintext'' (hex_value m)]
     else [Field ''plaintext_length'' ''-'', Field ''plaintext'' ''-''])"
proof (cases "tok.unseal k bs")
  case None
  then show ?thesis using assms(1) by (simp add: plaintext_fields_def)
next
  case (Some m')
  then show ?thesis using assms(2) Some unseal_needs_mac [OF Some] by (simp add: plaintext_fields_def)
qed

lemma encrypted_packet_same:
  assumes "packet_object L p q" and "decode_packet raw = Inr p" and "length priv = 64" and "harness_encrypted priv p"
  shows "micro_encrypted L b True priv raw q = print (encrypted_packet_fields priv [] p)"
proof -
  define pl where "pl = p_payload p"
  have p: "wf_packet p" "raw = packet_bytes p" using assms(2) by (simp_all add: decode_packet_iff)
  note h = header_same [OF assms(1) p(1), folded p(2)]
  have q: "rns_data L q = pl" using assms(1) by (simp add: packet_object_def pl_def)
  show ?thesis
  proof (cases "length pl < 80")
    case True
    then show ?thesis
      by (simp add: micro_encrypted_def encrypted_packet_fields_def Let_def q micro_invalid_def fault_fields_def
        mk_fault_def flip: pl_def)
  next
    case False
    define salt where "salt = truncated_hash (keyset_public priv) 16"
    obtain k where k: "agreement (take 32 priv) (take 32 pl) salt = Some k"
      and c: "token_valid k (drop 32 pl) \<longrightarrow> tok.unseal k (drop 32 pl) \<noteq> None"
      using assms(4) False
      by (auto simp: harness_encrypted_def clear_cut_def recipient_key_def salt_def simp flip: pl_def split: option.splits)
    obtain x sh t where a: "rns_private_key L (take 32 priv) = Inr x" "rns_exchange L x (take 32 pl) = Inr sh"
      "rns_hkdf L 64 sh salt = Inr k" "length k = 64" "rns_token L k = Inr t"
      "\<And>bs. 48 \<le> length bs \<Longrightarrow> rns_verify_hmac L t bs = Inr (token_valid k bs)"
      and f: "agreement_fields (take 32 priv) (take 32 pl) salt = [Field ''shared_key'' (hex_value sh),
        Field ''signing_key'' (hex_value (take 32 k)), Field ''encryption_key'' (hex_value (drop 32 k))]"
      using k assms(3) False by (elim agreed) auto
    obtain who where who: "rns_load_private_key L (rns_identity L) priv = Inr who" "private_identity L priv who"
      using load_private [OF assms(3)] by blast
    obtain m where m: "rns_decrypt L who pl = Inr m" "\<forall>m'. tok.unseal k (drop 32 pl) = Some m' \<longrightarrow> m = m'"
      using who(2) k False unfolding private_identity_def recipient_key_def salt_def by (meson not_less)
    have salt: "rns_hash L who = Inr salt" "hex_value salt = hex_bytes salt"
      using who(2) by (simp_all add: private_identity_def salt_def hex_value_length)
    have spec: "encrypted_packet_fields priv [] p = header_fields p @ [Field ''ephemeral_public'' (hex_bytes (take 32 pl))] @
        token_fields (drop 32 pl) @ [Field ''identity_hash'' (hex_bytes salt), Field ''ratchet_public'' ''-''] @
        agreement_fields (take 32 priv) (take 32 pl) salt @ plaintext_fields (Some k) (drop 32 pl)"
      using False k by (simp add: encrypted_packet_fields_def Let_def salt_def flip: pl_def)
    show ?thesis
      using False unfolding spec f plaintext_same [OF c m(2)]
      by (simp add: micro_encrypted_def Let_def q slices h a key_length who(1) salt m(1) token_fields_def
        hex_value_length andthen_assoc hex_value_Nil)
  qed
qed

lemma encrypted_same:
  assumes "routed raw" and "length priv = 64" and "\<And>p. decode_packet raw = Inr p \<Longrightarrow> harness_encrypted priv p"
  shows "kind_encrypted L [priv, r, raw] True = print (encrypted_fields priv [] raw)"
proof (cases "decode_packet raw")
  case (Inl f)
  then show ?thesis using open_same(1) [OF assms(1)] assms(2)
    by (simp add: kind_encrypted_def encrypted_fields_def andthen_assoc hex_value_length hex_value_def [of "[]"])
next
  case (Inr p)
  obtain q where "micro_open L raw = ret (Some q)" "packet_object L p q" using open_same(2) [OF assms(1) Inr] by blast
  then show ?thesis
    using encrypted_packet_same [of p q raw priv] Inr assms(2,3)
    by (simp add: kind_encrypted_def encrypted_fields_def hex_value_length hex_value_def [of "[]"])
qed

lemma signalling_same:
  assumes "rest = [] \<or> length rest = 3" and "mode = Inr (mode_of rest)" and "rest \<noteq> [] \<Longrightarrow> mtu = Inr (signalling_value rest mod 2 ^ 21)"
  shows "andthen (print [Field ''signalling'' (hex_value rest)]) (\<lambda>_. micro_signalling L mode mtu (rest \<noteq> [])) =
    print (signalling_fields rest)"
  using assms by (cases "rest = []")
    (simp_all add: micro_signalling_def print_mode_def cipher_mode signalling_fields_def mode_of_def hex_value_length
      hex_value_def [of "[]"] Let_def hex_value_nonempty)

lemma signalling_after:
  assumes "andthen (print [x]) (\<lambda>_. m) = print ys"
  shows "andthen (print (ls @ [x])) (\<lambda>_. andthen m g) = andthen (print (ls @ ys)) (g :: unit \<Rightarrow> unit prog)"
proof -
  have "andthen (print (ls @ [x])) (\<lambda>_. andthen m g) = andthen (print ls) (\<lambda>_. andthen (andthen (print [x]) (\<lambda>_. m)) g)"
    by (simp add: andthen_assoc)
  also have "\<dots> = andthen (print (ls @ ys)) g" unfolding assms by simp
  finally show ?thesis .
qed

lemma signalled:
  assumes "rest = [] \<or> length rest = 3" and "mode = Inr (mode_of rest)" and "rest \<noteq> [] \<Longrightarrow> mtu = Inr (signalling_value rest mod 2 ^ 21)"
  shows "andthen (print (ls @ [Field ''signalling'' (hex_value rest)])) (\<lambda>_. andthen (micro_signalling L mode mtu (rest \<noteq> [])) g) =
    andthen (print (ls @ signalling_fields rest)) (g :: unit \<Rightarrow> unit prog)"
  using assms by (intro signalling_after signalling_same)

lemma linkrequest_same:
  assumes "routed raw"
  shows "kind_linkrequest L [raw] = print (linkrequest_fields raw)"
proof (cases "decode_packet raw")
  case (Inl f)
  then show ?thesis using open_same(1) [OF assms] by (simp add: kind_linkrequest_def linkrequest_fields_def andthen_assoc)
next
  case (Inr p)
  obtain q where o: "micro_open L raw = ret (Some q)" and q: "packet_object L p q" using open_same(2) [OF assms Inr] by blast
  have p: "wf_packet p" "raw = packet_bytes p" using Inr by (simp_all add: decode_packet_iff)
  note h = header_same [OF q p(1), folded p(2)]
  define pl where "pl = p_payload p"
  have d: "rns_data L q = pl" "rns_link_id L q = Inr (link_id p)" using q by (simp_all add: packet_object_def pl_def)
  show ?thesis
  proof (cases "length pl = 64 \<or> length pl = 67")
    case True
    define rest where "rest = drop 64 pl"
    have s: "andthen (print (ls @ [Field ''signalling'' (hex_value rest)]))
        (\<lambda>_. andthen (micro_signalling L (rns_mode_from_lr L q) (rns_mtu_from_lr L q) (rest \<noteq> [])) g) =
        andthen (print (ls @ signalling_fields rest)) g" for ls and g :: "unit \<Rightarrow> unit prog"
      using True q by (intro signalled) (auto simp: packet_object_def rest_def pl_def)
    have k: "linkrequest_fields raw = header_fields p @
       [Field ''x25519_public'' (hex_bytes (take 32 pl)), Field ''ed25519_public'' (hex_bytes (take 32 (drop 32 pl)))] @
       signalling_fields rest @ [Field ''link_id'' (hex_bytes (link_id p))]"
      using True Inr by (auto simp: linkrequest_fields_def rest_def simp flip: pl_def)
    have hv: "hex_value (take 32 pl) = hex_bytes (take 32 pl)" "hex_value (take 32 (drop 32 pl)) = hex_bytes (take 32 (drop 32 pl))"
      using True by (auto simp: hex_value_length)
    note step = s [of "header_fields p @ [Field ''x25519_public'' (hex_bytes (take 32 pl)), Field ''ed25519_public'' (hex_bytes (take 32 (drop 32 pl)))]", simplified]
    from True show ?thesis
    proof
      assume l: "length pl = 64"
      then have "rest = []" by (simp add: rest_def)
      then show ?thesis
        using l step unfolding k by (simp add: kind_linkrequest_def o Let_def d slices h hv andthen_assoc hex_value_length hex_value_Nil)
    next
      assume l: "length pl = 67"
      then have "rest \<noteq> []" by (simp add: rest_def)
      then show ?thesis
        using l step unfolding k
        by (simp add: kind_linkrequest_def o Let_def d slices h hv andthen_assoc hex_value_length flip: rest_def)
    qed
  next
    case False
    then show ?thesis
      using Inr o d by (simp add: kind_linkrequest_def linkrequest_fields_def micro_invalid_length_def micro_invalid_def
          length_fault_fields_def Let_def flip: pl_def)
  qed
qed

end

section \<open>Proofs and link data\<close>

definition harness_proof :: "bytes \<Rightarrow> packet \<Rightarrow> bool" where
  "harness_proof key p \<longleftrightarrow> (length (p_payload p) = 64 \<or> length (p_payload p) = 96) \<and>
     length key = (if on_link p then 32 else 64)"

definition harness_linkdata :: "packet \<Rightarrow> bytes \<Rightarrow> packet \<Rightarrow> bool" where
  "harness_linkdata req priv p \<longleftrightarrow> p_context p = 1 \<or> p_context p = 0xfa \<or>
     32 \<le> length (p_payload req) \<and> 48 \<le> length (p_payload p) \<and>
     clear_cut (agreement priv (take 32 (p_payload req)) (link_id req)) (p_payload p) \<and>
     p_context p \<notin> {0x02, 0x03, 0x04, 0x06, 0x07, 0x09, 0x0a, 0x0e} \<and>
     (p_context p = 0xfb \<longrightarrow> (\<forall>k m. agreement priv (take 32 (p_payload req)) (link_id req) = Some k \<longrightarrow>
        tok.unseal k (p_payload p) = Some m \<longrightarrow> length m = 128))"

context rns_packets
begin

lemma proof_verdict_same:
  assumes "length key = 64" and "length sig = 64"
  shows "micro_proof_verdict L key shown sig hash = print
    [Field ''signature'' (hex_value sig), Field ''signer_ed25519'' (hex_value shown),
     Field ''signature_valid'' (yesno (ed_valid (drop 32 key) sig hash))]"
proof -
  obtain who where "rns_load_public_key L (rns_identity L) key = Inr who" "public_identity L key who"
    using load_public [OF assms(1)] by blast
  then show ?thesis using assms(2) by (simp add: micro_proof_verdict_def public_identity_def)
qed

lemma proof_packet_same:
  assumes "packet_object L pp qq" and "packet_object L p q" and "decode_packet raw = Inr p" and "wf_packet pp"
    and "harness_proof key p"
  shows "micro_proof L qq key raw q = print (proof_packet_fields pp (if on_link p then key else drop 32 key) p)"
proof -
  define pl where "pl = p_payload p"
  have p: "wf_packet p" "raw = packet_bytes p" using assms(3) by (simp_all add: decode_packet_iff)
  have b: "load_byte raw 0 = ret (p_flags p)" by (simp add: p load_byte_def packet_bytes_def)
  note h = header_same [OF assms(2) p(1), folded p(2)]
  have q: "rns_data L q = pl" "rns_destination_hash L q = p_destination p" "rns_destination_hash L qq = p_destination pp"
    "rns_get_hash L qq = Inr (packet_hash pp)"
    using assms(1,2) by (simp_all add: packet_object_def pl_def)
  have d: "length (p_destination pp) = 16" using assms(4) by (simp add: wf_packet_def)
  have k: "length key = (if on_link p then 32 else 64)" and l: "length pl = 64 \<or> length pl = 96"
    using assms(5) by (simp_all add: harness_proof_def pl_def)
  have hv: "hex_value (packet_hash pp) = hex_bytes (packet_hash pp)" "hex_value (p_destination pp) = hex_bytes (p_destination pp)"
    "hex_value (take 16 (packet_hash pp)) = hex_bytes (take 16 (packet_hash pp))"
    using d by (simp_all add: hex_value_length)
  note defs = micro_proof_def proof_packet_fields_def Let_def
  show ?thesis
  proof (cases "on_link p")
    case True
    then show ?thesis
      using k l d by (auto simp: defs h q b on_link_def slices hv hex_value_length proof_verdict_same andthen_assoc simp flip: pl_def)
  next
    case False
    then show ?thesis
      using k l d by (auto simp: defs h q b on_link_def slices hv hex_value_length proof_verdict_same andthen_assoc simp flip: pl_def)
  qed
qed

lemma proof_same:
  assumes "routed proved" and "decode_packet proved = Inr pp" and "routed raw" and "length key = 32 \<or> length key = 64"
    and "\<And>p. decode_packet raw = Inr p \<Longrightarrow> harness_proof key p"
  shows "kind_proof L [proved, key, raw] = proof_result proved key raw"
proof -
  obtain qq where qq: "micro_unpack L proved = ret (Some qq)" "packet_object L pp qq" using unpack_same(2) [OF assms(1,2)] by blast
  have wf: "wf_packet pp" using assms(2) by (simp add: decode_packet_iff)
  have kv: "hex_value key = hex_bytes key" using assms(4) by (auto simp: hex_value_length)
  show ?thesis
  proof (cases "decode_packet raw")
    case (Inl f)
    then show ?thesis using unpack_same(1) [OF assms(3)] qq assms(2) by (simp add: kind_proof_def proof_result_def kv andthen_assoc)
  next
    case (Inr p)
    then obtain q where q: "micro_unpack L raw = ret (Some q)" "packet_object L p q" using unpack_same(2) [OF assms(3)] by blast
    have hp: "harness_proof key p" using assms(5) Inr by simp
    show ?thesis
      using proof_packet_same [OF qq(2) q(2) Inr wf hp] qq(1) q(1) assms(2) Inr hp
      by (auto simp: kind_proof_def proof_result_def proof_packet_result_def kv harness_proof_def)
  qed
qed

lemma linkproof_packet_same:
  assumes "packet_object L p q" and "decode_packet raw = Inr p" and "decode_packet req = Inr rp" and "length key = 64"
  shows "micro_linkproof L req key raw q = print (linkproof_packet_fields rp (drop 32 key) p)"
proof -
  define pl where "pl = p_payload p"
  have p: "wf_packet p" "raw = packet_bytes p" using assms(2) by (simp_all add: decode_packet_iff)
  note h = header_same [OF assms(1) p(1), folded p(2)]
  have q: "rns_data L q = pl" "rns_destination_hash L q = p_destination p"
    using assms(1) by (simp_all add: packet_object_def pl_def)
  obtain r0 r where r: "rns_packet L req = Inr r0" "rns_unpack L r0 = Inr (True, r)" "rns_link_id L r = Inr (link_id rp)"
    using unpack [OF assms(3)] by (auto simp: packet_object_def)
  obtain who where who: "rns_load_public_key L (rns_identity L) key = Inr who" "public_identity L key who"
    using load_public [OF assms(4)] by blast
  have hv: "hex_value (link_id rp) = hex_bytes (link_id rp)" by (simp add: hex_value_length)
  show ?thesis
  proof (cases "length pl = 96 \<or> length pl = 99")
    case True
    define rest where "rest = drop 96 pl"
    have s: "andthen (print (ls @ [Field ''signalling'' (hex_value rest)]))
        (\<lambda>_. andthen (micro_signalling L (rns_mode_from_lp L q) (rns_mtu_from_lp L q) (rest \<noteq> [])) g) =
        andthen (print (ls @ signalling_fields rest)) g" for ls and g :: "unit \<Rightarrow> unit prog"
      using True assms(1) by (intro signalled) (auto simp: packet_object_def rest_def pl_def)
    have k: "linkproof_packet_fields rp (drop 32 key) p = header_fields p @
       [Field ''link_id'' (hex_bytes (link_id rp)), Field ''link_id_match'' (yesno (p_destination p = link_id rp)),
        Field ''signature'' (hex_bytes (take 64 pl)), Field ''x25519_public'' (hex_bytes (take 32 (drop 64 pl)))] @
       signalling_fields rest @
       [Field ''signer_ed25519'' (hex_bytes (drop 32 key)), Field ''signed_data'' (hex_bytes (linkproof_signed rp (drop 32 key) pl)),
        Field ''signature_valid'' (yesno (ed_valid (drop 32 key) (take 64 pl) (linkproof_signed rp (drop 32 key) pl)))]"
      using True by (auto simp: linkproof_packet_fields_def Let_def rest_def simp flip: pl_def)
    have sd: "linkproof_signed rp (drop 32 key) pl = link_id rp @ take 32 (drop 64 pl) @ drop 32 key @ rest"
      by (simp add: linkproof_signed_def rest_def)
    note step = s [of "header_fields p @ [Field ''link_id'' (hex_bytes (link_id rp)), Field ''link_id_match'' (yesno (p_destination p = link_id rp)),
        Field ''signature'' (hex_bytes (take 64 pl)), Field ''x25519_public'' (hex_bytes (take 32 (drop 64 pl)))]", simplified]
    have hv': "hex_value (take 64 pl) = hex_bytes (take 64 pl)" "hex_value (take 32 (drop 64 pl)) = hex_bytes (take 32 (drop 64 pl))"
      "hex_value (drop 32 key) = hex_bytes (drop 32 key)" "hex_value (link_id rp @ xs) = hex_bytes (link_id rp @ xs)" for xs
      using True assms(4) by (auto simp: hex_value_length)
    have v: "rns_validate L who (take 64 pl) m = Inr (ed_valid (drop 32 key) (take 64 pl) m)" for m
      using who(2) True by (auto simp: public_identity_def)
    from True show ?thesis
    proof
      assume l: "length pl = 96"
      then have "rest = []" by (simp add: rest_def)
      then show ?thesis
        using l step unfolding k sd
        by (simp add: micro_linkproof_def Let_def q r who(1) slices h hv hv' v andthen_assoc hex_value_Nil hex_value_length)
    next
      assume l: "length pl = 99"
      then have "rest \<noteq> []" by (simp add: rest_def)
      then show ?thesis
        using l step unfolding k sd
        by (simp add: micro_linkproof_def Let_def q r who(1) slices h hv hv' v andthen_assoc hex_value_length flip: rest_def)
    qed
  next
    case False
    then show ?thesis
      using q by (simp add: micro_linkproof_def linkproof_packet_fields_def micro_invalid_length_def micro_invalid_def
          length_fault_fields_def Let_def flip: pl_def)
  qed
qed

lemma linkproof_same:
  assumes "decode_packet req = Inr rp" and "length key = 64" and "routed raw"
  shows "kind_linkproof L [req, key, raw] = linkproof_result req key raw"
proof (cases "decode_packet raw")
  case (Inl f)
  then show ?thesis using open_same(1) [OF assms(3)] assms(1,2)
    by (simp add: kind_linkproof_def linkproof_result_def andthen_assoc hex_value_length)
next
  case (Inr p)
  then obtain q where "micro_open L raw = ret (Some q)" "packet_object L p q" using open_same(2) [OF assms(3)] by blast
  then show ?thesis
    using linkproof_packet_same [of p q raw req rp key] Inr assms(1,2)
    by (simp add: kind_linkproof_def linkproof_result_def hex_value_length)
qed

lemma identify_same:
  assumes "length m = 128"
  shows "micro_identify L lid m = print (identify_lines 0xfb m lid)"
proof -
  have k: "length (take 64 m) = 64" "length (drop 64 m) = 64" using assms by simp_all
  obtain who where who: "rns_load_public_key L (rns_identity L) (take 64 m) = Inr who" "public_identity L (take 64 m) who"
    using load_public [OF k(1)] by blast
  then have v: "rns_validate L who (drop 64 m) x = Inr (ed_valid (drop 32 (take 64 m)) (drop 64 m) x)" for x
    using k(2) by (simp add: public_identity_def)
  have "lid @ take 64 m \<noteq> []" using k(1) by (metis append_is_Nil_conv list.size(3) zero_neq_numeral)
  then have hv: "hex_value (lid @ take 64 m) = hex_bytes (lid @ take 64 m)" "hex_value (take 64 m) = hex_bytes (take 64 m)"
    using k(1) by (simp_all add: hex_value_nonempty hex_value_length)
  show ?thesis
    using who assms
    by (simp add: micro_identify_def identify_lines_def Let_def slices v hv hex_value_length public_identity_def)
qed

lemma contents_same:
  fixes c :: byte
  assumes "c \<notin> {0x02, 0x03, 0x04, 0x06, 0x07, 0x09, 0x0a, 0x0e}" and "c = 0xfb \<longrightarrow> length m = 128"
  shows "micro_contents L (unat c) lid m = print (opened_lines (unat c) m lid)"
proof -
  have n: "unat c \<noteq> 2" "unat c \<noteq> 3" "unat c \<noteq> 4" "unat c \<noteq> 6" "unat c \<noteq> 7" "unat c \<noteq> 9" "unat c \<noteq> 10" "unat c \<noteq> 14"
    using assms(1) by (auto simp: word_unat_eq_iff)
  have o: "opened_lines (unat c) m lid = identify_lines (unat c) m lid"
    using n by (simp add: opened_lines_def channel_lines_def request_lines_def resource_lines_def)
  have i: "unat c = 0xfb \<longleftrightarrow> c = 0xfb" by (simp add: word_unat_eq_iff)
  show ?thesis
  proof (cases "c = 0xfb")
    case True
    then have "unat c = 251" "length m = 128" using assms(2) by simp_all
    then show ?thesis unfolding o by (simp add: micro_contents_def identify_same)
  next
    case False
    then have "unat c \<noteq> 251" using i by simp
    then show ?thesis unfolding o using n by (simp add: micro_contents_def identify_lines_def print_Nil)
  qed
qed

lemma sealed_same:
  assumes "packet_object L p q" and "packet_object L rp r" and "length priv = 32" and "harness_linkdata rp priv p"
    and "p_context p \<noteq> 1" "p_context p \<noteq> 0xfa"
  shows "micro_sealed L r (link_id rp) priv q = print (sealed_lines rp priv p)"
proof -
  define pl where "pl = p_payload p"
  define peer where "peer = take 32 (p_payload rp)"
  have hl: "32 \<le> length (p_payload rp)" "48 \<le> length pl" "clear_cut (agreement priv peer (link_id rp)) pl"
    "p_context p \<notin> {0x02, 0x03, 0x04, 0x06, 0x07, 0x09, 0x0a, 0x0e}"
    "p_context p = 0xfb \<longrightarrow> (\<forall>k m. agreement priv peer (link_id rp) = Some k \<longrightarrow> tok.unseal k pl = Some m \<longrightarrow> length m = 128)"
    using assms(4-6) by (simp_all add: harness_linkdata_def pl_def peer_def)
  have ik: "initiator_key rp = peer" "length peer = 32" using hl(1) by (simp_all add: initiator_key_def peer_def)
  have q: "rns_data L q = pl" "rns_context L q = p_context p" "rns_data L r = p_payload rp"
    using assms(1,2) by (simp_all add: packet_object_def pl_def)
  obtain k where k: "agreement priv peer (link_id rp) = Some k" and c: "token_valid k pl \<longrightarrow> tok.unseal k pl \<noteq> None"
    using hl(3) by (auto simp: clear_cut_def split: option.splits)
  obtain x sh t where a: "rns_private_key L priv = Inr x" "rns_exchange L x peer = Inr sh"
    "rns_hkdf L 64 sh (link_id rp) = Inr k" "length k = 64" "rns_token L k = Inr t"
    "\<And>bs. 48 \<le> length bs \<Longrightarrow> rns_verify_hmac L t bs = Inr (token_valid k bs)"
    "\<And>bs m. tok.unseal k bs = Some m \<Longrightarrow> rns_token_decrypt L t bs = Inr m"
    "agreement_fields priv peer (link_id rp) = [Field ''shared_key'' (hex_value sh),
      Field ''signing_key'' (hex_value (take 32 k)), Field ''encryption_key'' (hex_value (drop 32 k))]"
    using k assms(3) ik(2) by (elim agreed) auto
  note defs = micro_sealed_def sealed_lines_def Let_def q slices a(1-6,8) token_fields_def hex_value_length hex_value_Nil
    andthen_assoc ik k
  show ?thesis
  proof (cases "token_valid k pl")
    case False
    then have "tok.unseal k pl = None" using unseal_needs_mac [of k pl] by (cases "tok.unseal k pl") auto
    then show ?thesis using False hl(2) by (simp add: defs plaintext_fields_def flip: pl_def peer_def)
  next
    case True
    then obtain m where m: "tok.unseal k pl = Some m" using c by auto
    have "micro_contents L (unat (p_context p)) (link_id rp) m = print (opened_lines (unat (p_context p)) m (link_id rp))"
      using hl(4,5) k m by (intro contents_same) auto
    then show ?thesis
      using True m a(7) [OF m] hl(2) by (simp add: defs plaintext_fields_def flip: pl_def peer_def)
  qed
qed

lemma linkdata_same:
  assumes "decode_packet req = Inr rp" and "length priv = 32" and "routed raw"
    and "\<And>p. decode_packet raw = Inr p \<Longrightarrow> harness_linkdata rp priv p"
  shows "kind_linkdata L [req, priv, raw] = linkdata_result req priv raw"
proof (cases "decode_packet raw")
  case (Inl f)
  then show ?thesis using open_same(1) [OF assms(3)] assms(1,2)
    by (simp add: kind_linkdata_def linkdata_result_def andthen_assoc hex_value_length)
next
  case (Inr p)
  obtain q where q: "micro_open L raw = ret (Some q)" "packet_object L p q" using open_same(2) [OF assms(3) Inr] by blast
  obtain r0 r where r: "rns_packet L req = Inr r0" "rns_unpack L r0 = Inr (True, r)" "packet_object L rp r"
    using unpack [OF assms(1)] by blast
  have p: "wf_packet p" "raw = packet_bytes p" using Inr by (simp_all add: decode_packet_iff)
  note h = header_same [OF q(2) p(1), folded p(2)]
  have d: "rns_link_id L r = Inr (link_id rp)" "rns_destination_hash L q = p_destination p" "rns_context L q = p_context p"
    "rns_data L q = p_payload p"
    using q(2) r(3) by (simp_all add: packet_object_def)
  have c: "unat (p_context p) = 1 \<longleftrightarrow> p_context p = 1" "unat (p_context p) = 250 \<longleftrightarrow> p_context p = 0xfa"
    by (simp_all add: word_unat_eq_iff)
  have hl: "harness_linkdata rp priv p" using assms(4) Inr by simp
  note defs = kind_linkdata_def linkdata_result_def linkdata_lines_def q(1) r(1,2) d h hex_value_length hex_value_Nil andthen_assoc
  show ?thesis
  proof (cases "p_context p = 1 \<or> p_context p = 0xfa")
    case True
    then show ?thesis using Inr assms(1,2) by (auto simp: defs c)
  next
    case False
    then have "48 \<le> length (p_payload p)" using hl by (simp add: harness_linkdata_def)
    moreover have "micro_sealed L r (link_id rp) priv q = print (sealed_lines rp priv p)"
      using sealed_same [OF q(2) r(3) assms(2) hl] False by simp
    moreover have "unat (p_context p) \<noteq> Suc 0" "unat (p_context p) \<noteq> 250" using False c by auto
    ultimately show ?thesis using False Inr assms(1,2) by (simp add: defs)
  qed
qed

end

end
