(* ===== verification/Harness_Agrees.thy ===== *)
theory Harness_Agrees
  imports Harness_Packets
begin

text \<open>
  The two programs on one file: reading it, choosing the kind and printing. The locales are
  interpreted on a library made of the functions of cmd/dump.
\<close>

section \<open>The same file\<close>

lemma getlines_lines:
  "(\<forall>l \<in> set ls. newline \<notin> set l) \<Longrightarrow> getlines (concat (map (\<lambda>l. l @ [newline]) ls)) = ls"
proof (induction ls)
  case (Cons l ls)
  have t: "takeWhile (\<lambda>c. c \<noteq> newline) (l @ newline # r) = l" "dropWhile (\<lambda>c. c \<noteq> newline) (l @ newline # r) = newline # r" for r
    using Cons.prems by (auto simp: takeWhile_append dropWhile_append)
  have "getlines (l @ newline # concat (map (\<lambda>l. l @ [newline]) ls)) = l # getlines (concat (map (\<lambda>l. l @ [newline]) ls))"
    by (subst getlines.simps) (simp add: t)
  then show ?case using Cons by simp
qed (simp add: getlines.simps)

lemma pop_eol_plain: "plain_text s \<Longrightarrow> pop_eol s = s"
proof -
  assume p: "plain_text s"
  have "dropWhile (\<lambda>c. c = newline \<or> c = CR) (rev s) = rev s"
  proof (cases "rev s")
    case (Cons c cs)
    then have "c \<in> set s" by (metis list.set_intros(1) set_rev)
    then show ?thesis using p Cons by (auto simp: plain_text_def)
  qed simp
  then show ?thesis by (simp add: pop_eol_def)
qed

context rns_bytes
begin

lemma read_raw_same:
  assumes "\<forall>b \<in> set bs. canonical b"
  shows "read_raw L (Some (render (raw_lines bs))) = ret (map contents bs, map absent bs)"
proof -
  have lines: "read_raw_lines L (map blob_value bs) = ret (map (\<lambda>b. (contents b, absent b)) bs)"
    using assms
  proof (induction bs)
    case (Cons b bs)
    have ne: "blob_value b \<noteq> []" by (simp add: blob_value_def hex_value_def)
    have pop: "pop_eol (blob_value b) = blob_value b"
      unfolding blob_value_def by (intro pop_eol_plain hex_value_plain)
    have ih: "read_raw_lines L (map blob_value bs) = ret (map (\<lambda>b. (contents b, absent b)) bs)" using Cons by simp
    have c: "canonical b" "wf_blob b" using Cons.prems by (simp_all add: canonical_def)
    show ?case
    proof (cases "contents b = []")
      case True
      then have "absent b" "blob_value b = ''-''" using c by (auto simp: canonical_def blob_value_def hex_value_def)
      then show ?thesis using ih True pop by (simp add: pop_eol_def)
    next
      case False
      then have v: "blob_value b = hex_bytes (contents b)" by (simp add: blob_value_def hex_value_nonempty)
      have "hex_bytes (contents b) \<noteq> ''-''" using False hex_value_dash [of "contents b"] by (simp add: hex_value_def)
      moreover have "\<not> absent b" using c(2) False by (cases rule: wf_blob_cases) simp_all
      moreover have "c_str (hex_bytes (contents b)) = hex_bytes (contents b)"
        using hex_bytes_plain(1) [of "contents b"] by (auto simp: c_str_def plain_text_def intro!: takeWhile_eq_all_conv [THEN iffD2])
      ultimately show ?thesis using ih ne pop by (simp add: v assign_hex Let_def)
    qed
  qed simp
  have "\<forall>l \<in> set (map blob_value bs). newline \<notin> set l"
    using hex_value_plain(1) by (auto simp: blob_value_def plain_text_def)
  then have "getlines (render (raw_lines bs)) = map blob_value bs"
    unfolding render_raw_lines by (rule getlines_lines)
  then show ?thesis by (simp add: read_raw_def lines comp_def)
qed

end

text \<open>The inputs on which the two programs are comparable. A packet that decodes has to satisfy a
  condition; for some arguments it may also fail to decode.\<close>

definition decoding :: "(packet \<Rightarrow> bool) \<Rightarrow> bytes \<Rightarrow> bool" where
  "decoding P raw = (case decode_packet raw of Inl f \<Rightarrow> False | Inr p \<Rightarrow> P p)"

definition if_decoding :: "(packet \<Rightarrow> bool) \<Rightarrow> bytes \<Rightarrow> bool" where
  "if_decoding P raw = (case decode_packet raw of Inl f \<Rightarrow> True | Inr p \<Rightarrow> P p)"

lemma decodingE: "decoding P raw \<Longrightarrow> (\<And>p. decode_packet raw = Inr p \<Longrightarrow> P p \<Longrightarrow> R) \<Longrightarrow> R"
  by (auto simp: decoding_def split: sum.splits)

lemma if_decodingD: "if_decoding P raw \<Longrightarrow> decode_packet raw = Inr p \<Longrightarrow> P p"
  by (simp add: if_decoding_def)

definition comparable_packet :: "string \<Rightarrow> bytes \<Rightarrow> bytes \<Rightarrow> bytes \<Rightarrow> bool" where
  "comparable_packet kind context key raw \<longleftrightarrow> routed raw \<and>
    (kind = ''linkproof'' \<and> decoding (\<lambda>req. True) context \<and> length key = 64 \<or>
     kind = ''linkdata'' \<and> decoding (\<lambda>req. if_decoding (harness_linkdata req key) raw) context \<and> length key = 32 \<or>
     kind = ''proof'' \<and> decoding (\<lambda>proved. True) context \<and> if_decoding (harness_proof key) raw \<and>
       (length key = 32 \<or> length key = 64))"

fun comparable :: "string \<Rightarrow> blob list \<Rightarrow> bool" where
  "comparable kind [b0] \<longleftrightarrow>
    (kind = ''identity'' \<or> kind = ''keyset'') \<and> length (contents b0) = 64 \<or>
    (kind = ''announce'' \<or> kind = ''linkrequest'') \<and> routed (contents b0)"
| "comparable kind [b0, b1] \<longleftrightarrow>
    kind = ''destination'' \<and> harness_name (contents b0) \<and> (absent b1 \<or> length (contents b1) = 16) \<or>
    kind = ''sign'' \<and> length (contents b0) = 64"
| "comparable kind [b0, b1, b2] \<longleftrightarrow>
    kind = ''signature'' \<and> length (contents b0) = 64 \<and> length (contents b2) = 64 \<or>
    kind = ''encrypted'' \<and> length (contents b0) = 64 \<and> absent b1 \<and> routed (contents b2) \<and>
      if_decoding (harness_encrypted (contents b0)) (contents b2) \<or>
    comparable_packet kind (contents b0) (contents b1) (contents b2)"
| "comparable kind bs = False"

lemma catch_print [simp]: "catch (print ls) = print ls"
  by (simp add: catch_def print_def)

lemma routed_decoded: "decode_packet raw = Inr p \<Longrightarrow> routed raw"
  by (auto simp: decode_packet_def routed_def Let_def split: if_splits)

lemma main_prints:
  assumes "\<forall>b \<in> set bs. canonical b" and "fs path = Some (render (raw_lines bs))" and "length bs \<le> 4"
    and "find (\<lambda>k. k_name k = kind) kinds = Some k" and "k_blobs k = length bs"
    and "k_decode k (bs @ replicate (4 - length bs) zero_blob) = print ls"
  shows "main [a, kind, path] fs = andthen (print ls) (\<lambda>_. ret 0)"
proof -
  have "readraw path (fs path) (replicate MAXBLOBS zero_blob) MAXBLOBS = ret (bs @ replicate (4 - length bs) zero_blob, length bs)"
    unfolding assms(2) using readraw_written [OF assms(1), of MAXBLOBS] assms(3) by (simp add: MAXBLOBS_def)
  then show ?thesis using assms(4-6) by (simp add: main_def run_kind_def decode_kind_def)
qed

lemma micro_prints:
  assumes "rns_bytes L" and "\<forall>b \<in> set bs. canonical b" and "fs path = Some (render (raw_lines bs))"
    and "map_of (micro_kinds L) kind = Some k" and "k (map contents bs) (map absent bs) = print ls"
  shows "micro_main L [a, kind, path] fs = andthen (print ls) (\<lambda>_. ret 0)"
  using rns_bytes.read_raw_same [OF assms(1,2)] assms(3-5) by (simp add: micro_main_def)

text \<open>Both programs print the same lines for the blobs \<open>bs\<close> of a file of this kind.\<close>

definition prints_alike :: "('i, 'p, 'k, 't) rns \<Rightarrow> string \<Rightarrow> blob list \<Rightarrow> bool" where
  "prints_alike L kind bs \<longleftrightarrow> length bs \<le> 4 \<and> (\<exists>ls.
     (case find (\<lambda>k. k_name k = kind) kinds of None \<Rightarrow> False
      | Some k \<Rightarrow> k_blobs k = length bs \<and> k_decode k (bs @ replicate (4 - length bs) zero_blob) = print ls) \<and>
     (case map_of (micro_kinds L) kind of None \<Rightarrow> False
      | Some km \<Rightarrow> km (map contents bs) (map absent bs) = print ls))"

lemma prints_alikeI:
  assumes "length bs \<le> 4"
    and "case find (\<lambda>k. k_name k = kind) kinds of None \<Rightarrow> False
      | Some k \<Rightarrow> k_blobs k = length bs \<and> k_decode k (bs @ replicate (4 - length bs) zero_blob) = print ls"
    and "case map_of (micro_kinds L) kind of None \<Rightarrow> False
      | Some km \<Rightarrow> km (map contents bs) (map absent bs) = print ls"
  shows "prints_alike L kind bs"
  using assms unfolding prints_alike_def by blast

lemma programs_agree:
  assumes "rns_bytes L" and "\<forall>b \<in> set bs. canonical b" and "fs path = Some (render (raw_lines bs))"
    and "prints_alike L kind bs"
  shows "micro_main L [a, kind, path] fs = main [a', kind, path] fs"
proof -
  obtain k km ls where k: "length bs \<le> 4" "find (\<lambda>k. k_name k = kind) kinds = Some k" "k_blobs k = length bs"
    "k_decode k (bs @ replicate (4 - length bs) zero_blob) = print ls"
    "map_of (micro_kinds L) kind = Some km" "km (map contents bs) (map absent bs) = print ls"
    using assms(4) unfolding prints_alike_def by (auto split: option.splits)
  show ?thesis
    using main_prints [where fs = fs and path = path, OF assms(2,3) k(1-4)]
      micro_prints [where fs = fs and path = path, OF assms(1-3) k(5,6)] by simp
qed

lemma is_print: "(ls, Inr ()) = print ls' \<longleftrightarrow> ls = ls'"
  by (simp add: print_def)

lemma proof_prints:
  assumes "decode_packet proved = Inr pp" and "\<And>p. decode_packet raw = Inr p \<Longrightarrow> harness_proof key p"
  shows "\<exists>ls. proof_result proved key raw = print ls"
  using assms by (cases "decode_packet raw") (auto simp: proof_result_def proof_packet_result_def harness_proof_def andthen_print is_print)

lemma linkproof_prints: "decode_packet req = Inr rp \<Longrightarrow> \<exists>ls. linkproof_result req key raw = print ls"
  by (auto simp: linkproof_result_def andthen_print is_print)

lemma linkdata_prints: "decode_packet req = Inr rp \<Longrightarrow> \<exists>ls. linkdata_result req priv raw = print ls"
  by (auto simp: linkdata_result_def andthen_print is_print)

lemma absent_contents: "wf_blob b \<Longrightarrow> absent b \<Longrightarrow> contents b = []"
  by (cases rule: wf_blob_cases) auto

lemmas kind_tables = kinds_def micro_kinds_def contents_length

context rns_packets
begin

lemma alike_1:
  assumes b: "wf_blob b0" and c: "comparable kind [b0]"
  shows "prints_alike L kind [b0]"
proof -
  consider "kind = ''identity'' \<and> blen b0 = 64" | "kind = ''keyset'' \<and> blen b0 = 64"
    | "kind = ''announce'' \<and> routed (contents b0)" | "kind = ''linkrequest'' \<and> routed (contents b0)"
    using b c by (auto simp: contents_length)
  then show ?thesis
  proof cases
    case 1
    with b show ?thesis
      by (intro prints_alikeI [where ls = "identity_fields (contents b0)"]) (simp_all add: kind_tables dump_identity_fields identity_same)
  next
    case 2
    with b show ?thesis
      by (intro prints_alikeI [where ls = "keyset_fields (contents b0)"]) (simp_all add: kind_tables dump_keyset_fields keyset_same)
  next
    case 3
    with b show ?thesis
      by (intro prints_alikeI [where ls = "announce_fields (contents b0)"]) (simp_all add: kind_tables dump_announce_fields announce_same)
  next
    case 4
    with b show ?thesis
      by (intro prints_alikeI [where ls = "linkrequest_fields (contents b0)"]) (simp_all add: kind_tables dump_linkrequest_fields linkrequest_same)
  qed
qed

lemma alike_2:
  assumes b: "wf_blob b0" "wf_blob b1" and c: "comparable kind [b0, b1]"
  shows "prints_alike L kind [b0, b1]"
proof -
  consider "kind = ''destination'' \<and> harness_name (contents b0) \<and> (absent b1 \<or> \<not> absent b1 \<and> blen b1 = 16)"
    | "kind = ''sign'' \<and> blen b0 = 64"
    using b c by (auto simp: contents_length)
  then show ?thesis
  proof cases
    case 1
    then have "kind_destination L [contents b0, contents b1] (absent b1) = print (destination_fields (contents b0) (contents b1))"
      using b by (intro destination_same) (auto simp: absent_contents contents_length)
    with 1 b show ?thesis
      by (intro prints_alikeI [where ls = "destination_fields (contents b0) (contents b1)"]) (auto simp: kind_tables dump_destination_fields)
  next
    case 2
    with b show ?thesis
      by (intro prints_alikeI [where ls = "sign_fields (contents b0) (contents b1)"]) (simp_all add: kind_tables dump_sign_fields sign_same)
  qed
qed

lemma alike_3:
  assumes b: "wf_blob b0" "wf_blob b1" "wf_blob b2" and c: "comparable kind [b0, b1, b2]"
  shows "prints_alike L kind [b0, b1, b2]"
proof -
  let ?d0 = "contents b0" and ?d1 = "contents b1" and ?d2 = "contents b2"
  note len = contents_length [OF b(1)] contents_length [OF b(2)] contents_length [OF b(3)]
  have "kind = ''signature'' \<and> blen b0 = 64 \<and> blen b2 = 64 \<or>
    kind = ''encrypted'' \<and> blen b0 = 64 \<and> absent b1 \<and> routed ?d2 \<and> if_decoding (harness_encrypted ?d0) ?d2 \<or>
    comparable_packet kind ?d0 ?d1 ?d2"
    using c by (simp add: len)
  then consider (signature) "kind = ''signature''" "blen b0 = 64" "blen b2 = 64"
    | (encrypted) "kind = ''encrypted''" "blen b0 = 64" "absent b1" "routed ?d2" "if_decoding (harness_encrypted ?d0) ?d2"
    | (linkproof) rp where "kind = ''linkproof''" "decode_packet ?d0 = Inr rp" "blen b1 = 64" "routed ?d2"
    | (linkdata) rp where "kind = ''linkdata''" "decode_packet ?d0 = Inr rp" "blen b1 = 32" "routed ?d2"
        "if_decoding (harness_linkdata rp ?d1) ?d2"
    | (delivery) rp where "kind = ''proof''" "decode_packet ?d0 = Inr rp" "blen b1 = 32 \<or> blen b1 = 64" "routed ?d2"
        "if_decoding (harness_proof ?d1) ?d2"
    unfolding comparable_packet_def len by (elim disjE conjE decodingE) simp_all
  then show ?thesis
  proof cases
    case signature
    with b show ?thesis
      by (intro prints_alikeI [where ls = "signature_fields (contents b0) (contents b1) (contents b2)"]) (simp_all add: kind_tables dump_signature_fields signature_same)
  next
    case encrypted
    then have "kind_encrypted L [?d0, ?d1, ?d2] True = print (encrypted_fields ?d0 [] ?d2)"
      using b by (intro encrypted_same) (auto simp: contents_length dest: if_decodingD)
    with encrypted b show ?thesis
      by (intro prints_alikeI [where ls = "encrypted_fields ?d0 [] ?d2"]) (auto simp: kind_tables dump_encrypted_fields absent_contents)
  next
    case linkproof
    then have "kind_linkproof L [?d0, ?d1, ?d2] = linkproof_result ?d0 ?d1 ?d2"
      using len by (intro linkproof_same) auto
    moreover obtain ls where "linkproof_result ?d0 ?d1 ?d2 = print ls" using linkproof_prints [OF linkproof(2)] by blast
    ultimately show ?thesis using linkproof b
      by (intro prints_alikeI [where ls = ls]) (simp_all add: kind_tables dump_linkproof_result)
  next
    case linkdata
    then have "kind_linkdata L [?d0, ?d1, ?d2] = linkdata_result ?d0 ?d1 ?d2"
      using len by (intro linkdata_same) (auto dest: if_decodingD)
    moreover obtain ls where "linkdata_result ?d0 ?d1 ?d2 = print ls" using linkdata_prints [OF linkdata(2)] by blast
    ultimately show ?thesis using linkdata b
      by (intro prints_alikeI [where ls = ls]) (simp_all add: kind_tables dump_linkdata_result)
  next
    case delivery
    then have "kind_proof L [?d0, ?d1, ?d2] = proof_result ?d0 ?d1 ?d2"
      using len routed_decoded by (intro proof_same) (auto dest: if_decodingD)
    moreover obtain ls where "proof_result ?d0 ?d1 ?d2 = print ls" using proof_prints [OF delivery(2) if_decodingD [OF delivery(5)]] by blast
    ultimately show ?thesis using delivery b
      by (intro prints_alikeI [where ls = ls]) (auto simp: kind_tables dump_proof_result)
  qed
qed

lemma comparable_alike:
  assumes "\<forall>b \<in> set bs. canonical b" and "comparable kind bs"
  shows "prints_alike L kind bs"
proof -
  have "\<forall>b \<in> set bs. wf_blob b" using assms(1) canonical_wf by blast
  then show ?thesis
    using assms(2) by (induction kind bs rule: comparable.induct)
      (auto simp del: comparable.simps(1-3) intro: alike_1 alike_2 alike_3)
qed

end

section \<open>An instance: the library made of the functions of cmd/dump\<close>

text \<open>An identity is its private and its public key, a packet what its bytes decode to, a key and a
  token their bytes.\<close>

definition reference_constants :: "(string \<times> nat) list" where
  "reference_constants =
    [(''HEADER_MINSIZE'', 19), (''HEADER_MAXSIZE'', 35), (''DERIVED_KEY_LENGTH'', 64), (''MODE_AES256_CBC'', 1),
     (''CONTEXT_NONE'', 0x00), (''RESOURCE'', 0x01), (''RESOURCE_ADV'', 0x02), (''RESOURCE_REQ'', 0x03),
     (''RESOURCE_HMU'', 0x04), (''RESOURCE_PRF'', 0x05), (''RESOURCE_ICL'', 0x06), (''RESOURCE_RCL'', 0x07),
     (''REQUEST'', 0x09), (''RESPONSE'', 0x0a), (''PATH_RESPONSE'', 0x0b), (''CHANNEL'', 0x0e),
     (''KEEPALIVE'', 0xfa), (''LINKIDENTIFY'', 0xfb), (''LINKCLOSE'', 0xfc), (''LINKPROOF'', 0xfd),
     (''LRRTT'', 0xfe), (''LRPROOF'', 0xff)]"

definition opened :: "bytes option \<Rightarrow> bytes \<Rightarrow> bytes" where
  "opened key bs = (case key of None \<Rightarrow> [] | Some k \<Rightarrow> (case tok.unseal k bs of None \<Rightarrow> [] | Some m \<Rightarrow> m))"

definition part_held :: "(packet \<Rightarrow> bytes) \<Rightarrow> packet option \<Rightarrow> bytes" where
  "part_held part q = (case q of None \<Rightarrow> [] | Some p \<Rightarrow> part p)"

definition announcement_valid :: "packet option \<Rightarrow> bool" where
  "announcement_valid q = (case q of None \<Rightarrow> False | Some p \<Rightarrow>
     (case decode_announcement (fl_context_flag (p_flags p)) (p_payload p) of
        Inl f \<Rightarrow> False
      | Inr a \<Rightarrow> ed_valid (drop 32 (an_public_key a)) (an_signature a) (signed_part (p_destination p) a)))"

definition reference_rns :: "(bytes \<times> bytes, packet option, bytes, bytes) rns" where
  "reference_rns =
    \<lparr>rns_constant = (\<lambda>name. case map_of reference_constants name of None \<Rightarrow> 0 | Some n \<Rightarrow> n),
     rns_to_hex = hex_bytes,
     rns_assign_hex = (\<lambda>s. case snd (unhex_pairs s s) of Inl e \<Rightarrow> Inl s | Inr b \<Rightarrow> Inr b),
     rns_left = (\<lambda>b n. take n b),
     rns_mid = (\<lambda>b i. drop i b),
     rns_mid_len = (\<lambda>b i n. take n (drop i b)),
     rns_append = (@),
     rns_identity = ([], []),
     rns_load_public_key = (\<lambda>who k. Inr ([], k)),
     rns_load_private_key = (\<lambda>who k. Inr (k, keyset_public k)),
     rns_get_public_key = (\<lambda>who. Inr (snd who)),
     rns_get_private_key = (\<lambda>who. Inr (fst who)),
     rns_hash = (\<lambda>who. Inr (truncated_hash (snd who) 16)),
     rns_validate = (\<lambda>who sig msg. Inr (ed_valid (drop 32 (snd who)) sig msg)),
     rns_sign = (\<lambda>who msg. Inr (ed_signature (drop 32 (fst who)) msg)),
     rns_decrypt = (\<lambda>who pl. Inr (opened (recipient_key (fst who) pl) (drop 32 pl))),
     rns_full_hash = (\<lambda>m. Inr (sha256 m)),
     rns_truncated_hash = (\<lambda>m. Inr (truncated_hash m 16)),
     rns_validate_announce = (\<lambda>q. Inr (announcement_valid q)),
     rns_name_hash = (\<lambda>app aspects. Inr (truncated_hash (app @ (if aspects = [] then [] else 0x2e # aspects)) 10)),
     rns_packet = (\<lambda>raw. Inr (case decode_packet raw of Inl f \<Rightarrow> None | Inr p \<Rightarrow> Some p)),
     rns_unpack = (\<lambda>q. Inr (q \<noteq> None, q)),
     rns_data = part_held p_payload,
     rns_destination_hash = part_held p_destination,
     rns_transport_id = part_held p_transport,
     rns_context = (\<lambda>q. case q of None \<Rightarrow> 0 | Some p \<Rightarrow> p_context p),
     rns_get_hash = (\<lambda>q. Inr (part_held packet_hash q)),
     rns_private_key = Inr,
     rns_public_bytes = (\<lambda>k. Inr (crypto_scalarmult_base k)),
     rns_exchange = (\<lambda>k peer. Inr (crypto_scalarmult k peer)),
     rns_hkdf = (\<lambda>n s salt. Inr (hkdf s salt n)),
     rns_token = Inr,
     rns_verify_hmac = (\<lambda>k bs. Inr (token_valid k bs)),
     rns_token_decrypt = (\<lambda>k bs. Inr (opened (Some k) bs)),
     rns_mode_from_lr = (\<lambda>q. Inr (mode_of (drop 64 (part_held p_payload q)))),
     rns_mode_from_lp = (\<lambda>q. Inr (mode_of (drop 96 (part_held p_payload q)))),
     rns_mtu_from_lr = (\<lambda>q. Inr (signalling_value (drop 64 (part_held p_payload q)) mod 2 ^ 21)),
     rns_mtu_from_lp = (\<lambda>q. Inr (signalling_value (drop 96 (part_held p_payload q)) mod 2 ^ 21)),
     rns_link_id = (\<lambda>q. Inr (part_held link_id q)),
     rns_adv_unpack = (\<lambda>bs. Inl ''not decoded'')\<rparr>"

lemma reference_constant:
  "rns_constant reference_rns name = (case map_of reference_constants name of None \<Rightarrow> 0 | Some n \<Rightarrow> n)"
  by (simp add: reference_rns_def)

interpretation ref_bytes: rns_bytes reference_rns
  by unfold_locales (simp_all add: reference_rns_def)

lemma reference_public: "public_identity reference_rns k ([], k)"
  by (simp add: public_identity_def reference_rns_def)

lemma reference_private: "private_identity reference_rns k (k, keyset_public k)"
  by (auto simp: private_identity_def reference_rns_def opened_def)

interpretation ref_keys: rns_keys reference_rns
proof
  show "\<exists>who. rns_load_public_key reference_rns (rns_identity reference_rns) k = Inr who \<and>
      public_identity reference_rns k who" for k
    using reference_public [of k] by (simp add: reference_rns_def)
  show "\<exists>who. rns_load_private_key reference_rns (rns_identity reference_rns) k = Inr who \<and>
      private_identity reference_rns k who" for k
    using reference_private [of k] by (simp add: reference_rns_def)
qed (auto simp: reference_constant reference_constants_def, (auto simp: reference_rns_def opened_def))

lemma reference_object: "packet_object reference_rns p (Some p)"
  by (simp add: packet_object_def reference_rns_def part_held_def announcement_valid_def)

lemma short_no_packet: "length raw < 19 + 16 * fl_header_type (raw ! 0) \<Longrightarrow> \<exists>f. decode_packet raw = Inl f"
  by (auto simp: decode_packet_def Let_def)

interpretation ref_packets: rns_packets reference_rns
proof
  fix raw p
  assume "decode_packet raw = Inr p"
  then show "\<exists>q q'. rns_packet reference_rns raw = Inr q \<and> rns_unpack reference_rns q = Inr (True, q') \<and>
      packet_object reference_rns p q'"
    using reference_object [of p] by (simp add: reference_rns_def)
next
  fix raw
  assume "length raw < 19 + 16 * fl_header_type (raw ! 0)"
  then show "\<exists>q q'. rns_packet reference_rns raw = Inr q \<and> rns_unpack reference_rns q = Inr (False, q')"
    using short_no_packet [of raw] by (auto simp: reference_rns_def)
qed (simp_all add: reference_constant reference_constants_def)

end
