(* ===== verification/Spec2Isabelle.thy ===== *)
theory Spec2Isabelle
  imports Roundtrip Nacl_Box Harness_Agrees
begin

text \<open>
  A model of cmd/dump.c, the reference decoder and encoder of the Reticulum vector corpus, and of
  the cryptographic code it is linked with, and proofs that the model does what the corpus and the
  standards ask for.

  The program. \<open>dump kind raw\<close> reads a file of hex lines, one blob a line, decodes them as the
  kind says and prints one named value a line. \<open>dump -e kind expect\<close> reads such a record and prints
  the file of hex lines it came from. \<open>dump -l\<close> lists the kinds. A run is one call of \<open>main\<close>; it
  reads one file, keeps no state after it, and ends by returning a status or in \<open>fatal\<close>.

  How C is modelled. A computation is the lines printed so far and its value or the reason it
  stopped: \<open>fatal\<close>, an \<open>abort\<close> of the hash code, or an access outside an object, which the model
  makes a value of its own so that its absence is a theorem and not an assumption (Prelude). A
  pointer is the list of bytes from where it points to the end of its object; a read of \<open>n\<close> bytes
  is \<open>load\<close>, which stops with the access error if the object is shorter. The bytes of a blob lie in
  a static array of 2048 bytes that is zero behind the blob. Machine integers are words of their
  width where the code can wrap (\<open>uint8_t\<close>, \<open>uint32_t\<close>, \<open>uint64_t\<close>), naturals for sizes that are
  bounded by the arrays, and integers for the 64-bit limbs of the field, whose right shifts are
  arithmetic. Local buffers the code fills completely before it reads them are values.

  The theories, in the order of the code:
    Prelude         effects, memory, layouts of records in bytes, lemmas on lists and words
    Text_Format     \<open>printf\<close> conversions, \<open>field\<close>, \<open>field_hex\<close>, hex digits, \<open>strtoul\<close>
    Sha256, Hmac    cmd/sha256.c and cmd/hmac.c, beside FIPS 180-4, RFC 2104 and RFC 5869
    Aes             cmd/aes.c, beside the cipher of FIPS 197 it has to undo
    Tweetnacl       cmd/tweetnacl.c: SHA-512, the field of 2^255 - 19, X25519, Ed25519
    Sha512          its hash beside the SHA-512 of FIPS 180-4
    Limbs           numbers in limbs; Curve_Field: the field code computes modulo 2^255 - 19;
                    Field_Bounds: and never leaves 64-bit limbs
    X25519          \<open>crypto_scalarmult\<close> beside RFC 7748
    Scalars         \<open>modL\<close> and \<open>reduce\<close>: residues modulo the order of the group
    Curve_Points    points in extended coordinates beside RFC 8032; Ed25519: key generation,
                    signing and verifying beside RFC 8032
    Secretbox       the half of cmd/tweetnacl.c that dump.c never calls: Salsa20, Poly1305, secretbox,
                    box; Salsa20 and Poly1305: beside the specification of one and RFC 8439 for the
                    other; Nacl_Box: the streams, sealing and opening
    Files           \<open>readline\<close>, \<open>decode_hex\<close>, \<open>readraw\<close>, \<open>readexpect\<close>, \<open>lookup\<close>, \<open>struct blob\<close>
    Keys            the wrappers of the cryptography; identity, keyset, destination, signature, sign
    Packet, Wire    the packet header, announces, plain packets and path requests; the abstract
                    packet and its layout, which \<open>parse_header\<close> and \<open>parse_announce\<close> refine
    Token           \<open>token_open\<close> and the kinds encrypted and group; the token scheme
    Link            packet hashes and link ids; linkrequest, linkproof, proof, resourceproof
    Msgpack         the \<open>mp_\<close> readers; Msgpack_Values: the values umsgpack writes and their bytes
    Resource        \<open>print_resource\<close> and \<open>dump_linkdata\<close>, with advertisements as maps
    Ifac            interface access codes
    Encode          \<open>struct out\<close> and the \<open>put_\<close> functions, \<open>encode_layout\<close>, the two other encoders
    Rebuild         each kind's encoder on the record its decoder prints
    Reread          files written and read again; Records: every record can be read again
    Program         the table \<open>kinds\<close> and \<open>main\<close>; Roundtrip: two runs of the program
    Harness         conformance/microReticulum/dump.cpp over the library it calls; Harness_Laws: what
                    it relies on, and the kinds without a packet; Harness_Packets: the others;
                    Harness_Agrees: the whole program beside \<open>dump\<close>
  This theory states the properties.

  How the parts meet. \<open>main\<close> finds the kind, \<open>readraw\<close> fills the blobs, the kind's \<open>dump_\<close> function
  runs. Packet kinds call \<open>open_packet\<close> (\<open>parse_header\<close>, then \<open>print_header\<close> or \<open>print_fault\<close>) and
  work on the payload the header points at, which is the tail of the blob and not a copy. Kinds
  that decrypt agree on a key (\<open>x25519_shared\<close>, \<open>hkdf_sha256\<close>), open the token and hand its
  plaintext to the msgpack reader. The other direction reads the record with \<open>readexpect\<close>, looks
  values up by name and puts their hex digits one after the other into \<open>struct out\<close>.

  The abstract side of each part is a pure function of exact byte strings: \<open>decode_packet\<close> and
  \<open>packet_bytes\<close>, \<open>decode_announcement\<close>, the token scheme \<open>seal\<close> and \<open>unseal\<close>, \<open>link_id\<close> and
  \<open>packet_hash\<close> of a packet, \<open>pack\<close> of a msgpack value, \<open>ifac_wrap\<close> and \<open>ifac_unwrap\<close>, and for each
  kind the list of its lines (\<open>announce_fields\<close>, \<open>linkdata_result\<close> and so on). The code, which works
  on pointers into larger arrays and prints as it goes, is shown equal to them. Interfaces are
  locales, each interpreted on the code's definitions: \<open>layout\<close> (a decoder and a printer that are
  inverse; packets and announcements), \<open>mac32\<close> and \<open>hash32\<close> (what HMAC and HKDF need),
  \<open>block_cipher\<close> (CBC over AES), \<open>token_scheme\<close> (tokens over HMAC and CBC), \<open>mp_reader\<close> (a reader
  that consumes a prefix and refuses any input cut short; all of the \<open>mp_\<close> functions), \<open>rns_bytes\<close>,
  \<open>rns_keys\<close> and \<open>rns_packets\<close> (the library behind the harness; its laws are stated with the
  functions of \<open>dump\<close>, and they hold of a library made of these functions).

  The harness. conformance/microReticulum/dump.cpp is a program with the arguments and the output of
  \<open>dump\<close> that takes every value from another implementation, whose code is not in the repository.
  That code is the record \<open>rns\<close>, an argument of the definitions in Harness. What \<open>dump\<close> checks and the
  harness leaves to the library, or does not check at all, is not compared: keys of a wrong length,
  packets at the hop limit, a proof of a length no proof has, link requests that do not decode, tokens
  whose MAC is right and whose padding is not, ratchets, and the contexts of which the library reads
  nothing, for which the harness prints dashes.

  Bounds and termination. Every function of the model is total: loops over arrays are structural,
  \<open>mp_skip\<close> recurses on what is left to read, the SHA-256 loop on the length of the data. No fuel is
  used. The limbs of the field are integers in the model; that no operation on them leaves 64 bits
  is shown for operands up to 2^24, and \<open>within\<close>, \<open>ladder_ok\<close>, \<open>point_ok\<close> and \<open>round_inv\<close> show that all
  operands stay there. That the buffers are large enough is part of the results: \<open>struct out\<close> holds
  any record of a packet that fitted a blob, \<open>KVVALUE\<close> and \<open>EXPECTLINE\<close> hold any printed value, no run
  calls HMAC on more than \<open>HMAC_MAXMSG\<close> bytes of message.

  Not modelled. The header cmd/tweetnacl.h, macros that rename functions. The text that goes to
  standard error is a value of \<open>fatal\<close> but no property is about its wording. A seek or read error in
  the middle of a file, which \<open>fgets\<close> reports as its end. The harnesses under conformance/ that are
  written in Python, JavaScript, Go, Elixir and Rust. cmd/check and the workflows, which compare files
  and call the program.
\<close>

unbundle bit_operations_syntax

section \<open>Examples\<close>

text \<open>A packet with a payload of any length, a map of an advertisement and the same packet as a relay
  sends it on, for the instances below.\<close>

definition sample :: "nat \<Rightarrow> packet" where
  "sample n = \<lparr>p_flags = 0, p_hops = 3, p_transport = [], p_destination = replicate 16 0x11, p_context = 0,
     p_payload = replicate n 0x22\<rparr>"

definition sample_raw :: "nat \<Rightarrow> bytes" where
  "sample_raw n = packet_bytes (sample n)"

lemma sample_wf: "wf_packet (sample n)"
  by (simp add: sample_def wf_packet_def flag_digits)

lemma sample_decode: "decode_packet (sample_raw n) = Inr (sample n)"
  by (simp add: sample_raw_def decode_packet_bytes sample_wf)

lemma sample_length [simp]: "length (sample_raw n) = 19 + n"
  by (simp add: sample_raw_def packet_bytes_def sample_def)

definition sample_adv :: "(mv \<times> mv) list" where
  "sample_adv = [(Str [0x74], Num 0xcd [1, 0]), (Str [0x7a], Arr [Atom 1, Bin [5]]), (Str [0x64], Atom 7)]"

lemma sample_adv_wf: "wf_mv (Map sample_adv)"
  by (simp add: sample_adv_def num_sizes_def atom_head_def)


lemma kinds_plain: "\<exists>k \<in> set kinds. k_name k = ''plain'' \<and> k_blobs k = 1"
  by (simp add: kinds_def)

definition poly_example_key :: bytes where
  "poly_example_key = [0x85, 0xd6, 0xbe, 0x78, 0x57, 0x55, 0x6d, 0x33, 0x7f, 0x44, 0x52, 0xfe, 0x42, 0xd5, 0x06, 0xa8,
    0x01, 0x03, 0x80, 0x8a, 0xfb, 0x0d, 0xb2, 0xfd, 0x4a, 0xbf, 0xf6, 0xaf, 0x41, 0x49, 0xf5, 0x1b]"

definition poly_example_text :: bytes where
  "poly_example_text = [0x43, 0x72, 0x79, 0x70, 0x74, 0x6f, 0x67, 0x72, 0x61, 0x70, 0x68, 0x69, 0x63, 0x20, 0x46, 0x6f,
    0x72, 0x75, 0x6d, 0x20, 0x52, 0x65, 0x73, 0x65, 0x61, 0x72, 0x63, 0x68, 0x20, 0x47, 0x72, 0x6f, 0x75, 0x70]"

lemma poly_example_tag: "rfc_poly1305 poly_example_text poly_example_key =
 [0xa8, 0x06, 0x1d, 0xc1, 0x30, 0x51, 0x36, 0xc6, 0xc2, 0x2b, 0x8b, 0xaf, 0x0c, 0x01, 0x27, 0xa9]"
proof -
  have r: "poly_clamp (le_value (take 16 poly_example_key)) = 10669302975710760130990824415874176645"
  proof -
    have "poly_clamp (le_value (take 16 poly_example_key)) = le_value (map2 (AND) (take 16 poly_example_key) poly_mask)"
      by (rule poly_clamp_mask) (simp add: poly_example_key_def)
    also have "\<dots> = 10669302975710760130990824415874176645" by (simp add: poly_example_key_def poly_mask_def)
    finally show ?thesis .
  qed
  have s: "le_value (take 16 (drop 16 poly_example_key)) = 37162754436723567162214218529947779841" by (simp add: poly_example_key_def)
  have c: "chunks 16 poly_example_text = [take 16 poly_example_text, take 16 (drop 16 poly_example_text), drop 32 poly_example_text]"
    by (simp add: chunks.simps poly_example_text_def)
  have b: "le_value (take 16 poly_example_text @ [1]) = 488190792146479154074422404328004874819" "le_value (take 16 (drop 16 poly_example_text) @ [1]) = 488420038913626820254393826701277492594" "le_value (drop 32 poly_example_text @ [1]) = 94325"
    by (simp_all add: poly_example_text_def)
  have a: "poly_eval 10669302975710760130990824415874176645 0 (chunks 16 poly_example_text) = 868244031557762678448005180662195487655"
    by (simp add: c b poly_p_def)
  show ?thesis
    unfolding rfc_poly1305_def Let_def r s a by (simp add: le_bytes_numeral)
qed

lemma blob_canonical: "bs \<noteq> [] \<Longrightarrow> length bs \<le> MAXBLOB \<Longrightarrow> canonical (blob_of bs)"
  by (simp add: canonical_def wf_blob_of)

lemma sample_routed: "routed (sample_raw n)"
  using routed_decoded [OF sample_decode] .

section \<open>The program\<close>

text \<open>C1: a file that holds the blobs of a kind is decoded by one run of the program, and the record
  that run prints, read by a second run with \<open>-e\<close>, gives back the file line for line, both with
  status 0. It holds for every kind of the encode class and all blobs on which the decoder reports
  no fault (\<open>rebuildable\<close>: lengths as the kind wants them, a header that parses, a payload long
  enough for its layout), through the readers, the decoders, the cryptography that fills in the
  derived fields, the record's text and the encoder.\<close>

theorem decode_then_encode:
  assumes "k \<in> set kinds" and "length bs = k_blobs k" and "\<forall>b \<in> set bs. canonical b"
    and "rebuildable (k_name k) bs" and "fs path = Some (render (raw_lines bs))"
  shows "\<exists>ls. main [a, k_name k, path] fs = (ls, Inr 0) \<and>
    (\<forall>fs' path'. fs' path' = Some (render ls) \<longrightarrow>
       main [a, ''-e'', k_name k, path'] fs' = (raw_lines bs, Inr 0))"
  using assms main_rounds by blast

theorem decode_then_encode_witness:
  "\<exists>ls. main [''dump'', ''plain'', ''raw''] [''raw'' \<mapsto> render (raw_lines [blob_of (sample_raw 20)])] = (ls, Inr 0) \<and>
     main [''dump'', ''-e'', ''plain'', ''expect''] [''expect'' \<mapsto> render ls] =
       (raw_lines [blob_of (sample_raw 20)], Inr 0)"
proof -
  obtain k where k: "k \<in> set kinds" "k_name k = ''plain''" "k_blobs k = 1" using kinds_plain by blast
  have "canonical (blob_of (sample_raw 20))"
    using sample_length [of 20] by (cases "sample_raw 20") (simp_all add: canonical_def wf_blob_of MAXBLOB_def del: sample_length)
  moreover have "rebuildable ''plain'' [blob_of (sample_raw 20)]"
    by (simp add: rebuildable_simps packet_with_def sample_decode wf_blob_of MAXBLOB_def)
  ultimately show ?thesis
    using decode_then_encode [OF k(1), of "[blob_of (sample_raw 20)]" "[''raw'' \<mapsto> render (raw_lines [blob_of (sample_raw 20)])]"
      "''raw''" "''dump''"] k(2,3) by force
qed

text \<open>C2: every run of the program, for any arguments and any files, ends in an exit of the process:
  with status 2 for a usage error, otherwise with 0 or with the 1 of \<open>fatal\<close>. No run reads or
  writes outside an object, and no run reaches an \<open>abort\<close> of the hash code.\<close>

theorem every_run_exits:
  "exit_status (main argv fs) =
    (if \<not> good_usage argv then Some 2 else if returns (main argv fs) then Some 0 else Some 1)"
  by (rule main_status)

text \<open>C3: a file with one blob of any content is answered by the kinds that need nothing but a packet:
  the run returns with status 0, so a rejected packet is an answer (its fault) and never a failure of
  the program.\<close>

theorem packet_kinds_answer:
  assumes "k \<in> set kinds" and "k_name k \<in> {''announce'', ''plain'', ''pathrequest'', ''linkrequest''}"
    and "canonical b" and "fs path = Some (render (raw_lines [b]))"
  shows "returns (main [a, k_name k, path] fs) \<and> exit_status (main [a, k_name k, path] fs) = Some 0"
proof -
  have r: "readraw path (Some (render (raw_lines [b]))) (replicate MAXBLOBS zero_blob) MAXBLOBS =
      ret ([b] @ replicate 3 zero_blob, 1)"
    using readraw_written [of "[b]" MAXBLOBS path] assms(3) by (simp add: MAXBLOBS_def)
  have w: "wf_blob b" using assms(3) by (rule canonical_wf)
  have "\<exists>ls. k_decode k (b # replicate 3 zero_blob) = print ls \<and> k_blobs k = 1"
    using assms(2) kind_fields(4-6,9) [OF assms(1)] w
    by (auto simp: dump_announce_fields dump_plain_fields dump_pathrequest_fields dump_linkrequest_fields)
  then obtain ls where "decode_kind k path (fs path) = print ls"
    using r assms(4) by (auto simp: decode_kind_def)
  then have "main [a, k_name k, path] fs = (ls, Inr 0)"
    by (simp add: main_decode run_kind_def find_kinds [OF assms(1)] andthen_print ret_def)
  then show ?thesis by (simp add: returns_def exit_status_def)
qed

theorem packet_kinds_answer_witness:
  "exit_status (main [''dump'', ''plain'', ''raw''] [''raw'' \<mapsto> render (raw_lines [absent_blob])]) = Some 0"
proof -
  obtain k where k: "k \<in> set kinds" "k_name k = ''plain''" using kinds_plain by blast
  then show ?thesis
    using packet_kinds_answer [OF k(1), of absent_blob "[''raw'' \<mapsto> render (raw_lines [absent_blob])]" "''raw''" "''dump''"]
    by (simp add: canonical_def)
qed

section \<open>Packets\<close>

text \<open>C4: \<open>parse_header\<close> on the first \<open>length raw\<close> bytes of an array reads nothing behind them and
  returns what the decoder over exact byte strings does: its fault, or its packet, each field of
  which the structure points at.\<close>

theorem header_parsed:
  "parse_header (raw @ z) (length raw) =
     ret (case decode_packet raw of Inl f \<Rightarrow> Inl f | Inr p \<Rightarrow> Inr (header_of p z))"
  by (rule parse_header_refines)


text \<open>C6: \<open>put_header\<close> is the inverse of \<open>print_header\<close>: from any record that starts with the header
  lines of a packet it rebuilds the packet's bytes up to the payload, whichever way flags, hops and
  a named context were printed.\<close>

theorem header_put_back:
  assumes "wf_packet p" and "length (packet_bytes p) \<le> MAXBLOB"
  shows "put_header [] (record_of (header_fields p) @ f) = ret (hex_bytes (take (19 + 16 * fl_header_type (p_flags p)) (packet_bytes p)))"
proof -
  have l: "length (header_bytes p) = 19 + 16 * fl_header_type (p_flags p)" "length (header_bytes p) \<le> MAXBLOB"
    using assms packet_bytes_length [of p] by (simp_all add: packet_bytes_header)
  then show ?thesis
    using put_header_carries [OF carries_fields assms(1) l(2)] by (simp add: packet_bytes_header)
qed

theorem header_put_back_witness:
  "put_header [] (record_of (header_fields (sample 5))) = ret (hex_bytes (take 19 (sample_raw 5)))"
  using header_put_back [OF sample_wf, of 5 "[]"] sample_length [of 5]
  by (simp add: sample_raw_def MAXBLOB_def) (simp add: sample_def fl_header_type_def)

text \<open>C7: the decoder of announces prints the fields of the payload at their offsets, with and without
  a ratchet, then the destination hash the identity and the name give and whether it is the packet's,
  and whether the signature over the destination and every field but itself is valid; a header or a
  payload cut short prints its fault and nothing else.\<close>

theorem announce_printed:
  assumes "wf_blob (b ! 0)"
  shows "dump_announce b = print (announce_fields (contents (b ! 0)))"
  using assms by (rule dump_announce_fields)

theorem announce_printed_witness:
  "dump_announce [blob_of (sample_raw 150)] = print (announce_fields (sample_raw 150))"
  using announce_printed [of "[blob_of (sample_raw 150)]"] by (simp add: wf_blob_of MAXBLOB_def)

text \<open>C8: the decoder of plain packets prints the eleven header lines and the payload with its length, or
  the fault of the header. The decoder of path requests takes 16 bytes as the wanted hash and, only if
  more than 32 bytes are there, the next 16 as the requester; the rest is the tag, of which the
  duplicate check sees 16 bytes behind the wanted hash, or nothing if there is no tag; fewer than 16
  bytes are a fault.\<close>

theorem unkeyed_printed:
  assumes "wf_blob (b ! 0)"
  shows "dump_plain b = print (plain_fields (contents (b ! 0))) \<and>
    dump_pathrequest b = print (pathrequest_fields (contents (b ! 0)))"
  using assms dump_plain_fields dump_pathrequest_fields by blast

theorem unkeyed_printed_witness:
  "dump_plain [blob_of (sample_raw 20)] = print (plain_fields (sample_raw 20)) \<and>
   dump_pathrequest [blob_of (sample_raw 20)] = print (pathrequest_fields (sample_raw 20))"
  using unkeyed_printed [of "[blob_of (sample_raw 20)]"] by (simp add: wf_blob_of MAXBLOB_def)

section \<open>Links\<close>



text \<open>C10: a link request of 64 or 67 payload bytes prints its two public keys, the mode and MTU of the
  signalling bytes (21 low bits and 3 high bits of 24) or their defaults, and the link id, which
  leaves the signalling out; any other length prints the fault with both lengths.\<close>

theorem linkrequest_printed:
  assumes "wf_blob (b ! 0)"
  shows "dump_linkrequest b = print (linkrequest_fields (contents (b ! 0)))"
  using assms by (rule dump_linkrequest_fields)

theorem linkrequest_printed_witness:
  "dump_linkrequest [blob_of (sample_raw 67)] = print (linkrequest_fields (sample_raw 67))"
  using linkrequest_printed [of "[blob_of (sample_raw 67)]"] by (simp add: wf_blob_of MAXBLOB_def)

text \<open>C11: a link proof is checked against the link id of its request: the code prints whether the proof
  is addressed to it and whether the signature over link id, ephemeral key, the signer's key and the
  signalling holds. A request that does not decode is fatal after the two given blobs are printed.\<close>

theorem linkproof_printed:
  assumes "wf_blob (b ! 0)" "wf_blob (b ! 1)" "wf_blob (b ! 2)" and "blen (b ! 1) = 64"
  shows "dump_linkproof b = linkproof_result (contents (b ! 0)) (contents (b ! 1)) (contents (b ! 2))"
  using assms by (rule dump_linkproof_result)

theorem linkproof_printed_witness:
  "dump_linkproof [blob_of (sample_raw 64), blob_of (replicate 64 7), blob_of (sample_raw 96)] =
    linkproof_result (sample_raw 64) (replicate 64 7) (sample_raw 96)"
  using linkproof_printed [of "[blob_of (sample_raw 64), blob_of (replicate 64 7), blob_of (sample_raw 96)]"]
  by (simp add: wf_blob_of MAXBLOB_def)

text \<open>C12: a packet proof, implicit (64 bytes) or explicit (96 bytes), on a link or to a destination: the
  code prints the proved packet's hash, whether an explicit hash and the proof's address match it, and
  whether the signature over the hash holds under the key of the size the address asks for; the
  other size is fatal. A resource proof prints its hash, its proof and whether the hash is the
  advertised one; a payload that is not 64 bytes long is a fault after the header.\<close>

theorem proofs_printed:
  assumes "wf_blob (b ! 0)" "wf_blob (b ! 1)" "wf_blob (b ! 2)"
  shows "(blen (b ! 1) = 64 \<or> blen (b ! 1) = 32 \<longrightarrow>
      dump_proof b = proof_result (contents (b ! 0)) (contents (b ! 1)) (contents (b ! 2))) \<and>
    (blen (b ! 0) = 32 \<longrightarrow>
      dump_resourceproof b = print (resourceproof_fields (contents (b ! 0)) (contents (b ! 1))))"
  using assms dump_proof_result dump_resourceproof_fields by blast

theorem proofs_printed_witness:
  "dump_proof [blob_of (replicate 32 7), blob_of (replicate 64 7), blob_of (sample_raw 96)] =
     proof_result (replicate 32 7) (replicate 64 7) (sample_raw 96) \<and>
   dump_resourceproof [blob_of (replicate 32 7), blob_of (sample_raw 64), blob_of []] =
     print (resourceproof_fields (replicate 32 7) (sample_raw 64))"
  using proofs_printed [of "[blob_of (replicate 32 7), blob_of (replicate 64 7), blob_of (sample_raw 96)]"]
    proofs_printed [of "[blob_of (replicate 32 7), blob_of (sample_raw 64), blob_of []]"]
  by (simp add: wf_blob_of MAXBLOB_def)



section \<open>Tokens\<close>

text \<open>C14: what is sealed under a key (AES-128 or AES-256 by its length, CBC, PKCS7, then HMAC over iv and
  ciphertext) opens under it: \<open>token_open\<close> returns with the MAC accepted and the very message.\<close>

theorem token_opens_sealed:
  assumes "token_key k" and "length iv = 16" and "length (tok.seal k iv m) \<le> MAXBLOB"
  shows "\<exists>t. token_open (tok.seal k iv m) (length (tok.seal k iv m)) (Some k) (length k) = ret t \<and>
    t_opened t \<and> t_mac_ok t \<and> t_ptlen t = length m \<and> take (length m) (t_plain t) = m"
proof -
  have l: "48 \<le> length (tok.seal k iv m)" using tok.seal_length [OF assms(2)] by simp
  have u: "tok.unseal k (tok.seal k iv m) = Some m" by (rule tok.unseal_seal [OF assms(1,2)])
  obtain t where "token_open (tok.seal k iv m @ []) (length (tok.seal k iv m)) (Some (k @ [])) (length k) = ret t"
    "opens_as t (Some k) (tok.seal k iv m) []"
    using token_open_keyed [OF l assms(3,1)] by blast
  moreover have "token_valid k (tok.seal k iv m)"
    using u unseal_cases [OF l] by (metis option.distinct(1))
  ultimately show ?thesis using u by (auto simp: opens_as_def)
qed

theorem token_opens_sealed_witness:
  "\<exists>t. token_open (tok.seal (replicate 64 1) (replicate 16 2) [3]) (length (tok.seal (replicate 64 1) (replicate 16 2) [3]))
      (Some (replicate 64 1)) 64 = ret t \<and> t_opened t \<and> take 1 (t_plain t) = [3]"
proof -
  have "length (tok.seal (replicate 64 1) (replicate 16 2) [3]) = 64"
    by (simp add: tok.seal_length token_encrypt_def aes_cbc_encrypt_length pkcs7_pad_def Let_def)
  then show ?thesis
    using token_opens_sealed [of "replicate 64 1" "replicate 16 2" "[3]"] by (auto simp: token_key_def MAXBLOB_def)
qed

text \<open>C15: a token opens only if its last 32 bytes are the HMAC of all bytes before them, iv included, and
  then to a message at least 48 bytes shorter than the token.\<close>

theorem token_authentic:
  assumes "48 \<le> length bs" and "length bs \<le> MAXBLOB" and "token_key k"
    and "token_open (bs @ z) (length bs) (Some (k @ z')) (length k) = ret t" and "t_opened t"
  shows "(\<exists>body. bs = body @ rfc_hmac sha256 (mac_half k) body \<and> 16 \<le> length body) \<and> t_ptlen t + 48 \<le> length bs"
proof -
  have o: "opens_as t (Some k) bs z"
    using token_open_keyed [OF assms(1-3), of z z'] assms(4) by (auto simp: ret_inj)
  then obtain m where "tok.unseal k bs = Some m" "t_ptlen t = length m"
    using assms(5) by (auto simp: opens_as_def split: option.splits)
  then show ?thesis using tok.unseal_authentic [of k bs m] by (auto simp: token_mac_def)
qed

theorem token_authentic_witness:
  "\<exists>t. token_open (tok.seal (replicate 64 1) (replicate 16 2) [3]) (length (tok.seal (replicate 64 1) (replicate 16 2) [3]))
      (Some (replicate 64 1)) 64 = ret t \<and> t_ptlen t + 48 \<le> 64"
proof -
  define k :: bytes where "k = replicate 64 1"
  define bs where "bs = tok.seal k (replicate 16 2) [3]"
  have key: "token_key k" by (simp add: token_key_def k_def)
  have l: "length bs = 64"
    by (simp add: bs_def tok.seal_length token_encrypt_def aes_cbc_encrypt_length pkcs7_pad_def Let_def)
  have u: "tok.unseal k bs = Some [3]" unfolding bs_def by (rule tok.unseal_seal [OF key]) simp
  obtain t where t: "token_open (bs @ []) (length bs) (Some (k @ [])) (length k) = ret t" "opens_as t (Some k) bs []"
    using token_open_keyed [of bs k "[]" "[]"] l key by (auto simp: MAXBLOB_def)
  then have "t_opened t" using u by (simp add: opens_as_def)
  then have "t_ptlen t + 48 \<le> 64"
    using token_authentic [of bs k "[]" "[]" t] t(1) l key by (simp add: MAXBLOB_def)
  then show ?thesis using t(1) by (auto simp: bs_def k_def)
qed

text \<open>C16: the decoder of encrypted packets agrees on the key with the ratchet scalar if there is one and
  the identity's otherwise, salted with the identity hash, prints the agreement (dashes for a key of
  low order) and opens the token behind the ephemeral key; fewer than 80 bytes are a fault. The
  decoder of group packets splits the group key into its signing and encryption half and opens the
  whole payload as a token under it; fewer than 48 bytes are a fault.\<close>

theorem tokens_printed:
  assumes "wf_blob (b ! 0)" "wf_blob (b ! 1)" "wf_blob (b ! 2)"
  shows "(blen (b ! 0) = 64 \<and> (absent (b ! 1) \<or> blen (b ! 1) = 32) \<longrightarrow>
      dump_encrypted b = print (encrypted_fields (contents (b ! 0)) (contents (b ! 1)) (contents (b ! 2)))) \<and>
    (token_key (contents (b ! 0)) \<longrightarrow>
      dump_group b = print (group_fields (contents (b ! 0)) (contents (b ! 1))))"
  using assms dump_encrypted_fields dump_group_fields by blast

theorem tokens_printed_witness:
  "dump_encrypted [blob_of (replicate 64 7), absent_blob, blob_of (sample_raw 96)] =
     print (encrypted_fields (replicate 64 7) [] (sample_raw 96)) \<and>
   dump_group [blob_of (replicate 32 7), blob_of (sample_raw 64), absent_blob] =
     print (group_fields (replicate 32 7) (sample_raw 64))"
  using tokens_printed [of "[blob_of (replicate 64 7), absent_blob, blob_of (sample_raw 96)]"]
    tokens_printed [of "[blob_of (replicate 32 7), blob_of (sample_raw 64), absent_blob]"]
  by (simp add: wf_blob_of MAXBLOB_def token_key_def)

section \<open>Advertisements\<close>





text \<open>C19: a map the plaintext ran out of is nothing: every proper prefix of its encoding prints dashes
  throughout, never a field that happened to be complete.\<close>

theorem advertisement_cut:
  assumes "wf_mv (Map kvs)" and "pack (Map kvs) = pre @ post" and "post \<noteq> []"
  shows "print_adv (stream pre) = print dashes"
  using assms by (rule print_adv_cut)

theorem advertisement_cut_witness: "print_adv (stream (butlast (pack (Map sample_adv)))) = print dashes"
  using advertisement_cut [OF sample_adv_wf, of "butlast (pack (Map sample_adv))" "[last (pack (Map sample_adv))]"]
    pack_nonempty [of "Map sample_adv"] by simp

text \<open>C20: \<open>mp_skip\<close> steps over exactly one value, however deep it is nested, and goes bad on every proper
  prefix of it.\<close>

theorem skip_one_value:
  assumes "wf_mv v"
  shows "mp_skip (stream (pack v @ x)) = stream x \<and>
    (\<forall>pre post. pack v = pre @ post \<and> post \<noteq> [] \<longrightarrow> mp_bad (mp_skip (stream pre)))"
proof -
  have s: "steps mp_skip (pack v)" by (rule skip_pack [OF assms])
  then have r: "reads skip_value () (pack v)" by (simp add: steps_reads skip_value_def [abs_def])
  then have "mp_bad (mp_skip (stream pre))" if "pack v = pre @ post" "post \<noteq> []" for pre post
    using skip.refuses_prefix [of "()" pre post] that by (simp add: skip_value_def)
  then show ?thesis using s by (auto simp: steps_def)
qed

theorem skip_one_value_witness: "mp_skip (stream (pack (Map sample_adv) @ [9])) = stream [9]"
  using skip_one_value [OF sample_adv_wf] by blast

text \<open>C21: stepping over a value that is there uses at least one byte of what is left, so the walk over a
  map or an array ends after at most as many steps as there are bytes, whatever count it announces.\<close>

theorem skip_progress:
  assumes "\<not> mp_bad m" and "\<not> mp_bad (mp_skip m)"
  shows "length (mp_rest (mp_skip m)) < length (mp_rest m)"
proof -
  obtain bs z where m: "m = stream bs" "mp_skip m = stream z" using assms stream_cases by blast
  then have "skip_value (stream bs) = ((), stream z)" by (simp add: skip_value_def)
  then obtain u where u: "bs = u @ z" "reads skip_value () u" using skip.local_read by blast
  have "u \<noteq> []"
  proof
    assume "u = []"
    then have "mp_skip (stream []) = stream []" using u(2) unfolding reads_def skip_value_def by (metis append_Nil prod.inject)
    moreover have "mp_bad (mp_skip (stream []))"
      using mp_skip_head_bad by (auto simp: mp_skip_def mp_head_def split: prod.splits)
    ultimately show False by simp
  qed
  then show ?thesis using m u(1) by simp
qed

theorem skip_progress_witness: "length (mp_rest (mp_skip (stream [0x92, 1, 2, 3]))) < 4"
proof -
  have "mp_skip (stream (pack (Arr [Atom 1, Atom 2]) @ [3])) = stream [3]"
    using skip_pack [of "Arr [Atom 1, Atom 2]"] by (simp add: steps_def atom_head_def)
  then have "mp_skip (stream [0x92, 1, 2, 3]) = stream [3]" by (simp add: arr_head_def)
  then show ?thesis using skip_progress [of "stream [0x92, 1, 2, 3]"] by simp
qed

section \<open>Interface access codes\<close>

text \<open>C22: the decoder of frames derives the network key from name and passphrase, takes the mask off the
  frame but for the access code, removes the code and clears the flag, prints the packet, and
  compares the code with the one that network gives the packet.\<close>

theorem ifac_printed:
  assumes "wf_blob (b ! 0)" "wf_blob (b ! 1)" "wf_blob (b ! 2)" "wf_blob (b ! 3)"
    and "\<not> (absent (b ! 0) \<and> absent (b ! 1))"
    and "contents (b ! 2) = [c]" "1 \<le> unat c" "unat c \<le> 64"
    and "2 + unat c < blen (b ! 3)"
  shows "dump_ifac b = print (ifac_lines (b ! 0) (b ! 1) (unat c) (contents (b ! 3)))"
  using assms by (rule dump_ifac_lines)

theorem ifac_printed_witness:
  "dump_ifac [blob_of [0x61], absent_blob, blob_of [8], blob_of (sample_raw 30)] =
    print (ifac_lines (blob_of [0x61]) absent_blob 8 (sample_raw 30))"
  using ifac_printed [of "[blob_of [0x61], absent_blob, blob_of [8], blob_of (sample_raw 30)]" 8]
  by (simp add: wf_blob_of MAXBLOB_def)



section \<open>Keys and names\<close>

text \<open>C24: an identity prints its two public keys and its hash, the truncated SHA-256 of both; a keyset
  prints its private halves and the identity of the public keys X25519 and Ed25519 give them; a
  destination prints the components of its name split at every dot, empty ones included, the hash of
  the name, and the destination hash of the name hash with the identity hash, if there is one. Sign
  prints the Ed25519 signature of the message under the private half, signature prints whether a given
  signature is valid, which needs its scalar to be canonical besides.\<close>

theorem keys_and_signatures_printed:
  assumes "wf_blob (b ! 0)" "wf_blob (b ! 1)" "wf_blob (b ! 2)"
  shows "(blen (b ! 0) = 64 \<longrightarrow>
      dump_identity b = print (identity_fields (contents (b ! 0))) \<and>
      dump_keyset b = print (keyset_fields (contents (b ! 0))) \<and>
      dump_sign b = print (sign_fields (contents (b ! 0)) (contents (b ! 1))) \<and>
      (blen (b ! 2) = 64 \<longrightarrow>
         dump_signature b = print (signature_fields (contents (b ! 0)) (contents (b ! 1)) (contents (b ! 2))))) \<and>
    (absent (b ! 1) \<or> blen (b ! 1) = 16 \<longrightarrow>
      dump_destination b = print (destination_fields (contents (b ! 0)) (contents (b ! 1))))"
  using assms dump_identity_fields dump_keyset_fields dump_sign_fields dump_signature_fields dump_destination_fields
  by blast

theorem keys_and_signatures_printed_witness:
  "dump_keyset [blob_of (replicate 64 7), blob_of [1], blob_of (replicate 64 9)] = print (keyset_fields (replicate 64 7)) \<and>
   dump_signature [blob_of (replicate 64 7), blob_of [1], blob_of (replicate 64 9)] =
     print (signature_fields (replicate 64 7) [1] (replicate 64 9)) \<and>
   dump_destination [blob_of [0x61, 0x2e, 0x62], absent_blob, absent_blob] =
     print (destination_fields [0x61, 0x2e, 0x62] [])"
  using keys_and_signatures_printed [of "[blob_of (replicate 64 7), blob_of [1], blob_of (replicate 64 9)]"]
    keys_and_signatures_printed [of "[blob_of [0x61, 0x2e, 0x62], absent_blob, absent_blob]"]
  by (simp add: wf_blob_of MAXBLOB_def)

section \<open>Conformance\<close>

text \<open>C25: the harness for another implementation prints exactly what \<open>dump\<close> prints and returns its status,
  for each of its eleven kinds, if the library it calls does what Reticulum documents (the laws of
  \<open>rns_packets\<close>) and the blobs are ones on which the harness makes all the checks that matter
  (\<open>comparable\<close>: keys of their lengths, packets below the hop limit, no ratchet, no context whose
  content the library does not read). So a difference in such a run is one of the library.\<close>

theorem harness_agrees:
  assumes "rns_packets L" and "\<forall>b \<in> set bs. canonical b" and "comparable kind bs"
    and "fs path = Some (render (raw_lines bs))"
  shows "micro_main L [a, kind, path] fs = main [a', kind, path] fs"
proof -
  have "rns_bytes L" using assms(1) by (simp add: rns_packets_def rns_keys_def)
  then show ?thesis
    using assms(2,4) rns_packets.comparable_alike [OF assms(1-3)] by (rule programs_agree)
qed

theorem harness_agrees_witness:
  "micro_main reference_rns [''micro'', ''linkrequest'', ''raw''] [''raw'' \<mapsto> render (raw_lines [blob_of (sample_raw 64)])] =
   main [''dump'', ''linkrequest'', ''raw''] [''raw'' \<mapsto> render (raw_lines [blob_of (sample_raw 64)])] \<and>
   (let bs = [blob_of (sample_raw 64), blob_of (replicate 64 7), blob_of (sample_raw 96)] in
    micro_main reference_rns [''micro'', ''proof'', ''raw''] [''raw'' \<mapsto> render (raw_lines bs)] =
    main [''dump'', ''proof'', ''raw''] [''raw'' \<mapsto> render (raw_lines bs)])"
proof -
  let ?bs = "[blob_of (sample_raw 64), blob_of (replicate 64 7), blob_of (sample_raw 96)]"
  have c: "\<forall>b \<in> set ?bs. canonical b" "\<forall>b \<in> set [blob_of (sample_raw 64)]. canonical b"
    using sample_length [of 64] sample_length [of 96]
    by (auto intro!: blob_canonical simp: MAXBLOB_def simp del: sample_length)
  have "\<not> on_link (sample 96)" by (simp add: on_link_def sample_def fl_destination_type_def)
  then have p: "comparable ''proof'' ?bs" "comparable ''linkrequest'' [blob_of (sample_raw 64)]"
    by (simp_all add: MAXBLOB_def comparable_packet_def sample_routed decoding_def if_decoding_def sample_decode
      harness_proof_def) (simp add: sample_def)
  show ?thesis
    using harness_agrees [OF ref_packets.rns_packets_axioms c(1) p(1)]
      harness_agrees [OF ref_packets.rns_packets_axioms c(2) p(2)] unfolding Let_def by simp
qed

section \<open>Curve\<close>

text \<open>C26: \<open>crypto_scalarmult\<close> is the function X25519 of RFC 7748 over integers modulo 2^255 - 19: its ladder of
  masked swaps on limbs, its clamping on bytes, its chain of squarings for the inverse and its packing
  give the bytes of the least residue, for every scalar and every point.\<close>

theorem x25519_standard:
  assumes "length n = 32" and "length p = 32"
  shows "int (le_value (crypto_scalarmult n p)) = rfc_x25519 (rfc_clamp (le_value n)) (le_value p mod 2 ^ 255) \<and>
    length (crypto_scalarmult n p) = 32"
  using crypto_scalarmult_rfc [OF assms] by simp

theorem x25519_standard_witness:
  "int (le_value (crypto_scalarmult (replicate 32 7) (9 # replicate 31 0))) =
    rfc_x25519 (rfc_clamp (le_value (replicate 32 7))) 9"
proof -
  have z: "le_value (replicate k 0) = 0" for k by (induction k) simp_all
  have b: "le_value (9 # replicate 31 0) mod 2 ^ 255 = 9" unfolding le_value_Cons z by simp
  have "length (replicate 32 7 :: bytes) = 32" "length (9 # replicate 31 0 :: bytes) = 32" by simp_all
  from x25519_standard [OF this] show ?thesis unfolding b by (rule conjunct1)
qed

text \<open>C27: \<open>ed25519_keypair\<close> and \<open>ed25519_sign\<close> are key generation and signing of RFC 8032 over integers:
  the point arithmetic on limbs, the reduction modulo the group order and the hash give the very bytes
  of the RFC's public key and signature, for every seed and message.\<close>

theorem signing_standard:
  assumes "length seed = 32" and "length m \<le> MAXBLOB"
  shows "ed25519_public seed = ret (rfc_public seed) \<and> ed25519_sign seed m = ret (rfc_sign seed m)"
proof -
  have "crypto_sign m (seed @ rfc_public seed) = rfc_sign seed m @ m" using sign_rfc [OF assms(1)] assms(2) by (simp add: MAXBLOB_def)
  moreover have "length (rfc_sign seed m) = 64"
    using arg_cong [OF calculation, of length] by (simp add: crypto_sign_length)
  ultimately show ?thesis using assms keypair_rfc [OF assms(1)] by (simp add: ed_public_def ed_signature_def)
qed

theorem signing_standard_witness:
  "ed25519_sign (replicate 32 7) [0x61, 0x62] = ret (rfc_sign (replicate 32 7) [0x61, 0x62])"
  using signing_standard [of "replicate 32 7" "[0x61, 0x62]"] by (simp add: MAXBLOB_def)

text \<open>C28: \<open>ed25519_verify\<close> accepts exactly what RFC 8032 does over integers, with the decoding of keys as
  the code has it: the scalar below the order, the key a point of the curve, and the packed sum of
  the negated key's multiple and the base point's equal to the first half of the signature.\<close>

theorem verifying_standard:
  assumes "length pk = 32" and "length sig = 64" and "length m \<le> MAXBLOB"
  shows "ed25519_verify pk sig m = ret (rfc_verify pk sig m)"
  using verify_rfc [OF assms(1,2), of m] assms(3) by (simp add: MAXBLOB_def)

theorem verifying_standard_witness:
  "ed25519_verify (replicate 32 1) (replicate 64 2) [3] = ret (rfc_verify (replicate 32 1) (replicate 64 2) [3])"
  using verifying_standard [of "replicate 32 1" "replicate 64 2" "[3]"] by (simp add: MAXBLOB_def)

text \<open>C29: the multiplication of field elements never overflows its 64-bit signed limbs: with every single
  operation checked it returns what the model returns, for operands with limbs up to 2^24; the product
  has limbs below 2^17, so that sums and differences of products are such operands again, and is the
  product modulo the prime.\<close>

theorem field_multiplication:
  assumes "within (2 ^ 24) a" and "within (2 ^ 24) b"
  shows "gf_M_checked a b = Some (gf_M a b) \<and> within 65573 (gf_M a b) \<and>
    fe (gf_M a b) mod prime_p = fe a * fe b mod prime_p"
  using gf_M_checked_ok [OF assms] gf_M_within [OF assms] fe_M [OF within_length [OF assms(1)] within_length [OF assms(2)]]
  by blast

theorem field_multiplication_witness:
  "gf_M_checked (replicate 16 16777216) (replicate 16 (- 16777216)) =
    Some (gf_M (replicate 16 16777216) (replicate 16 (- 16777216)))"
proof -
  have "within (2 ^ 24) (replicate 16 16777216)" "within (2 ^ 24) (replicate 16 (- 16777216))" by (simp_all add: within_def list_all_iff)
  then show ?thesis using field_multiplication by blast
qed

text \<open>C30: \<open>scalar_canonical\<close> compares byte by byte from the top and accepts exactly the scalars below the
  order of the group; \<open>reduce\<close> of any 64 bytes is their residue modulo the order, hence canonical.\<close>

theorem scalars_in_range:
  assumes "length s = 32" and "length r = 64"
  shows "(scalar_canonical s \<longleftrightarrow> le_value s < 2 ^ 252 + 27742317777372353535851937790883648493) \<and>
    le_value (ed_reduce r) = le_value r mod (2 ^ 252 + 27742317777372353535851937790883648493) \<and>
    scalar_canonical (ed_reduce r)"
proof -
  have "0 < group_order" by (simp add: group_order_def)
  then show ?thesis
    using scalar_canonical_less [OF assms(1)] ed_reduce_value [OF assms(2)] scalar_canonical_less [OF ed_reduce_value(2) [OF assms(2)]]
    by (simp add: group_order_def)
qed

theorem scalars_in_range_witness:
  "\<not> scalar_canonical ed25519_L \<and> scalar_canonical (ed_reduce (replicate 64 0xff))"
proof -
  have "length ed25519_L = 32" "le_value ed25519_L = 2 ^ 252 + 27742317777372353535851937790883648493"
    using ed25519_L_value by (simp_all add: ed25519_L_def group_order_def)
  then show ?thesis using scalars_in_range [of ed25519_L "replicate 64 0xff"] by simp
qed

section \<open>Hashes and ciphers\<close>

text \<open>C31: \<open>sha256\<close>, which hashes the whole blocks in place and builds one or two more for the rest,
  computes the hash of FIPS 180-4 on every byte string; \<open>crypto_hash\<close>, which moves a window of sixteen
  schedule words in place, keeps its state as bytes and pads in a buffer of 256, computes the SHA-512
  of FIPS 180-4 on every message shorter than 2^64 bytes.\<close>

theorem hashes_standard:
  "sha256 m = fips_sha256 m \<and> (length m < 2 ^ 64 \<longrightarrow> crypto_hash m = std_sha512 m)"
  using sha256_is_fips crypto_hash_std by blast

theorem hashes_standard_witness: "crypto_hash (replicate 200 0x61) = std_sha512 (replicate 200 0x61)"
  using hashes_standard [of "replicate 200 0x61"] by simp

text \<open>C32: the streams of cmd/tweetnacl.c are XSalsa20. Its core turns a transposed matrix in 64-bit words
  twenty times and counts blocks in a carry over bytes; the specification is ten double rounds of
  quarter rounds on 32-bit words and a hash for each block number.\<close>

theorem salsa20_standard:
  assumes "length n = 24" and "length k = 32" and "d \<le> length m"
  shows "crypto_stream d n k = xsalsa20_stream d n k \<and>
    crypto_stream_xor m d n k = map2 (XOR) (take d m) (xsalsa20_stream d n k)"
  using crypto_stream_xsalsa20 [of n k d] crypto_stream_xor_xsalsa20 [of n k d m] assms by simp

theorem salsa20_standard_witness:
  "crypto_stream_xor (replicate 100 3) 100 (replicate 24 1) (replicate 32 2) =
    map2 (XOR) (replicate 100 3) (xsalsa20_stream 100 (replicate 24 1) (replicate 32 2))"
  using salsa20_standard [of "replicate 24 1" "replicate 32 2" 100 "replicate 100 3"] by simp

text \<open>C33: \<open>crypto_onetimeauth\<close>, seventeen limbs in rows that wrap around and two passes of carries after
  each block, is the Poly1305 of RFC 8439 on every message, and its verification compares all
  sixteen bytes with it.\<close>

theorem poly1305_standard:
  assumes "32 \<le> length k"
  shows "crypto_onetimeauth m k = rfc_poly1305 m k \<and>
    (16 \<le> length h \<longrightarrow> crypto_onetimeauth_verify h m k = (if take 16 h = rfc_poly1305 m k then 0 else - 1))"
proof -
  have "crypto_onetimeauth_verify h m k = (if take 16 h = rfc_poly1305 m k then 0 else - 1)" if "16 \<le> length h"
    using vn_equal [of "take 16 h" 16 "rfc_poly1305 m k"] vn_take [of 16 16 h "rfc_poly1305 m k"] that assms
    by (simp add: crypto_onetimeauth_verify_def crypto_verify_16_def crypto_onetimeauth_rfc)
  then show ?thesis using crypto_onetimeauth_rfc [OF assms] by blast
qed

theorem poly1305_standard_witness:
  "crypto_onetimeauth poly_example_text poly_example_key =
    [0xa8, 0x06, 0x1d, 0xc1, 0x30, 0x51, 0x36, 0xc6, 0xc2, 0x2b, 0x8b, 0xaf, 0x0c, 0x01, 0x27, 0xa9]"
proof -
  have "32 \<le> length poly_example_key" by (simp add: poly_example_key_def)
  then show ?thesis using poly1305_standard poly_example_tag by metis
qed

text \<open>C34: \<open>crypto_secretbox\<close> sends the XSalsa20-Poly1305 box of the message behind its zero bytes,
  \<open>crypto_secretbox_open\<close> opens exactly the boxes that carry the right authenticator and fails on
  all others and on any that are too short, and opening gives back what was sealed.\<close>

theorem secretbox_sealed:
  assumes "length n = 24" and "length k = 32"
  shows "crypto_secretbox (replicate 32 0 @ msg) (32 + length msg) n k = Some (replicate 16 0 @ seal_box k n msg) \<and>
    crypto_secretbox_open (replicate 16 0 @ box) (16 + length box) n k =
      (if length box < 16 then None else map_option (\<lambda>m. replicate 32 0 @ m) (open_box k n box)) \<and>
    open_box k n (seal_box k n msg) = Some msg"
  using secretbox_seals [OF assms(1), of k msg] secretbox_opens_any [OF assms, of box] open_seal [OF assms(1), of k msg] assms(2)
  by simp

theorem secretbox_sealed_witness:
  "crypto_secretbox_open (replicate 16 0 @ seal_box (replicate 32 2) (replicate 24 1) [3, 4, 5])
      (16 + length (seal_box (replicate 32 2) (replicate 24 1) [3, 4, 5])) (replicate 24 1) (replicate 32 2) =
    Some (replicate 32 0 @ [3, 4, 5])"
proof -
  have "length (replicate 24 1 :: bytes) = 24" "length (replicate 32 2 :: bytes) = 32" by simp_all
  from secretbox_sealed [OF this, of "[3, 4, 5]" "seal_box (replicate 32 2) (replicate 24 1) [3, 4, 5]"]
  show ?thesis by (simp add: seal_box_def Let_def)
qed

text \<open>C35: \<open>crypto_box\<close> and \<open>crypto_box_open\<close> are secretbox under the HSalsa20 hash of the X25519 point of one
  side's secret and the other's public key: the box of the message is the standard one, exactly the
  authentic boxes open, and opening gives back what was sealed.\<close>

theorem box_sealed:
  assumes "length n = 24" and "length x = 32" and "length y = 32"
  shows "crypto_box (replicate 32 0 @ msg) (32 + length msg) n y x =
      Some (replicate 16 0 @ seal_box (box_secret x y) n msg) \<and>
    crypto_box_open (replicate 16 0 @ box) (16 + length box) n y x =
      (if length box < 16 then None else map_option (\<lambda>m. replicate 32 0 @ m) (open_box (box_secret x y) n box)) \<and>
    open_box (box_secret x y) n (seal_box (box_secret x y) n msg) = Some msg"
proof -
  have k: "length (box_secret x y) = 32" by (simp add: box_secret_def)
  then show ?thesis
    using secretbox_seals [OF assms(1), of "box_secret x y" msg] secretbox_opens_any [OF assms(1) k, of box]
      open_seal [OF assms(1), of "box_secret x y" msg]
    by (simp add: crypto_box_def crypto_box_afternm_def crypto_box_open_def crypto_box_open_afternm_def Let_def
      box_key [OF assms(2,3)])
qed

theorem box_sealed_witness:
  "crypto_box (replicate 32 0 @ [1, 2, 3]) 35 (replicate 24 7) (replicate 32 5) (replicate 32 3) =
     Some (replicate 16 0 @ seal_box (box_secret (replicate 32 3) (replicate 32 5)) (replicate 24 7) [1, 2, 3]) \<and>
   crypto_box_open (replicate 16 0 @ [1, 2, 3]) 19 (replicate 24 7) (replicate 32 5) (replicate 32 3) = None"
  using box_sealed [of "replicate 24 7" "replicate 32 3" "replicate 32 5" "[1, 2, 3]" "[1, 2, 3]"] by simp

text \<open>C36: \<open>hmac_sha256\<close> is the HMAC of RFC 2104 over the program's SHA-256, for keys of any length, up to
  a message of 8192 bytes, and aborts on a longer one; \<open>hkdf_sha256\<close> is the HKDF of RFC 5869, an
  absent salt being 32 zero bytes, and aborts exactly if no output or no input key material is asked
  of it.\<close>

theorem key_derivation_standard:
  "hmac_sha256 key data = (if length data > 8192 then abort else ret (rfc_hmac sha256 key data)) \<and>
   (length ikm \<le> 8192 \<and> length info < 8160 \<longrightarrow>
     hkdf_sha256 ikm salt info L =
       (if L = 0 \<or> ikm = [] then abort else ret (rfc_hkdf (rfc_hmac sha256) ikm salt info L)))"
  using hkdf_sha256_eq hkdf_sha256_abort by (auto simp: hmac_sha256_eq HMAC_MAXMSG_def HASH_def)

theorem key_derivation_standard_witness:
  "hmac_sha256 [1] [] = ret (rfc_hmac sha256 [1] []) \<and>
   hkdf_sha256 [1] [] [] 64 = ret (rfc_hkdf (rfc_hmac sha256) [1] [] [] 64) \<and> hkdf_sha256 [] [] [] 64 = abort"
  using key_derivation_standard [of "[1]" "[]" "[1]" "[]" "[]" 64] key_derivation_standard [of "[1]" "[]" "[]" "[]" "[]" 64] by simp



section \<open>Files\<close>

text \<open>C38: a file that holds the lines of blobs no longer than a blob reads back as those blobs, in the
  first of the program's blobs, and the rest stay zero.\<close>

theorem raw_read_back:
  assumes "\<forall>b \<in> set bs. canonical b" and "length bs \<le> mx"
  shows "readraw path (Some (render (raw_lines bs))) (replicate mx zero_blob) mx =
    ret (bs @ replicate (mx - length bs) zero_blob, length bs)"
  using assms by (rule readraw_written)

theorem raw_read_back_witness:
  "readraw ''raw'' (Some (render (raw_lines [absent_blob, blob_of [0x61, 0x62]]))) (replicate 4 zero_blob) 4 =
    ret ([absent_blob, blob_of [0x61, 0x62], zero_blob, zero_blob], 2)"
  using raw_read_back [of "[absent_blob, blob_of [0x61, 0x62]]" 4 "''raw''"]
  by (simp add: canonical_def numeral_eq_Suc wf_blob_of MAXBLOB_def)

text \<open>C39: whatever a file holds, the blobs \<open>readraw\<close> fills are well formed: at most \<open>MAXBLOB\<close> bytes, an
  array that is zero behind them, and no bytes if the blob is absent.\<close>

theorem raw_blobs_well_formed:
  assumes "snd (readraw path file (replicate MAXBLOBS zero_blob) MAXBLOBS) = Inr (bs, n)"
  shows "length bs = MAXBLOBS \<and> n \<le> MAXBLOBS \<and> (\<forall>b \<in> set bs. wf_blob b)"
  using assms by (rule readraw_wf)

theorem raw_blobs_well_formed_witness:
  "\<exists>bs n. snd (readraw ''raw'' (Some []) (replicate MAXBLOBS zero_blob) MAXBLOBS) = Inr (bs, n) \<and>
     (\<forall>b \<in> set bs. wf_blob b)"
proof -
  have "snd (readraw ''raw'' (Some []) (replicate MAXBLOBS zero_blob) MAXBLOBS) = Inr (replicate MAXBLOBS zero_blob, 0)"
    by (simp add: readraw_def file_lines.simps)
  then show ?thesis using raw_blobs_well_formed by blast
qed

text \<open>C40: a record whose names and values are words no longer than its buffers reads back from its own
  text as it was, in order and with repeated names.\<close>

theorem expect_read_back:
  assumes "list_all wf_line ls" and "length ls \<le> mx"
  shows "readexpect path (Some (render ls)) mx = ret (record_of ls)"
  using assms by (rule readexpect_written)

theorem expect_read_back_witness:
  "readexpect ''expect'' (Some (render [Field ''hops'' ''3'', Field ''tag'' ''-''])) 40 = ret [(''hops'', ''3''), (''tag'', ''-'')]"
proof -
  have "list_all wf_line [Field ''hops'' ''3'', Field ''tag'' ''-'']" by code_simp
  then show ?thesis using expect_read_back [of "[Field ''hops'' ''3'', Field ''tag'' ''-'']" 40 "''expect''"] by simp
qed

end
